(* ===== verification/Prelude.thy ===== *)
theory Prelude
  imports Main "HOL-Library.AList" "HOL-Library.Word"
begin

unbundle bit_operations_syntax

text \<open>
  What the components of the repository share: the outcome of a piece of Go code (it returns,
  panics, ends the process, or blocks for ever on a mutex it already holds), Go maps as
  association lists with an interface locale, the 32-bit FNV-1a hash of Go's \<open>hash/fnv\<close>
  package (used by \<open>mr.ihash\<close> and \<open>shardcfg.Key2Shard\<close>), \<open>strconv.Itoa\<close>, and the
  counting lemmas behind majorities.
\<close>

named_theorems go_simps \<open>computation rules of the Go outcome type\<close>

section \<open>Outcomes of Go code\<close>

text \<open>
  \<open>Ret\<close> is a normal return, \<open>Panic\<close> a run-time panic (an index out of range, say), \<open>Fatal\<close>
  the end of the process by \<open>log.Fatalf\<close>, and \<open>Block\<close> a goroutine that waits for ever
  (locking a \<open>sync.Mutex\<close> that the same goroutine holds).
\<close>

datatype 'a go = Ret 'a | Panic | Fatal | Block

fun go_bind :: "'a go \<Rightarrow> ('a \<Rightarrow> 'b go) \<Rightarrow> 'b go" where
  "go_bind (Ret x) f = f x"
| "go_bind Panic f = Panic"
| "go_bind Fatal f = Fatal"
| "go_bind Block f = Block"

lemma go_bind_Ret_iff [go_simps]: "go_bind m f = Ret y \<longleftrightarrow> (\<exists>x. m = Ret x \<and> f x = Ret y)"
  by (cases m) auto

lemma go_bind_assoc: "go_bind (go_bind m f) g = go_bind m (\<lambda>x. go_bind (f x) g)"
  by (cases m) auto

section \<open>Slices\<close>

text \<open>Indexing a slice, which panics out of range; a nil slice has length 0.\<close>

definition idx :: "'a list \<Rightarrow> int \<Rightarrow> 'a go" where
  "idx xs i = (if 0 \<le> i \<and> i < int (length xs) then Ret (xs ! nat i) else Panic)"

definition set_idx :: "'a list \<Rightarrow> int \<Rightarrow> 'a \<Rightarrow> 'a list go" where
  "set_idx xs i x = (if 0 \<le> i \<and> i < int (length xs) then Ret (xs[nat i := x]) else Panic)"

definition slice :: "'a list option \<Rightarrow> 'a list" where
  "slice xs = (case xs of None \<Rightarrow> [] | Some ys \<Rightarrow> ys)"

section \<open>Go maps\<close>

text \<open>
  A Go map is an association list with distinct keys: \<open>len\<close> is its length, and its order stands
  for the iteration order of \<open>range\<close>, which Go leaves unspecified. The locale is what the
  components use of it; every component works with the interpretation \<open>gm\<close> below.
\<close>

locale go_map =
  fixes empty :: 'm
    and get :: "'m \<Rightarrow> 'k \<Rightarrow> 'v option"
    and put :: "'k \<Rightarrow> 'v \<Rightarrow> 'm \<Rightarrow> 'm"
    and del :: "'k \<Rightarrow> 'm \<Rightarrow> 'm"
    and len :: "'m \<Rightarrow> nat"
    and wf :: "'m \<Rightarrow> bool"
  assumes get_empty: "get empty k = None"
    and get_put: "get (put k v m) k' = (if k' = k then Some v else get m k')"
    and get_del: "get (del k m) k' = (if k' = k then None else get m k')"
    and len_eq: "wf m \<Longrightarrow> len m = card {k. get m k \<noteq> None}"
    and dom_finite: "finite {k. get m k \<noteq> None}"
    and wf_empty: "wf empty"
    and wf_put: "wf m \<Longrightarrow> wf (put k v m)"
    and wf_del: "wf m \<Longrightarrow> wf (del k m)"
begin

lemma len_empty: "len empty = 0"
  using len_eq [OF wf_empty] by (simp add: get_empty)

lemma len_put:
  assumes "wf m"
  shows "len (put k v m) = (if get m k = None then Suc (len m) else len m)"
proof -
  have "{k'. get (put k v m) k' \<noteq> None} = insert k {k'. get m k' \<noteq> None}"
    by (auto simp: get_put)
  then show ?thesis
    using len_eq [OF assms] len_eq [OF wf_put [OF assms]] dom_finite [of m]
    by (simp add: card_insert_if)
qed

lemma len_del:
  assumes "wf m"
  shows "len (del k m) = (if get m k = None then len m else len m - 1)"
proof -
  have "{k'. get (del k m) k' \<noteq> None} = {k'. get m k' \<noteq> None} - {k}"
    by (auto simp: get_del)
  then show ?thesis
    using len_eq [OF assms] len_eq [OF wf_del [OF assms]] dom_finite [of m]
    by (simp add: card_Diff_singleton_if)
qed

lemma put_put_same_get: "get (put k w (put k v m)) = get (put k w m)"
  by (rule ext) (simp add: get_put)

end

type_synonym ('k, 'v) gomap = "('k \<times> 'v) list"

definition gm_wf :: "('k, 'v) gomap \<Rightarrow> bool" where
  "gm_wf m \<longleftrightarrow> distinct (map fst m)"

lemma gm_len_card: "gm_wf m \<Longrightarrow> length m = card {k. map_of m k \<noteq> None}"
proof -
  assume "gm_wf m"
  have "{k. map_of m k \<noteq> None} = set (map fst m)"
    by (auto simp: map_of_eq_None_iff image_iff)
  with \<open>gm_wf m\<close> show ?thesis
    by (metis distinct_card gm_wf_def length_map)
qed

interpretation gm: go_map "[]" map_of AList.update AList.delete length gm_wf
proof unfold_locales
  show "finite {k. map_of m k \<noteq> None}" for m :: "('k \<times> 'v) list"
    using finite_dom_map_of [of m] by (simp add: dom_def)
  show "gm_wf m \<Longrightarrow> gm_wf (AList.update k v m)" for m k v
    by (simp add: gm_wf_def distinct_update)
  show "gm_wf m \<Longrightarrow> gm_wf (AList.delete k m)" for m k
    by (simp add: gm_wf_def distinct_delete)
qed (auto simp: update_conv' delete_conv' gm_len_card gm_wf_def)

lemma set_gm_put: "set (AList.update k v m) \<subseteq> insert (k, v) (set m)"
  by (induction m) auto

section \<open>The FNV-1a hash of hash/fnv\<close>

text \<open>
  \<open>fnv.New32a\<close> starts from the offset basis; \<open>Write\<close> folds each byte in by exclusive-or and
  multiplies by the FNV prime, both modulo \<open>2 ^ 32\<close>; \<open>Sum32\<close> reads the state.
\<close>

definition fnv32a_step :: "32 word \<Rightarrow> char \<Rightarrow> 32 word" where
  "fnv32a_step h c = (h XOR of_char c) * 16777619"

definition fnv32a :: "string \<Rightarrow> 32 word" where
  "fnv32a s = foldl fnv32a_step 2166136261 s"

section \<open>strconv.Itoa\<close>

fun digits :: "nat \<Rightarrow> string" where
  "digits n = (if n < 10 then [char_of (48 + n)] else digits (n div 10) @ [char_of (48 + n mod 10)])"

declare digits.simps [simp del]

definition Itoa :: "int \<Rightarrow> string" where
  "Itoa i = (if i < 0 then CHR ''-'' # digits (nat (- i)) else digits (nat i))"

definition undigits :: "string \<Rightarrow> nat" where
  "undigits s = foldl (\<lambda>a c. 10 * a + (of_char c - 48)) 0 s"

lemma digits_induct [case_names less ge]:
  assumes "\<And>n. n < 10 \<Longrightarrow> P n" and "\<And>n. \<not> n < 10 \<Longrightarrow> P (n div 10) \<Longrightarrow> P n"
  shows "P (n :: nat)"
  using assms by (induction n rule: digits.induct) blast

lemma undigits_digits: "undigits (digits n) = n"
proof (induction n rule: digits_induct)
  case (less n)
  then show ?case by (simp add: digits.simps undigits_def)
next
  case (ge n)
  have "undigits (digits n) = 10 * undigits (digits (n div 10)) + n mod 10"
    using ge by (subst digits.simps) (simp add: undigits_def)
  with ge show ?case by simp
qed

lemma digits_digit: "c \<in> set (digits n) \<Longrightarrow> of_char c \<in> {48..<58 :: nat}"
proof (induction n rule: digits_induct)
  case (less n)
  then show ?case by (auto simp: digits.simps)
next
  case (ge n)
  moreover have "n mod 10 < 10" by simp
  ultimately show ?case by (subst (asm) (2) digits.simps) (auto simp del: mod_less_divisor)
qed

lemma Itoa_int [simp]: "Itoa (int n) = digits n"
  by (simp add: Itoa_def)

lemma digits_inj [simp]: "digits m = digits n \<longleftrightarrow> m = n"
  by (metis undigits_digits)

lemma digits_no_dash: "CHR ''-'' \<notin> set (digits n)"
  using digits_digit [of "CHR ''-''" n] by auto

section \<open>Majorities\<close>

lemma majorities_meet:
  assumes "A \<subseteq> {..<n}" and "B \<subseteq> {..<n}" and "n div 2 < card A" and "n div 2 < card B"
  shows "A \<inter> B \<noteq> {}"
proof
  assume "A \<inter> B = {}"
  moreover have "finite A" and "finite B"
    using assms(1,2) by (auto intro: finite_subset)
  ultimately have "card A + card B = card (A \<union> B)"
    by (simp add: card_Un_disjoint)
  also have "\<dots> \<le> n"
    using assms(1,2) card_mono [of "{..<n}" "A \<union> B"] by simp
  finally show False
    using assms(3,4) by linarith
qed

end
