(* ===== verification/KvServer.thy ===== *)
theory KvServer
  imports Prelude
begin

text \<open>
  The versioned key/value server of \<open>kvsrv1\<close>: the RPC types of \<open>kvsrv1/rpc/rpc.go\<close> and the
  handlers \<open>Get\<close> and \<open>Put\<close> of \<open>kvsrv1/server.go\<close>. Each handler runs under the server's mutex,
  so a handler is one function from the state and the arguments to the new state and the reply.
  The locale \<open>versioned_store\<close> states what clients may rely on: a conditional put that succeeds
  exactly at the current version and then moves the version by one, modulo \<open>2 ^ 64\<close>.
\<close>

named_theorems kv_simps \<open>unfolding rules of the key/value server\<close>

section \<open>The RPC types\<close>

text \<open>
  \<open>rpc.Err\<close> is a Go string with a fixed set of constants; \<open>ErrZero\<close> is its zero value, the empty
  string, which a reply holds before a handler has set it. \<open>err_string\<close> is the string of each.
\<close>

datatype Err = OK | ErrNoKey | ErrVersion | ErrMaybe | ErrWrongLeader | ErrWrongGroup | ErrZero

fun err_string :: "Err \<Rightarrow> string" where
  "err_string OK = ''OK''"
| "err_string ErrNoKey = ''ErrNoKey''"
| "err_string ErrVersion = ''ErrVersion''"
| "err_string ErrMaybe = ''ErrMaybe''"
| "err_string ErrWrongLeader = ''ErrWrongLeader''"
| "err_string ErrWrongGroup = ''ErrWrongGroup''"
| "err_string ErrZero = ''''"

lemma err_string_inj: "err_string a = err_string b \<longleftrightarrow> a = b"
  by (cases a; cases b) simp_all

type_synonym Tversion = "64 word"

record PutArgs =
  pa_Key :: string
  pa_Value :: string
  pa_Version :: Tversion

record PutReply =
  pr_Err :: Err

record GetArgs =
  ga_Key :: string

record GetReply =
  gr_Value :: string
  gr_Version :: Tversion
  gr_Err :: Err

section \<open>The server\<close>

record KeyValue =
  kv_Value :: string
  kv_Version :: Tversion

record KVServer =
  data :: "string \<rightharpoonup> KeyValue"

definition MakeKVServer :: KVServer where
  "MakeKVServer = \<lparr>data = Map.empty\<rparr>"

definition KVServer_Get :: "KVServer \<Rightarrow> GetArgs \<Rightarrow> KVServer \<times> GetReply" where
  "KVServer_Get kv args =
     (case data kv (ga_Key args) of
        Some kvdata \<Rightarrow>
          (kv, \<lparr>gr_Value = kv_Value kvdata, gr_Version = kv_Version kvdata, gr_Err = OK\<rparr>)
      | None \<Rightarrow> (kv, \<lparr>gr_Value = '''', gr_Version = 0, gr_Err = ErrNoKey\<rparr>))"

definition KVServer_Put :: "KVServer \<Rightarrow> PutArgs \<Rightarrow> KVServer \<times> PutReply" where
  "KVServer_Put kv args =
     (case data kv (pa_Key args) of
        Some currentKV \<Rightarrow>
          if pa_Version args = kv_Version currentKV
          then (kv\<lparr>data := (data kv)(pa_Key args \<mapsto>
                   \<lparr>kv_Value = pa_Value args, kv_Version = kv_Version currentKV + 1\<rparr>)\<rparr>,
                \<lparr>pr_Err = OK\<rparr>)
          else (kv, \<lparr>pr_Err = ErrVersion\<rparr>)
      | None \<Rightarrow>
          if pa_Version args = 0
          then (kv\<lparr>data := (data kv)(pa_Key args \<mapsto>
                   \<lparr>kv_Value = pa_Value args, kv_Version = 1\<rparr>)\<rparr>,
                \<lparr>pr_Err = OK\<rparr>)
          else (kv, \<lparr>pr_Err = ErrNoKey\<rparr>))"

text \<open>
  The mutex serialises the handlers, so a run of the server is a list of requests served one
  after the other; \<open>KVServer_run\<close> also collects the replies.
\<close>

datatype KvReq = ReqGet GetArgs | ReqPut PutArgs

datatype KvRep = RepGet GetReply | RepPut PutReply

fun req_key :: "KvReq \<Rightarrow> string" where
  "req_key (ReqGet a) = ga_Key a"
| "req_key (ReqPut a) = pa_Key a"

fun KVServer_serve :: "KVServer \<Rightarrow> KvReq \<Rightarrow> KVServer \<times> KvRep" where
  "KVServer_serve kv (ReqGet a) = (case KVServer_Get kv a of (kv', r) \<Rightarrow> (kv', RepGet r))"
| "KVServer_serve kv (ReqPut a) = (case KVServer_Put kv a of (kv', r) \<Rightarrow> (kv', RepPut r))"

fun KVServer_run :: "KVServer \<Rightarrow> KvReq list \<Rightarrow> KVServer \<times> KvRep list" where
  "KVServer_run kv [] = (kv, [])"
| "KVServer_run kv (q # qs) =
     (let (kv1, r) = KVServer_serve kv q; (kv2, rs) = KVServer_run kv1 qs in (kv2, r # rs))"

definition rep_OK :: "KvRep \<Rightarrow> bool" where
  "rep_OK r \<longleftrightarrow> r = RepPut \<lparr>pr_Err = OK\<rparr>"


section \<open>The contract of a versioned store\<close>

text \<open>
  \<open>cur s k\<close> is what a \<open>Get\<close> of \<open>k\<close> reports: the value and the version, \<open>('''', 0)\<close> for a key
  that was never put. The laws: reading returns \<open>cur\<close> and changes nothing; a conditional put
  succeeds exactly when its version is the current one; it then installs the value at the next
  version and touches no other key; otherwise nothing changes.
\<close>

locale versioned_store =
  fixes cur :: "'s \<Rightarrow> string \<Rightarrow> string \<times> Tversion"
    and put :: "'s \<Rightarrow> string \<Rightarrow> string \<Rightarrow> Tversion \<Rightarrow> 's \<times> Err"
  assumes put_OK_iff: "snd (put s k v n) = OK \<longleftrightarrow> n = snd (cur s k)"
    and put_OK: "snd (put s k v n) = OK \<Longrightarrow>
      cur (fst (put s k v n)) k' = (if k' = k then (v, n + 1) else cur s k')"
    and put_fail: "snd (put s k v n) \<noteq> OK \<Longrightarrow> fst (put s k v n) = s"
begin

definition ver :: "'s \<Rightarrow> string \<Rightarrow> nat" where
  "ver s k = unat (snd (cur s k))"

fun puts :: "'s \<Rightarrow> (string \<times> string \<times> Tversion) list \<Rightarrow> 's" where
  "puts s [] = s"
| "puts s ((k, v, n) # ps) = puts (fst (put s k v n)) ps"

fun oks :: "'s \<Rightarrow> string \<Rightarrow> (string \<times> string \<times> Tversion) list \<Rightarrow> nat" where
  "oks s k' [] = 0"
| "oks s k' ((k, v, n) # ps) =
     (if k = k' \<and> snd (put s k v n) = OK then 1 else 0) + oks (fst (put s k v n)) k' ps"

lemma cur_put:
  "cur (fst (put s k v n)) k' =
     (if k' = k \<and> n = snd (cur s k) then (v, n + 1) else cur s k')"
  using put_OK [of s k v n k'] put_fail [of s k v n] put_OK_iff [of s k v n] by auto

lemma version_counts_puts: "snd (cur (puts s ps) k) = snd (cur s k) + of_nat (oks s k ps)"
proof (induction ps arbitrary: s)
  case (Cons p ps)
  obtain k' v n where "p = (k', v, n)" by (cases p)
  then show ?case using Cons.IH by (auto simp: cur_put put_OK_iff)
qed simp

lemma oks_le_length: "oks s k ps \<le> length ps"
  by (induction s k ps rule: oks.induct) auto

text \<open>Once a put at version \<open>n\<close> was accepted, no put at \<open>n\<close> is, short of \<open>2 ^ 64\<close> puts.\<close>

lemma no_second_put:
  assumes "snd (put s k v n) = OK" and "Suc (length ps) < 2 ^ 64"
  shows "snd (put (puts (fst (put s k v n)) ps) k w n) \<noteq> OK"
proof
  let ?s = "fst (put s k v n)"
  assume "snd (put (puts ?s ps) k w n) = OK"
  then have "n = snd (cur (puts ?s ps) k)" by (simp add: put_OK_iff)
  also have "\<dots> = n + 1 + of_nat (oks ?s k ps)"
    using assms(1) by (simp add: version_counts_puts put_OK)
  finally have "(of_nat (Suc (oks ?s k ps)) :: Tversion) = 0"
    by (simp add: algebra_simps)
  then have "2 ^ 64 dvd Suc (oks ?s k ps)"
    by (simp only: word_of_nat_eq_0_iff) simp
  then have "2 ^ 64 \<le> Suc (oks ?s k ps)"
    by (rule dvd_imp_le) simp
  moreover have "Suc (oks ?s k ps) < 2 ^ 64"
    using oks_le_length [of ?s k ps] assms(2) by linarith
  ultimately show False by simp
qed

end

text \<open>The server is such a store.\<close>

definition kv_cur :: "KVServer \<Rightarrow> string \<Rightarrow> string \<times> Tversion" where
  "kv_cur kv k = (let r = snd (KVServer_Get kv \<lparr>ga_Key = k\<rparr>) in (gr_Value r, gr_Version r))"

definition kv_put :: "KVServer \<Rightarrow> string \<Rightarrow> string \<Rightarrow> Tversion \<Rightarrow> KVServer \<times> Err" where
  "kv_put kv k v n =
     (let (kv', r) = KVServer_Put kv \<lparr>pa_Key = k, pa_Value = v, pa_Version = n\<rparr> in (kv', pr_Err r))"

lemmas kv_defs = KVServer_Get_def KVServer_Put_def kv_cur_def kv_put_def Let_def

interpretation kvs: versioned_store kv_cur kv_put
  by unfold_locales (auto simp: kv_defs split: option.splits if_splits)

section \<open>Facts about the server\<close>

lemma Get_state [simp]: "fst (KVServer_Get kv a) = kv"
  by (simp add: KVServer_Get_def split: option.splits)

lemma Get_reply:
  "snd (KVServer_Get kv a) =
     \<lparr>gr_Value = fst (kv_cur kv (ga_Key a)), gr_Version = snd (kv_cur kv (ga_Key a)),
      gr_Err = (if data kv (ga_Key a) = None then ErrNoKey else OK)\<rparr>"
  by (auto simp: kv_defs split: option.splits)

lemma Put_eq:
  "KVServer_Put kv a =
     (fst (kv_put kv (pa_Key a) (pa_Value a) (pa_Version a)),
      \<lparr>pr_Err = snd (kv_put kv (pa_Key a) (pa_Value a) (pa_Version a))\<rparr>)"
  by (auto simp: kv_defs split: option.splits)

lemma Put_OK_iff [kv_simps]:
  "pr_Err (snd (KVServer_Put kv a)) = OK \<longleftrightarrow> pa_Version a = snd (kv_cur kv (pa_Key a))"
  by (simp add: Put_eq kvs.put_OK_iff)

lemma Put_cur [kv_simps]:
  "kv_cur (fst (KVServer_Put kv a)) k =
     (if k = pa_Key a \<and> pa_Version a = snd (kv_cur kv k) then (pa_Value a, pa_Version a + 1)
      else kv_cur kv k)"
  by (auto simp: Put_eq kvs.cur_put)

lemma Put_err:
  "pr_Err (snd (KVServer_Put kv a)) =
     (if pa_Version a = snd (kv_cur kv (pa_Key a)) then OK
      else if data kv (pa_Key a) = None then ErrNoKey else ErrVersion)"
  by (auto simp: kv_defs split: option.splits)

lemma serve_Get [simp]: "KVServer_serve kv (ReqGet a) = (kv, RepGet (snd (KVServer_Get kv a)))"
  by (simp add: split_beta)

lemma serve_Put [simp]:
  "KVServer_serve kv (ReqPut a) = (fst (KVServer_Put kv a), RepPut (snd (KVServer_Put kv a)))"
  by (simp add: split_beta)

declare KVServer_serve.simps [simp del]

lemma rep_OK_simps [simp]: "rep_OK (RepPut r) \<longleftrightarrow> pr_Err r = OK" "\<not> rep_OK (RepGet g)"
  by (cases r) (simp_all add: rep_OK_def)

lemma cur_init [simp]: "kv_cur MakeKVServer k = ('''', 0)"
  by (simp add: kv_defs MakeKVServer_def)

text \<open>A run of the server acts on the store as the run of its puts.\<close>

fun put_of :: "KvReq \<Rightarrow> (string \<times> string \<times> Tversion) list" where
  "put_of (ReqGet a) = []"
| "put_of (ReqPut a) = [(pa_Key a, pa_Value a, pa_Version a)]"

lemma run_is_puts: "fst (KVServer_run kv qs) = kvs.puts kv (concat (map put_of qs))"
proof (induction qs arbitrary: kv)
  case (Cons q qs)
  then show ?case by (cases q) (simp_all add: split_beta Put_eq)
qed simp

lemma length_concat_put_of: "length (concat (map put_of qs)) \<le> length qs"
proof (induction qs)
  case (Cons q qs)
  then show ?case by (cases q) simp_all
qed simp

section \<open>Properties\<close>

text \<open>
  A \<open>Put\<close> that the server accepts is read back: the next \<open>Get\<close> of that key reports the
  value, the version one higher and \<open>OK\<close>, while a \<open>Get\<close> of any other key reports what it
  reported before.
\<close>

lemma put_then_get:
  assumes "pr_Err (snd (KVServer_Put kv a)) = OK"
  shows "snd (KVServer_Get (fst (KVServer_Put kv a)) \<lparr>ga_Key = k\<rparr>) =
     (if k = pa_Key a
      then \<lparr>gr_Value = pa_Value a, gr_Version = pa_Version a + 1, gr_Err = OK\<rparr>
      else snd (KVServer_Get kv \<lparr>ga_Key = k\<rparr>))"
  using assms by (auto simp: KVServer_Put_def KVServer_Get_def split: option.splits if_splits)

text \<open>
  A \<open>Put\<close> is executed at most once. Two puts of one key with the same version, whatever
  requests are served between them (fewer than \<open>2 ^ 64 - 1\<close>, so that the 64-bit version cannot
  come round), are never both accepted.
\<close>

lemma put_at_most_once:
  assumes "pr_Err (snd (KVServer_Put kv a)) = OK"
    and "pa_Key b = pa_Key a" and "pa_Version b = pa_Version a"
    and "Suc (length qs) < 2 ^ 64"
  shows "pr_Err (snd (KVServer_Put (fst (KVServer_run (fst (KVServer_Put kv a)) qs)) b)) \<noteq> OK"
  using assms length_concat_put_of [of qs]
    kvs.no_second_put [of kv "pa_Key a" "pa_Value a" "pa_Version a"
      "concat (map put_of qs)" "pa_Value b"]
  by (simp add: Put_eq run_is_puts)

end
