(* ===== verification/KvClerk.thy ===== *)
theory KvClerk
  imports KvServer
begin

text \<open>
  The clerk of \<open>kvsrv1/client.go\<close> and the asynchronous system it runs in. \<open>Clerk_Get\<close> and
  \<open>Clerk_Put\<close> are the retry loops over the results of \<open>clnt.Call\<close>; one iteration of each loop is a
  definition of its own, which the step relation below reuses.

  \<open>rpc_step\<close> is the system of many clients and one server that the network of \<open>labrpc\<close> allows: a
  call puts a request into the network; the server may execute it at any later time, even after
  the caller has given up on it, but at most once; the network may lose it; the caller gets the
  reply of an executed request, or \<open>false\<close> at any time.
\<close>

section \<open>The retry loops\<close>

text \<open>The result of \<open>clnt.Call\<close>: \<open>false\<close>, or \<open>true\<close> with a reply.\<close>

datatype 'r call = CallFail | CallOk 'r

definition Clerk_Get_iter :: "GetReply call \<Rightarrow> (string \<times> Tversion \<times> Err) option" where
  "Clerk_Get_iter res =
     (case res of
        CallOk reply \<Rightarrow> Some (gr_Value reply, gr_Version reply, gr_Err reply)
      | CallFail \<Rightarrow> None)"

text \<open>
  \<open>Clerk_Get\<close> and \<open>Clerk_Put\<close> run over the results of the successive calls; \<open>None\<close> says that the
  loop is still retrying when the given results are used up. Sleeping and logging are left out.
\<close>

fun Clerk_Get :: "GetReply call list \<Rightarrow> (string \<times> Tversion \<times> Err) option" where
  "Clerk_Get [] = None"
| "Clerk_Get (res # rest) =
     (case Clerk_Get_iter res of Some out \<Rightarrow> Some out | None \<Rightarrow> Clerk_Get rest)"

text \<open>One iteration of \<open>Put\<close>: \<open>Inl err\<close> returns, \<open>Inr first\<close> retries with that flag.\<close>

definition Clerk_Put_iter :: "bool \<Rightarrow> PutReply call \<Rightarrow> Err + bool" where
  "Clerk_Put_iter isFirstAttempt res =
     (case res of
        CallOk reply \<Rightarrow>
          if pr_Err reply = ErrVersion
          then (if isFirstAttempt then Inl ErrVersion else Inl ErrMaybe)
          else Inl (pr_Err reply)
      | CallFail \<Rightarrow> Inr False)"

fun Clerk_Put_loop :: "bool \<Rightarrow> PutReply call list \<Rightarrow> Err option" where
  "Clerk_Put_loop isFirstAttempt [] = None"
| "Clerk_Put_loop isFirstAttempt (res # rest) =
     (case Clerk_Put_iter isFirstAttempt res of
        Inl err \<Rightarrow> Some err
      | Inr first' \<Rightarrow> Clerk_Put_loop first' rest)"

definition Clerk_Put :: "PutReply call list \<Rightarrow> Err option" where
  "Clerk_Put ress = Clerk_Put_loop True ress"

section \<open>Clients and the network\<close>

text \<open>
  \<open>srv\<close> is the server; \<open>pool\<close> the requests in the network, each with its client and a number
  that tells the attempts apart; \<open>wait\<close> the attempt a client is waiting for and the reply once
  the server has executed it; \<open>loc\<close> the local states; \<open>served\<close> the requests the server has
  executed so far, newest first, with the client (\<open>None\<close> for clients outside) and the reply.
\<close>

record 'c rpc_sys =
  srv :: KVServer
  pool :: "(nat \<times> nat \<times> KvReq) set"
  wait :: "nat \<rightharpoonup> nat \<times> KvRep option"
  loc :: "nat \<Rightarrow> 'c"
  nextid :: nat
  served :: "(nat option \<times> KvReq \<times> KvRep) list"

text \<open>
  The client program is given by three functions: \<open>request\<close>, the RPC a client in a local state is
  about to issue; \<open>resume\<close>, its local state after the call has returned; \<open>act\<close>, the local moves
  that involve no call. \<open>env\<close> says which requests clients outside the system may issue.
\<close>

inductive rpc_step ::
  "(nat \<Rightarrow> 'c \<Rightarrow> KvReq option) \<Rightarrow> (nat \<Rightarrow> 'c \<Rightarrow> KvRep call \<Rightarrow> 'c) \<Rightarrow> (nat \<Rightarrow> 'c \<Rightarrow> 'c \<Rightarrow> bool) \<Rightarrow>
   (KvReq \<Rightarrow> bool) \<Rightarrow> 'c rpc_sys \<Rightarrow> 'c rpc_sys \<Rightarrow> bool"
  for request resume act env
where
  send: "wait s c = None \<Longrightarrow> request c (loc s c) = Some q \<Longrightarrow>
    rpc_step request resume act env s
      (s\<lparr>pool := insert (c, nextid s, q) (pool s), wait := (wait s)(c \<mapsto> (nextid s, None)),
         nextid := Suc (nextid s)\<rparr>)"
| exec: "(c, i, q) \<in> pool s \<Longrightarrow> KVServer_serve (srv s) q = (kv', r) \<Longrightarrow>
    rpc_step request resume act env s
      (s\<lparr>srv := kv', pool := pool s - {(c, i, q)},
         wait := (if wait s c = Some (i, None) then (wait s)(c \<mapsto> (i, Some r)) else wait s),
         served := (Some c, q, r) # served s\<rparr>)"
| lose: "(c, i, q) \<in> pool s \<Longrightarrow>
    rpc_step request resume act env s (s\<lparr>pool := pool s - {(c, i, q)}\<rparr>)"
| reply: "wait s c = Some (i, Some r) \<Longrightarrow>
    rpc_step request resume act env s
      (s\<lparr>wait := (wait s)(c := None), loc := (loc s)(c := resume c (loc s c) (CallOk r))\<rparr>)"
| fail: "wait s c = Some (i, w) \<Longrightarrow>
    rpc_step request resume act env s
      (s\<lparr>wait := (wait s)(c := None), loc := (loc s)(c := resume c (loc s c) CallFail)\<rparr>)"
| local: "wait s c = None \<Longrightarrow> act c (loc s c) l' \<Longrightarrow>
    rpc_step request resume act env s (s\<lparr>loc := (loc s)(c := l')\<rparr>)"
| outside: "env q \<Longrightarrow> KVServer_serve (srv s) q = (kv', r) \<Longrightarrow>
    rpc_step request resume act env s (s\<lparr>srv := kv', served := (None, q, r) # served s\<rparr>)"

text \<open>
  Reachable states, with the number of steps: the version of a key is a 64-bit word, so what
  follows holds for runs of fewer than \<open>2 ^ 64\<close> steps.
\<close>

inductive rpc_reach ::
  "(nat \<Rightarrow> 'c \<Rightarrow> KvReq option) \<Rightarrow> (nat \<Rightarrow> 'c \<Rightarrow> KvRep call \<Rightarrow> 'c) \<Rightarrow> (nat \<Rightarrow> 'c \<Rightarrow> 'c \<Rightarrow> bool) \<Rightarrow>
   (KvReq \<Rightarrow> bool) \<Rightarrow> (nat \<Rightarrow> 'c) \<Rightarrow> nat \<Rightarrow> 'c rpc_sys \<Rightarrow> bool"
  for request resume act env l0
where
  init: "rpc_reach request resume act env l0 0
    \<lparr>srv = MakeKVServer, pool = {}, wait = Map.empty, loc = l0, nextid = 0, served = []\<rparr>"
| step: "rpc_reach request resume act env l0 n s \<Longrightarrow> rpc_step request resume act env s t \<Longrightarrow>
    rpc_reach request resume act env l0 (Suc n) t"

section \<open>Versions do not wrap in a short run\<close>

definition sver :: "'c rpc_sys \<Rightarrow> string \<Rightarrow> nat" where
  "sver s k = unat (snd (kv_cur (srv s) k))"

lemma serve_cur:
  "kv_cur (fst (KVServer_serve kv q)) k =
     (case q of
        ReqGet a \<Rightarrow> kv_cur kv k
      | ReqPut a \<Rightarrow> if k = pa_Key a \<and> pa_Version a = snd (kv_cur kv k)
                   then (pa_Value a, pa_Version a + 1) else kv_cur kv k)"
  by (cases q) (auto simp: kv_simps)

lemma unat_Suc_no_wrap: "unat w < 2 ^ 64 - 1 \<Longrightarrow> unat ((w :: Tversion) + 1) = Suc (unat w)"
  by (subst unat_word_ariths) simp

lemma sver_serve_le:
  assumes "unat (snd (kv_cur kv k)) < 2 ^ 64 - 1"
  shows "unat (snd (kv_cur (fst (KVServer_serve kv q)) k)) \<le> Suc (unat (snd (kv_cur kv k)))"
    and "unat (snd (kv_cur kv k)) \<le> unat (snd (kv_cur (fst (KVServer_serve kv q)) k))"
  using unat_Suc_no_wrap [OF assms] by (auto simp: serve_cur split: KvReq.splits)

lemma rpc_step_sver:
  assumes "rpc_step request resume act env s t" and "sver s k < 2 ^ 64 - 1"
  shows "sver s k \<le> sver t k" and "sver t k \<le> Suc (sver s k)"
  using assms sver_serve_le [of "srv s" k] unfolding sver_def
  by (cases; simp; metis fst_conv)+

lemma rpc_reach_sver:
  assumes "rpc_reach request resume act env l0 n s" and "n < 2 ^ 64"
  shows "sver s k \<le> n"
  using assms
proof (induction rule: rpc_reach.induct)
  case init
  show ?case by (simp add: sver_def)
next
  case (step n s t)
  then have "sver s k \<le> n" and "n < 2 ^ 64 - 1" by simp_all
  with rpc_step_sver(2) [OF step.hyps(2), of k] show ?case by simp
qed

section \<open>Attempts are told apart\<close>

text \<open>
  The attempt a client waits for is the one its control state asked for: a reply to an earlier
  attempt is never taken for a reply to the current one.
\<close>

definition ids_ok :: "(nat \<Rightarrow> 'c \<Rightarrow> KvReq option) \<Rightarrow> 'c rpc_sys \<Rightarrow> bool" where
  "ids_ok request s \<longleftrightarrow>
     (\<forall>c i q. (c, i, q) \<in> pool s \<longrightarrow> i < nextid s) \<and>
     (\<forall>c i q. wait s c = Some (i, None) \<longrightarrow> (c, i, q) \<in> pool s \<longrightarrow> request c (loc s c) = Some q)"

lemma rpc_step_ids:
  "rpc_step request resume act env s t \<Longrightarrow> ids_ok request s \<Longrightarrow> ids_ok request t"
  by (induction rule: rpc_step.induct)
    (fastforce simp: ids_ok_def less_Suc_eq split: if_splits)+

lemma rpc_reach_ids: "rpc_reach request resume act env l0 n s \<Longrightarrow> ids_ok request s"
  by (induction rule: rpc_reach.induct) (simp_all add: ids_ok_def, metis rpc_step_ids ids_ok_def)


lemma rpc_reach_local:
  "rpc_reach request resume act env l0 n s \<Longrightarrow> wait s c = None \<Longrightarrow> act c (loc s c) l' \<Longrightarrow>
   rpc_reach request resume act env l0 (Suc n) (s\<lparr>loc := (loc s)(c := l')\<rparr>)"
  by (blast intro: rpc_reach.step rpc_step.local)

text \<open>An undisturbed call: sent, executed at once, answered. Concrete runs are made of these.\<close>

lemma rpc_reach_call:
  assumes "rpc_reach request resume act env l0 n s" and "wait s c = None"
    and "request c (loc s c) = Some q"
    and "kv' = fst (KVServer_serve (srv s) q)" and "r = snd (KVServer_serve (srv s) q)"
  shows "rpc_reach request resume act env l0 (Suc (Suc (Suc n)))
    (s\<lparr>nextid := Suc (nextid s), srv := kv', served := (Some c, q, r) # served s,
       loc := (loc s)(c := resume c (loc s c) (CallOk r))\<rparr>)"
proof -
  let ?step = "rpc_step request resume act env"
  define s1 where "s1 = s\<lparr>pool := insert (c, nextid s, q) (pool s),
    wait := (wait s)(c \<mapsto> (nextid s, None)), nextid := Suc (nextid s)\<rparr>"
  define s2 where "s2 = s1\<lparr>srv := kv', pool := pool s,
    wait := (wait s)(c \<mapsto> (nextid s, Some r)), served := (Some c, q, r) # served s\<rparr>"
  have "(c, nextid s, q) \<notin> pool s"
    using rpc_reach_ids [OF assms(1)] by (auto simp: ids_ok_def)
  then have "?step s1 s2"
    using rpc_step.exec [of c "nextid s" q s1 kv' r request resume act env] assms(4,5)
    by (simp add: s1_def s2_def)
  moreover have "?step s s1"
    unfolding s1_def by (rule rpc_step.send) (use assms in auto)
  moreover have "?step s2 (s\<lparr>nextid := Suc (nextid s), srv := kv', served := (Some c, q, r) # served s,
       loc := (loc s)(c := resume c (loc s c) (CallOk r))\<rparr>)"
    using rpc_step.reply [of s2 c "nextid s" r request resume act env] assms(2)
    by (simp add: s1_def s2_def fun_upd_idem)
  ultimately show ?thesis
    using assms(1) by (blast intro: rpc_reach.step)
qed


section \<open>Put calls in the system\<close>

text \<open>
  Every client \<open>c\<close> makes one call of \<open>Clerk.Put\<close> with the arguments \<open>args c\<close>: \<open>PCall\<close> is the loop
  with its \<open>isFirstAttempt\<close>, \<open>PRet\<close> the returned error. All other traffic is \<open>outside\<close>, which may
  issue any request at any time.
\<close>

datatype put_pc = PCall bool | PRet Err

text \<open>\<open>Call\<close> decodes a reply into the reply type of the method, so a \<open>Put\<close> never sees a \<open>GetReply\<close>.\<close>

fun as_put :: "KvRep call \<Rightarrow> PutReply call" where
  "as_put (CallOk (RepPut r)) = CallOk r"
| "as_put _ = CallFail"

fun as_get :: "KvRep call \<Rightarrow> GetReply call" where
  "as_get (CallOk (RepGet r)) = CallOk r"
| "as_get _ = CallFail"

fun put_request :: "(nat \<Rightarrow> PutArgs) \<Rightarrow> nat \<Rightarrow> put_pc \<Rightarrow> KvReq option" where
  "put_request args c (PCall f) = Some (ReqPut (args c))"
| "put_request args c (PRet e) = None"

fun put_resume :: "nat \<Rightarrow> put_pc \<Rightarrow> KvRep call \<Rightarrow> put_pc" where
  "put_resume c (PCall f) res =
     (case Clerk_Put_iter f (as_put res) of Inl e \<Rightarrow> PRet e | Inr f' \<Rightarrow> PCall f')"
| "put_resume c (PRet e) res = PRet e"

abbreviation put_sys_step :: "(nat \<Rightarrow> PutArgs) \<Rightarrow> put_pc rpc_sys \<Rightarrow> put_pc rpc_sys \<Rightarrow> bool" where
  "put_sys_step args \<equiv>
     rpc_step (put_request args) put_resume (\<lambda>c l l'. False) (\<lambda>q. True)"

abbreviation put_sys_reach :: "(nat \<Rightarrow> PutArgs) \<Rightarrow> nat \<Rightarrow> put_pc rpc_sys \<Rightarrow> bool" where
  "put_sys_reach args \<equiv>
     rpc_reach (put_request args) put_resume (\<lambda>c l l'. False) (\<lambda>q. True) (\<lambda>c. PCall True)"

text \<open>How often the server has accepted a put of client \<open>c\<close>.\<close>

definition performed :: "'c rpc_sys \<Rightarrow> nat \<Rightarrow> nat" where
  "performed s c = length (filter (\<lambda>(c', q, r). c' = Some c \<and> rep_OK r) (served s))"

definition in_net :: "'c rpc_sys \<Rightarrow> nat \<Rightarrow> (nat \<times> KvReq) set" where
  "in_net s c = {(i, q). (c, i, q) \<in> pool s}"

definition put_pc_ok :: "put_pc rpc_sys \<Rightarrow> nat \<Rightarrow> bool" where
  "put_pc_ok s c \<longleftrightarrow>
     (case loc s c of
        PRet e \<Rightarrow> wait s c = None \<and> (e = OK \<longrightarrow> performed s c = 1) \<and>
          (e = ErrVersion \<longrightarrow> performed s c = 0 \<and> in_net s c = {})
      | PCall f \<Rightarrow>
          (case wait s c of
             None \<Rightarrow> f \<longrightarrow> performed s c = 0 \<and> in_net s c = {}
           | Some (i, None) \<Rightarrow> f \<longrightarrow> performed s c = 0 \<and> (\<forall>j q. (j, q) \<in> in_net s c \<longrightarrow> j = i)
           | Some (i, Some r) \<Rightarrow>
               (rep_OK r \<longrightarrow> performed s c = 1) \<and>
               (f \<longrightarrow> in_net s c = {} \<and> (\<not> rep_OK r \<longrightarrow> performed s c = 0))))"

definition put_inv :: "(nat \<Rightarrow> PutArgs) \<Rightarrow> put_pc rpc_sys \<Rightarrow> nat \<Rightarrow> bool" where
  "put_inv args s c \<longleftrightarrow>
     (\<forall>j q. (j, q) \<in> in_net s c \<longrightarrow> q = ReqPut (args c)) \<and> performed s c \<le> 1 \<and>
     (performed s c = 1 \<longrightarrow> unat (pa_Version (args c)) < sver s (pa_Key (args c))) \<and>
     put_pc_ok s c"

lemma serve_OK_version:
  "rep_OK (snd (KVServer_serve kv (ReqPut a))) \<longleftrightarrow> pa_Version a = snd (kv_cur kv (pa_Key a))"
  by (simp add: kv_simps)

text \<open>A step that leaves a client's view alone keeps its invariant.\<close>

lemma put_inv_frame:
  assumes "performed t c = performed s c" and "in_net t c = in_net s c"
    and "wait t c = wait s c" and "loc t c = loc s c"
    and "sver s (pa_Key (args c)) \<le> sver t (pa_Key (args c))" and "put_inv args s c"
  shows "put_inv args t c"
  using assms unfolding put_inv_def put_pc_ok_def
  by (auto split: put_pc.splits option.splits) blast+

text \<open>The server executes one of the client's own requests.\<close>

lemma put_inv_exec:
  assumes "put_inv args s c" and iq: "(i, q) \<in> in_net s c"
    and serve: "KVServer_serve (srv s) q = (srv t, r)"
    and small: "sver s (pa_Key (args c)) < 2 ^ 64 - 1"
    and mono: "sver s (pa_Key (args c)) \<le> sver t (pa_Key (args c))"
    and net: "in_net t c = in_net s c - {(i, q)}" and same: "loc t c = loc s c"
    and perf: "performed t c = performed s c + (if rep_OK r then 1 else 0)"
    and w: "wait t c = (if wait s c = Some (i, None) then Some (i, Some r) else wait s c)"
  shows "put_inv args t c"
proof -
  let ?k = "pa_Key (args c)"
  have q: "q = ReqPut (args c)"
    using assms(1) iq by (force simp: put_inv_def)
  have ok: "rep_OK r \<longleftrightarrow> pa_Version (args c) = snd (kv_cur (srv s) ?k)"
    using serve q serve_OK_version by (metis snd_conv)
  have up: "unat (pa_Version (args c)) < sver t ?k" if "rep_OK r"
  proof -
    have "srv t = fst (KVServer_Put (srv s) (args c))" using serve q by simp
    with that ok small show ?thesis by (simp add: sver_def unat_Suc_no_wrap kv_simps)
  qed
  have none: "rep_OK r \<Longrightarrow> performed s c = 0"
    using ok assms(1) by (auto simp: put_inv_def sver_def)
  have empt: "\<forall>j q'. (j, q') \<in> in_net s c \<longrightarrow> j = i \<Longrightarrow> in_net t c = {}"
    using assms(1) by (auto simp: net q put_inv_def)
  have "put_pc_ok t c"
    using assms(1) iq empt none w unfolding put_inv_def put_pc_ok_def same
    by (auto simp: perf net split: put_pc.splits option.splits if_splits) blast+
  with assms(1) none up mono show ?thesis
    by (auto simp: put_inv_def perf net split: if_splits)
qed

lemma put_step_inv:
  assumes "put_sys_step args s t" and "put_inv args s c"
    and small: "sver s (pa_Key (args c)) < 2 ^ 64 - 1"
  shows "put_inv args t c"
proof -
  note mono = rpc_step_sver(1) [OF assms(1) small]
  note defs = put_inv_def put_pc_ok_def performed_def in_net_def sver_def Clerk_Put_iter_def
  from assms(1) show ?thesis
  proof cases
    case (exec d i q kv' r)
    show ?thesis
    proof (cases "d = c")
      case True
      with exec show ?thesis
        by (intro put_inv_exec [OF assms(2) _ _ small mono, of i q r])
          (auto simp: in_net_def performed_def)
    qed (intro put_inv_frame [OF _ _ _ _ mono assms(2)],
        use exec in \<open>auto simp: performed_def in_net_def\<close>)
  next
    case (send d q)
    with assms(2) show ?thesis
      by (cases "d = c") (auto simp: defs split: put_pc.splits option.splits)
  next
    case (lose d i q)
    with assms(2) show ?thesis
      by (auto simp: defs split: put_pc.splits option.splits)
  next
    case (reply d i r)
    with assms(2) show ?thesis
      by (cases r; cases "d = c") (auto simp: defs split: put_pc.splits option.splits)
  next
    case (fail d i w)
    with assms(2) show ?thesis
      by (cases "d = c") (auto simp: defs split: put_pc.splits option.splits)
  next
    case (outside q kv' r)
    then show ?thesis
      by (intro put_inv_frame [OF _ _ _ _ mono assms(2)]) (auto simp: performed_def in_net_def)
  qed simp
qed

lemma put_reach_inv:
  assumes "put_sys_reach args n s" and "n < 2 ^ 64"
  shows "put_inv args s c"
  using assms
proof (induction rule: rpc_reach.induct)
  case init
  show ?case by (simp add: put_inv_def put_pc_ok_def performed_def in_net_def)
next
  case (step n s t)
  then have "sver s (pa_Key (args c)) < 2 ^ 64 - 1"
    using rpc_reach_sver [OF step.hyps(1), of "pa_Key (args c)"] by simp
  with step show ?case using put_step_inv by simp
qed

section \<open>Properties\<close>

lemma Clerk_Put_loop_fails: "Clerk_Put_loop f (replicate m CallFail @ rs) = Clerk_Put_loop (f \<and> m = 0) rs"
  by (induction m arbitrary: f) (auto simp: Clerk_Put_iter_def)

lemma failed_prefix:
  assumes "CallOk r \<in> set rs"
  obtains m r' rest where "rs = replicate m CallFail @ CallOk r' # rest"
  using assms
proof (induction rs arbitrary: thesis)
  case (Cons x xs)
  show ?case
  proof (cases x)
    case CallFail
    with Cons.prems(2) obtain m r' rest where "xs = replicate m CallFail @ CallOk r' # rest"
      using Cons.IH by auto
    with CallFail show ?thesis using Cons.prems(1) [of "Suc m" r' rest] by simp
  next
    case (CallOk r')
    then show ?thesis using Cons.prems(1) [of 0 r' xs] by simp
  qed
qed simp

text \<open>
  What \<open>Clerk.Put\<close> returns. The loop ends at the first call that gets a reply, and only there;
  it returns the server's error, except that an \<open>ErrVersion\<close> that answers a resend becomes
  \<open>ErrMaybe\<close>. So \<open>ErrVersion\<close> is returned for the first attempt only.
\<close>

lemma Clerk_Put_result:
  "Clerk_Put ress =
     (case dropWhile (\<lambda>r. r = CallFail) ress of
        CallOk reply # rest \<Rightarrow>
          Some (if pr_Err reply = ErrVersion \<and> hd ress = CallFail then ErrMaybe else pr_Err reply)
      | _ \<Rightarrow> None)"
proof (cases "\<exists>r. CallOk r \<in> set ress")
  case True
  then obtain r where "CallOk r \<in> set ress" ..
  then obtain m r' rest where "ress = replicate m CallFail @ CallOk r' # rest"
    by (rule failed_prefix)
  moreover have "dropWhile (\<lambda>r. r = CallFail) (replicate k CallFail @ CallOk r' # rest)
      = CallOk r' # rest" for k
    by (induction k) simp_all
  ultimately show ?thesis
    by (cases m) (simp_all add: Clerk_Put_def Clerk_Put_loop_fails Clerk_Put_iter_def)
next
  case False
  have "x = CallFail" if "x \<in> set ress" for x
    using False that by (cases x) auto
  then obtain n where "ress = replicate n CallFail"
    using replicate_eqI [of ress "length ress" CallFail] by blast
  then show ?thesis
    using Clerk_Put_loop_fails [of True n "[]"] by (simp add: Clerk_Put_def)
qed

text \<open>
  C13: the contract of \<open>Clerk.Put\<close> over the unreliable network, in every reachable state of a run of
  fewer than \<open>2 ^ 64\<close> steps, with any other traffic at the server. The server accepts the requests
  of one call at most once, however often the clerk resends them; when the call has returned \<open>OK\<close>
  the put was performed exactly once; when it has returned \<open>ErrVersion\<close> it was not performed, and
  no request of it is left in the network that could still be.
\<close>

theorem Clerk_Put_contract:
  assumes "put_sys_reach args n s" and "n < 2 ^ 64"
  shows "performed s c \<le> 1 \<and> (loc s c = PRet OK \<longrightarrow> performed s c = 1) \<and>
    (loc s c = PRet ErrVersion \<longrightarrow> performed s c = 0 \<and> in_net s c = {})"
  using put_reach_inv [OF assms, of c] by (auto simp: put_inv_def put_pc_ok_def)

lemma Clerk_Put_contract_witness:
  "\<exists>s. put_sys_reach (\<lambda>c. \<lparr>pa_Key = ''x'', pa_Value = ''1'', pa_Version = 0\<rparr>) 3 s \<and>
     loc s 7 = PRet OK \<and> performed s 7 = 1"
proof -
  let ?a = "\<lparr>pa_Key = ''x'', pa_Value = ''1'', pa_Version = 0\<rparr>"
  have "\<exists>s. put_sys_reach (\<lambda>c. ?a) (Suc (Suc (Suc 0))) s \<and> loc s 7 = PRet OK"
    by (rule exI, rule conjI, rule rpc_reach_call [OF rpc_reach.init _ _ refl refl, where c = 7
          and q = "ReqPut ?a"])
      (simp_all add: KVServer_Put_def MakeKVServer_def Clerk_Put_iter_def)
  then show ?thesis
    using Clerk_Put_contract [of "\<lambda>c. ?a" 3 _ 7] by (auto simp: numeral_3_eq_3)
qed

end
