(* ===== verification/KvLock.thy ===== *)
theory KvLock
  imports KvClerk
begin

text \<open>
  The distributed lock of \<open>kvsrv1/lock/lock.go\<close>: \<open>Acquire\<close> and \<open>Release\<close> as the control states of a
  client of the key/value service, running in the asynchronous system \<open>rpc_step\<close>. The theorem is
  mutual exclusion: the lock's key serialises the holders although requests are resent, lost,
  delayed and executed after their caller has given up.
\<close>

section \<open>Acquire and Release\<close>

text \<open>
  \<open>LIdle\<close>: outside, not holding. \<open>LHeld\<close>: \<open>Acquire\<close> has returned. \<open>AGet\<close>, \<open>APut\<close>: inside \<open>Acquire\<close>,
  in the clerk's \<open>Get\<close> or in its \<open>Put\<close> with the version just read and the clerk's
  \<open>isFirstAttempt\<close>. \<open>RGet\<close>, \<open>RPut\<close>: the same inside \<open>Release\<close>.
\<close>

datatype lock_pc = LIdle | LHeld | AGet | APut Tversion bool | RGet | RPut Tversion bool

text \<open>\<open>Acquire\<close> after its \<open>Get\<close>: go for the lock if it is free or already ours, else loop.\<close>

definition Acquire_got :: "string \<Rightarrow> string \<times> Tversion \<times> Err \<Rightarrow> lock_pc" where
  "Acquire_got clientId got =
     (case got of (currentValue, currentVersion, getErr) \<Rightarrow>
        if currentValue = '''' \<or> currentValue = clientId then APut currentVersion True else AGet)"

definition Acquire_put :: "Err \<Rightarrow> lock_pc" where
  "Acquire_put putErr = (if putErr = OK then LHeld else AGet)"

definition Release_got :: "string \<Rightarrow> string \<times> Tversion \<times> Err \<Rightarrow> lock_pc" where
  "Release_got clientId got =
     (case got of (currentValue, currentVersion, getErr) \<Rightarrow>
        if currentValue = clientId then RPut currentVersion True else LIdle)"

fun lock_request :: "string \<Rightarrow> (nat \<Rightarrow> string) \<Rightarrow> nat \<Rightarrow> lock_pc \<Rightarrow> KvReq option" where
  "lock_request l ids c AGet = Some (ReqGet \<lparr>ga_Key = l\<rparr>)"
| "lock_request l ids c (APut v f) =
     Some (ReqPut \<lparr>pa_Key = l, pa_Value = ids c, pa_Version = v\<rparr>)"
| "lock_request l ids c RGet = Some (ReqGet \<lparr>ga_Key = l\<rparr>)"
| "lock_request l ids c (RPut v f) =
     Some (ReqPut \<lparr>pa_Key = l, pa_Value = '''', pa_Version = v\<rparr>)"
| "lock_request l ids c _ = None"

fun lock_resume :: "(nat \<Rightarrow> string) \<Rightarrow> nat \<Rightarrow> lock_pc \<Rightarrow> KvRep call \<Rightarrow> lock_pc" where
  "lock_resume ids c AGet res =
     (case Clerk_Get_iter (as_get res) of Some got \<Rightarrow> Acquire_got (ids c) got | None \<Rightarrow> AGet)"
| "lock_resume ids c (APut v f) res =
     (case Clerk_Put_iter f (as_put res) of Inl e \<Rightarrow> Acquire_put e | Inr f' \<Rightarrow> APut v f')"
| "lock_resume ids c RGet res =
     (case Clerk_Get_iter (as_get res) of Some got \<Rightarrow> Release_got (ids c) got | None \<Rightarrow> RGet)"
| "lock_resume ids c (RPut v f) res =
     (case Clerk_Put_iter f (as_put res) of Inl e \<Rightarrow> LIdle | Inr f' \<Rightarrow> RPut v f')"
| "lock_resume ids c pc res = pc"

text \<open>A client that is in neither operation may call either, holding the lock or not.\<close>

definition lock_act :: "nat \<Rightarrow> lock_pc \<Rightarrow> lock_pc \<Rightarrow> bool" where
  "lock_act c pc pc' \<longleftrightarrow> pc \<in> {LIdle, LHeld} \<and> pc' \<in> {AGet, RGet}"

abbreviation lock_step where
  "lock_step l ids \<equiv>
     rpc_step (lock_request l ids) (lock_resume ids) lock_act (\<lambda>q. req_key q \<noteq> l)"

abbreviation lock_reach where
  "lock_reach l ids \<equiv>
     rpc_reach (lock_request l ids) (lock_resume ids) lock_act (\<lambda>q. req_key q \<noteq> l) (\<lambda>c. LIdle)"

section \<open>The invariant\<close>

text \<open>
  \<open>val s l\<close> and \<open>sver s l\<close> are the lock key's value and version. A put in the network is live when
  its version is the current one. The first part says which puts can be live: one that takes the
  lock for its client while it is free or that client's, and one that frees it while it is that
  client's. The second part ties the control state of each client to the key.
\<close>

definition val :: "'c rpc_sys \<Rightarrow> string \<Rightarrow> string" where
  "val s l = fst (kv_cur (srv s) l)"

definition req_ok :: "string \<Rightarrow> string \<Rightarrow> 'c rpc_sys \<Rightarrow> KvReq \<Rightarrow> bool" where
  "req_ok l me s q \<longleftrightarrow>
     q = ReqGet \<lparr>ga_Key = l\<rparr> \<or>
     (\<exists>w v. q = ReqPut \<lparr>pa_Key = l, pa_Value = w, pa_Version = v\<rparr> \<and> unat v \<le> sver s l \<and>
        (unat v = sver s l \<longrightarrow> w = me \<and> val s l \<in> {'''', me} \<or> w = '''' \<and> val s l = me))"

definition net_ok :: "string \<Rightarrow> string \<Rightarrow> 'c rpc_sys \<Rightarrow> nat \<Rightarrow> bool" where
  "net_ok l me s c \<longleftrightarrow> (\<forall>i q. (c, i, q) \<in> pool s \<longrightarrow> req_ok l me s q)"

definition no_live :: "string \<Rightarrow> 'c rpc_sys \<Rightarrow> nat \<Rightarrow> bool" where
  "no_live l s c \<longleftrightarrow>
     (\<forall>i a. (c, i, ReqPut a) \<in> pool s \<longrightarrow> unat (pa_Version a) < sver s l)"

definition live_only :: "string \<Rightarrow> string \<Rightarrow> Tversion \<Rightarrow> 'c rpc_sys \<Rightarrow> nat \<Rightarrow> bool" where
  "live_only l w v s c \<longleftrightarrow>
     (\<forall>i a. (c, i, ReqPut a) \<in> pool s \<longrightarrow> unat (pa_Version a) = sver s l \<longrightarrow>
        pa_Version a = v \<and> pa_Value a = w)"

definition got_ok :: "string \<Rightarrow> string \<Rightarrow> 'c rpc_sys \<Rightarrow> KvRep option \<Rightarrow> bool" where
  "got_ok l me s w \<longleftrightarrow>
     (\<forall>r. w = Some r \<longrightarrow>
        (\<exists>g. r = RepGet g \<and> unat (gr_Version g) \<le> sver s l \<and>
           (unat (gr_Version g) = sver s l \<longrightarrow> gr_Value g = val s l) \<and>
           (gr_Value g = me \<longrightarrow> unat (gr_Version g) = sver s l) \<and>
           (gr_Value g \<noteq> me \<longrightarrow> val s l \<noteq> me)))"

definition put_ok :: "string \<Rightarrow> string \<Rightarrow> Tversion \<Rightarrow> 'c rpc_sys \<Rightarrow> KvRep option \<Rightarrow> bool" where
  "put_ok l me v s w \<longleftrightarrow>
     (\<forall>r. w = Some r \<longrightarrow>
        (\<exists>p. r = RepPut p \<and> unat v < sver s l \<and> (pr_Err p = OK \<longrightarrow> val s l = me)))"

definition lock_pc_ok :: "string \<Rightarrow> string \<Rightarrow> lock_pc rpc_sys \<Rightarrow> nat \<Rightarrow> bool" where
  "lock_pc_ok l me s c \<longleftrightarrow>
     (let w = Option.bind (wait s c) snd in
      case loc s c of
        LIdle \<Rightarrow> wait s c = None \<and> val s l \<noteq> me \<and> no_live l s c
      | LHeld \<Rightarrow> wait s c = None \<and> val s l = me \<and> no_live l s c
      | AGet \<Rightarrow> no_live l s c \<and> got_ok l me s w
      | RGet \<Rightarrow> no_live l s c \<and> got_ok l me s w
      | APut v f \<Rightarrow> live_only l me v s c \<and> unat v \<le> sver s l \<and>
          (unat v = sver s l \<longrightarrow> val s l \<in> {'''', me}) \<and> put_ok l me v s w
      | RPut v f \<Rightarrow> live_only l '''' v s c \<and> unat v \<le> sver s l \<and>
          (unat v = sver s l \<longrightarrow> val s l = me) \<and> (unat v < sver s l \<longrightarrow> val s l \<noteq> me) \<and>
          (\<forall>r. w = Some r \<longrightarrow> (\<exists>p. r = RepPut p) \<and> unat v < sver s l))"

definition client_ok :: "string \<Rightarrow> string \<Rightarrow> lock_pc rpc_sys \<Rightarrow> nat \<Rightarrow> bool" where
  "client_ok l me s c \<longleftrightarrow> net_ok l me s c \<and> lock_pc_ok l me s c"

definition lock_inv :: "string \<Rightarrow> (nat \<Rightarrow> string) \<Rightarrow> lock_pc rpc_sys \<Rightarrow> bool" where
  "lock_inv l ids s \<longleftrightarrow> (\<forall>c. client_ok l (ids c) s c)"

lemma no_live_if_passed:
  "net_ok l me s c \<Longrightarrow> live_only l w v s c \<Longrightarrow> unat v < sver s l \<Longrightarrow> no_live l s c"
  by (fastforce simp: net_ok_def req_ok_def live_only_def no_live_def)

text \<open>Steps that leave the key, the client's requests and its control state alone.\<close>

lemma lock_inv_frame:
  assumes "client_ok l me s c"
    and "val t l = val s l" and "sver t l = sver s l"
    and "{(i, q). (c, i, q) \<in> pool t} \<subseteq> {(i, q). (c, i, q) \<in> pool s}"
    and "wait t c = wait s c" and "loc t c = loc s c"
  shows "client_ok l me t c"
  unfolding client_ok_def
proof -
  have inv1: "net_ok l me s c \<and> lock_pc_ok l me s c"
    using assms(1) by (simp add: client_ok_def)
  have sub: "(c, i, q) \<in> pool t \<Longrightarrow> (c, i, q) \<in> pool s" for i q
    using assms(4) by blast
  from inv1 sub have "net_ok l me t c"
    unfolding net_ok_def req_ok_def assms(2,3) by blast
  moreover have "no_live l s c \<Longrightarrow> no_live l t c" and
    "live_only l w v s c \<Longrightarrow> live_only l w v t c" for w v
    using sub unfolding no_live_def live_only_def assms(3) by blast+
  ultimately show "net_ok l me t c \<and> lock_pc_ok l me t c"
    using inv1 unfolding lock_pc_ok_def got_ok_def put_ok_def assms(2,3,5,6) Let_def
    by (auto split: lock_pc.splits)
qed

text \<open>A client that sends the request of its control state.\<close>

lemma lock_inv_send:
  assumes "client_ok l (ids c) s c"
    and "wait s c = None" and "lock_request l ids c (loc s c) = Some q"
    and "t = s\<lparr>pool := insert (c, nextid s, q) (pool s), wait := (wait s)(c \<mapsto> (nextid s, None)),
         nextid := Suc (nextid s)\<rparr>"
  shows "client_ok l (ids c) t c"
  unfolding client_ok_def
proof -
  have inv1: "net_ok l (ids c) s c \<and> lock_pc_ok l (ids c) s c"
    using assms(1) by (simp add: client_ok_def)
  have same: "val t l = val s l" "sver t l = sver s l" "loc t c = loc s c"
      "Option.bind (wait t c) snd = None"
    and net: "(c, i, q') \<in> pool t \<Longrightarrow> q' = q \<or> (c, i, q') \<in> pool s" for i q'
    using assms(4) by (auto simp: val_def sver_def)
  have "req_ok l (ids c) s q"
    using inv1 assms(3) by (cases "loc s c") (auto simp: req_ok_def lock_pc_ok_def)
  then have "net_ok l (ids c) t c"
    using inv1 net by (auto simp: net_ok_def req_ok_def same)
  moreover have "no_live l s c \<Longrightarrow> q = ReqGet g \<Longrightarrow> no_live l t c" for g
    using net by (auto simp: no_live_def same)
  moreover have "live_only l w v s c \<Longrightarrow>
      q = ReqPut \<lparr>pa_Key = l, pa_Value = w, pa_Version = v\<rparr> \<Longrightarrow> live_only l w v t c" for w v
    using net unfolding live_only_def same by fastforce
  ultimately show "net_ok l (ids c) t c \<and> lock_pc_ok l (ids c) t c"
    using inv1 assms(3) by (cases "loc s c") (auto simp: lock_pc_ok_def got_ok_def put_ok_def same)
qed

text \<open>A call returns: the clerk's loop and then the lock's own code run on.\<close>

lemma lock_inv_return:
  assumes "client_ok l (ids c) s c"
    and "wait s c = Some (i, w)" and "res = CallFail \<or> (\<exists>r. w = Some r \<and> res = CallOk r)"
    and "t = s\<lparr>wait := (wait s)(c := None), loc := (loc s)(c := lock_resume ids c (loc s c) res)\<rparr>"
  shows "client_ok l (ids c) t c"
  unfolding client_ok_def
proof -
  have inv1: "net_ok l (ids c) s c \<and> lock_pc_ok l (ids c) s c"
    using assms(1) by (simp add: client_ok_def)
  have same: "val t l = val s l" "sver t l = sver s l" "pool t = pool s"
    and pc: "loc t c = lock_resume ids c (loc s c) res" "wait t c = None"
    using assms(4) by (simp_all add: val_def sver_def)
  have nl: "no_live l s c \<Longrightarrow> no_live l t c" "no_live l s c \<Longrightarrow> live_only l x v t c"
    "live_only l x v s c \<Longrightarrow> live_only l x v t c" for x v
    using same unfolding no_live_def live_only_def by fastforce+
  have passed: "live_only l x v s c \<Longrightarrow> unat v < sver s l \<Longrightarrow> no_live l t c" for x v
    using inv1 no_live_if_passed nl(1) by blast
  have "net_ok l (ids c) t c" using inv1 by (simp add: net_ok_def req_ok_def same)
  moreover have "lock_pc_ok l (ids c) t c"
    using inv1 assms(2,3) nl passed
    by (cases "loc s c"; cases res)
      (auto simp: lock_pc_ok_def got_ok_def put_ok_def same pc Clerk_Get_iter_def Clerk_Put_iter_def
        Acquire_got_def Acquire_put_def Release_got_def split: if_splits)
  ultimately show "net_ok l (ids c) t c \<and> lock_pc_ok l (ids c) t c" ..
qed

text \<open>A put whose version is not the current one is refused, and since no version lies ahead, it is an old one.\<close>

lemma stale_put_reply:
  assumes "KVServer_serve kv (ReqPut a) = (kv', r)" and "req_ok l me s (ReqPut a)" and "srv s = kv"
    and "pa_Version a \<noteq> snd (kv_cur kv l)"
  shows "\<exists>p. r = RepPut p \<and> unat (pa_Version a) < sver s l \<and> pr_Err p \<noteq> OK"
proof -
  have "pa_Key a = l" and "unat (pa_Version a) \<le> sver s l" using assms(2) by (auto simp: req_ok_def)
  moreover have "unat (pa_Version a) \<noteq> sver s l" using assms(3,4) by (simp add: sver_def word_unat_eq_iff)
  ultimately show ?thesis using assms(1,4) by (auto simp: kv_simps)
qed

text \<open>The server executes a client's \<open>Get\<close>, or a put of it that is not live: the key stays.\<close>

lemma lock_inv_exec_quiet:
  assumes inv: "client_ok l (ids c) s c"
    and mine: "wait s c = Some (i, None) \<Longrightarrow> lock_request l ids c (loc s c) = Some q"
    and serve: "KVServer_serve (srv s) q = (srv t, r)" and rq: "req_ok l (ids c) s q"
    and quiet: "\<And>a. q = ReqPut a \<Longrightarrow> pa_Version a \<noteq> snd (kv_cur (srv s) l)"
    and t: "loc t c = loc s c" "pool t \<subseteq> pool s"
      "wait t c = (if wait s c = Some (i, None) then Some (i, Some r) else wait s c)"
  shows "client_ok l (ids c) t c"
  unfolding client_ok_def
proof -
  have cur: "kv_cur (srv t) l = kv_cur (srv s) l"
    using serve_cur [of "srv s" q l] serve quiet by (auto split: KvReq.splits)
  then have same: "val t l = val s l" "sver t l = sver s l"
    by (simp_all add: val_def sver_def)
  define u where "u = s\<lparr>pool := pool t\<rparr>"
  have "client_ok l (ids c) u c"
    by (rule lock_inv_frame [OF inv]) (use t in \<open>auto simp: u_def val_def sver_def\<close>)
  then have u: "net_ok l (ids c) u c \<and> lock_pc_ok l (ids c) u c"
    by (simp add: client_ok_def)
  have nou: "no_live l t c = no_live l u c" "live_only l w v t c = live_only l w v u c"
    "got_ok l me u x = got_ok l me s x" "put_ok l me v u x = put_ok l me v s x"
    "sver u l = sver s l" "val u l = val s l" "loc u = loc s" "wait u = wait s" for w v me x
    by (simp_all add: u_def no_live_def live_only_def got_ok_def put_ok_def sver_def val_def cur)
  have "net_ok l (ids c) t c" using u by (simp add: net_ok_def req_ok_def same nou) (simp add: u_def)
  moreover have "lock_pc_ok l (ids c) t c"
  proof (cases "wait s c = Some (i, None)")
    case False
    with t u show ?thesis
      unfolding lock_pc_ok_def got_ok_def put_ok_def same nou Let_def
      by (auto split: lock_pc.splits)
  next
    case True
    have get: "q = ReqGet \<lparr>ga_Key = l\<rparr> \<Longrightarrow> got_ok l (ids c) t (Some r)"
      using serve by (auto simp: got_ok_def same val_def sver_def Get_reply)
    have put: "\<exists>p. r = RepPut p \<and> unat (pa_Version a) < sver t l \<and> pr_Err p \<noteq> OK" if "q = ReqPut a" for a
      unfolding same using serve rq unfolding that by (rule stale_put_reply) (simp_all add: quiet that)
    from True t u mine show ?thesis
      by (cases "loc s c")
        (auto simp: lock_pc_ok_def nou same put_ok_def dest!: get put)
  qed
  ultimately show "net_ok l (ids c) t c \<and> lock_pc_ok l (ids c) t c" ..
qed

text \<open>
  The server executes a live put of client \<open>d\<close>. The version moves on, so nobody has a live put
  any more, and the new value is \<open>d\<close>'s or empty.
\<close>

lemma lock_inv_exec_live:
  assumes ids: "inj ids" "\<And>c. ids c \<noteq> ''''"
    and inv: "\<And>c. client_ok l (ids c) s c"
    and q: "(d, i, ReqPut \<lparr>pa_Key = l, pa_Value = w, pa_Version = v\<rparr>) \<in> pool s"
      "v = snd (kv_cur (srv s) l)"
    and t: "loc t = loc s" "pool t \<subseteq> pool s" "val t l = w" "sver t l = Suc (sver s l)"
      "wait t c = (if c = d \<and> wait s c = Some (i, None) then Some (i, Some (RepPut \<lparr>pr_Err = OK\<rparr>)) else wait s c)"
  shows "client_ok l (ids c) t c"
  unfolding client_ok_def
proof -
  have inv1: "net_ok l (ids c) s c \<and> lock_pc_ok l (ids c) s c" for c
    using inv [of c] by (simp add: client_ok_def)
  have live: "unat v = sver s l" using q(2) by (simp add: sver_def)
  have old: "req_ok l (ids c) s q" if "(c, i, q) \<in> pool t" for i q
    using inv1 [of c] t(2) that by (auto simp: net_ok_def)
  have nl: "no_live l t c"
    using old unfolding no_live_def t(4) by (fastforce simp: req_ok_def)
  have net: "net_ok l (ids c) t c"
    using old unfolding net_ok_def by (fastforce simp: req_ok_def t(4))
  have lo: "live_only l x u t c" for x u
    using nl unfolding no_live_def live_only_def by fastforce
  have w: "w = ids d \<and> val s l \<in> {'''', ids d} \<or> w = '''' \<and> val s l = ids d"
    using inv1 [of d] q live by (auto simp: net_ok_def req_ok_def)
  have "lock_pc_ok l (ids c) t c"
  proof (cases "c = d")
    case False
    then have "w \<noteq> ids c" and "val s l \<noteq> ids c"
      using w ids(1) ids(2) [of c] ids(2) [of c, symmetric] by (auto simp: inj_eq)
    then show ?thesis
      using inv1 [of c] nl lo False t
      by (cases "loc s c") (auto simp: lock_pc_ok_def got_ok_def put_ok_def)
  next
    case True
    have d: "\<not> no_live l s d" and lo': "live_only l x u s d \<Longrightarrow> u = v \<and> x = w" for x u
      using q live by (fastforce simp: no_live_def live_only_def)+
    show ?thesis
      using inv1 [of d] d lo' nl lo True t ids(2) [of d] live
      by (cases "loc s d") (auto simp: lock_pc_ok_def put_ok_def bind_eq_Some_conv)
  qed
  with net show "net_ok l (ids c) t c \<and> lock_pc_ok l (ids c) t c" ..
qed

text \<open>The server executes any request of any client.\<close>

lemma lock_inv_exec:
  assumes ids: "inj ids" "\<And>c. ids c \<noteq> ''''"
    and iok: "ids_ok (lock_request l ids) s" and small: "sver s l < 2 ^ 64 - 1"
    and inv: "\<And>c. client_ok l (ids c) s c"
    and pool: "(d, i, q) \<in> pool s" and serve: "KVServer_serve (srv s) q = (srv t, r)"
    and t: "loc t = loc s" "pool t = pool s - {(d, i, q)}"
      "wait t = (if wait s d = Some (i, None) then (wait s)(d \<mapsto> (i, Some r)) else wait s)"
  shows "client_ok l (ids c) t c"
proof -
  have rq: "req_ok l (ids d) s q"
    using inv [of d] pool by (auto simp: client_ok_def net_ok_def)
  have mine: "wait s d = Some (i, None) \<Longrightarrow> lock_request l ids d (loc s d) = Some q"
    using iok pool by (auto simp: ids_ok_def)
  show ?thesis
  proof (cases "\<exists>a. q = ReqPut a \<and> pa_Version a = snd (kv_cur (srv s) l)")
    case True
    then obtain w v where q: "q = ReqPut \<lparr>pa_Key = l, pa_Value = w, pa_Version = v\<rparr>"
      and v: "v = snd (kv_cur (srv s) l)"
      using rq by (auto simp: req_ok_def)
    have r: "r = RepPut \<lparr>pr_Err = OK\<rparr>"
      using serve v unfolding q by (auto simp: Put_eq kvs.put_OK_iff)
    have "kv_cur (srv t) l = (w, v + 1)"
      using serve_cur [of "srv s" q l] serve v unfolding q by simp
    then have "val t l = w" and "sver t l = Suc (sver s l)"
      using v small by (simp_all add: val_def sver_def unat_Suc_no_wrap)
    with pool t show ?thesis
      by (intro lock_inv_exec_live [OF ids inv _ v, of d i w]) (auto simp: q r)
  next
    case False
    then have quiet: "\<And>a. q = ReqPut a \<Longrightarrow> pa_Version a \<noteq> snd (kv_cur (srv s) l)" by blast
    then have same: "kv_cur (srv t) l = kv_cur (srv s) l"
      using serve_cur [of "srv s" q l] serve by (auto split: KvReq.splits)
    show ?thesis
    proof (cases "c = d")
      case True
      then show ?thesis
        unfolding True by (intro lock_inv_exec_quiet [OF inv [of d] mine serve rq quiet]) (auto simp: t)
    qed (intro lock_inv_frame [OF inv [of c]], use same in \<open>auto simp: t val_def sver_def\<close>)
  qed
qed

lemma lock_step_inv:
  assumes st: "lock_step l ids s t" and ids: "inj ids" "\<And>c. ids c \<noteq> ''''"
    and iok: "ids_ok (lock_request l ids) s" and small: "sver s l < 2 ^ 64 - 1"
    and "lock_inv l ids s"
  shows "lock_inv l ids t"
  unfolding lock_inv_def
proof
  fix c
  have inv: "client_ok l (ids c) s c" for c
    using assms(6) by (simp add: lock_inv_def)
  note frame = lock_inv_frame [OF inv [of c], of t]
  from st show "client_ok l (ids c) t c"
  proof cases
    case (send d q)
    then show ?thesis
      by (cases "c = d", intro lock_inv_send [where ids = ids, OF inv [of c]])
        (auto intro!: lock_inv_frame [OF inv] simp: val_def sver_def)
  next
    case (exec d i q kv' r)
    then show ?thesis
      by (intro lock_inv_exec [OF ids iok small inv, of d i q]) auto
  next
    case (lose d i q)
    then show ?thesis by (intro frame) (auto simp: val_def sver_def)
  next
    case (reply d i r)
    then show ?thesis
      by (cases "c = d", intro lock_inv_return [where ids = ids, OF inv [of c], of i "Some r"])
        (auto intro!: lock_inv_frame [OF inv] simp: val_def sver_def)
  next
    case (fail d i w)
    then show ?thesis
      by (cases "c = d", intro lock_inv_return [where ids = ids, OF inv [of c], of i w CallFail])
        (auto intro!: lock_inv_frame [OF inv] simp: val_def sver_def)
  next
    case (local d pc')
    then show ?thesis
    proof (cases "c = d")
      case True
      with local inv [of c] show ?thesis
        by (auto simp: lock_act_def client_ok_def lock_pc_ok_def net_ok_def req_ok_def
            no_live_def val_def sver_def got_ok_def)
    qed (intro frame, auto simp: val_def sver_def)
  next
    case (outside q kv' r)
    then have "kv_cur kv' l = kv_cur (srv s) l"
      using serve_cur [of "srv s" q l] by (auto split: KvReq.splits)
    with outside show ?thesis by (intro frame) (auto simp: val_def sver_def)
  qed
qed

lemma lock_reach_inv:
  assumes "lock_reach l ids n s" and "n < 2 ^ 64" and ids: "inj ids" "\<And>c. ids c \<noteq> ''''"
  shows "lock_inv l ids s"
  using assms(1,2)
proof (induction rule: rpc_reach.induct)
  case init
  show ?case
    using ids(2) [symmetric]
    by (simp add: lock_inv_def client_ok_def lock_pc_ok_def net_ok_def no_live_def val_def)
next
  case (step n s t)
  then have "sver s l < 2 ^ 64 - 1"
    using rpc_reach_sver [OF step.hyps(1), of l] by simp
  with step show ?case
    using lock_step_inv [OF step.hyps(2) ids rpc_reach_ids [OF step.hyps(1)]] by simp
qed

text \<open>A run in which client 0 acquires the lock, and one in which it releases it again.\<close>

lemma lock_acquired_run:
  assumes "ids 0 \<noteq> ''''"
  shows "\<exists>s. lock_reach l ids 7 s \<and> loc s 0 = LHeld \<and>
    wait s = Map.empty \<and> data (srv s) l = Some \<lparr>kv_Value = ids 0, kv_Version = 1\<rparr>"
proof -
  have "lock_reach l ids (Suc 0) \<lparr>srv = MakeKVServer, pool = {}, wait = Map.empty,
      loc = (\<lambda>c. LIdle)(0 := AGet), nextid = 0, served = []\<rparr>"
    using rpc_reach_local [OF rpc_reach.init [of "lock_request l ids" "lock_resume ids" lock_act
          "\<lambda>q. req_key q \<noteq> l" "\<lambda>c. LIdle"], of 0 AGet]
    by (simp add: lock_act_def)
  from rpc_reach_call [OF this, where c = 0 and q = "ReqGet \<lparr>ga_Key = l\<rparr>", OF _ _ refl refl]
  obtain g where "lock_reach l ids (Suc (Suc (Suc (Suc 0)))) \<lparr>srv = MakeKVServer, pool = {},
      wait = Map.empty, loc = (\<lambda>c. LIdle)(0 := APut 0 True), nextid = 1, served = g\<rparr>"
    by (auto simp: Clerk_Get_iter_def Acquire_got_def Get_reply)
  from rpc_reach_call [OF this, where c = 0
      and q = "ReqPut \<lparr>pa_Key = l, pa_Value = ids 0, pa_Version = 0\<rparr>", OF _ _ refl refl]
  show ?thesis
    by (auto simp: Clerk_Put_iter_def Acquire_put_def KVServer_Put_def MakeKVServer_def
        eval_nat_numeral intro!: exI)
qed

lemma lock_released_run:
  assumes "ids 0 \<noteq> ''''"
  shows "\<exists>s. lock_reach l ids 14 s \<and> loc s 0 = LIdle \<and>
    data (srv s) l = Some \<lparr>kv_Value = '''', kv_Version = 2\<rparr>"
proof -
  obtain s where s: "lock_reach l ids 7 s" "loc s 0 = LHeld" "wait s = Map.empty"
      "data (srv s) l = Some \<lparr>kv_Value = ids 0, kv_Version = 1\<rparr>"
    using lock_acquired_run [of ids l] assms by blast
  have "lock_reach l ids 8 (s\<lparr>loc := (loc s)(0 := RGet)\<rparr>)"
    using rpc_reach_local [OF s(1), of 0 RGet] s by (simp add: lock_act_def)
  from rpc_reach_call [OF this, where c = 0 and q = "ReqGet \<lparr>ga_Key = l\<rparr>", OF _ _ refl refl] s
  obtain t where t: "lock_reach l ids 11 t" "loc t 0 = RPut 1 True" "wait t = Map.empty" "srv t = srv s"
    by (auto simp: Clerk_Get_iter_def Release_got_def Get_reply KVServer_Get_def kv_cur_def)
  from rpc_reach_call [OF t(1), where c = 0
      and q = "ReqPut \<lparr>pa_Key = l, pa_Value = '''', pa_Version = 1\<rparr>", OF _ _ refl refl] t s
  show ?thesis
    by (auto simp: Clerk_Put_iter_def KVServer_Put_def intro!: exI)
qed


section \<open>Properties\<close>

text \<open>
  C11: mutual exclusion. In every state that a run of fewer than \<open>2 ^ 64\<close> steps can reach, at most
  one client is between the return of its \<open>Acquire\<close> and the call of its \<open>Release\<close>, and while one
  is, the lock's key at the server holds that client's identifier. The clients' identifiers are
  assumed distinct and not empty (\<open>RandValue(8)\<close> draws eight random letters); any number of
  clients call \<open>Acquire\<close> and \<open>Release\<close> in any order, over a network that loses, delays and reorders.
\<close>

theorem lock_mutual_exclusion:
  assumes "lock_reach l ids n s" and "n < 2 ^ 64" and "inj ids" and "\<And>c. ids c \<noteq> ''''"
    and "loc s c = LHeld"
  shows "fst (kv_cur (srv s) l) = ids c \<and> (\<forall>d. loc s d = LHeld \<longrightarrow> d = c)"
proof -
  have held: "val s l = ids d" if "loc s d = LHeld" for d
    using lock_reach_inv [OF assms(1-4)] that
    by (auto simp: lock_inv_def client_ok_def lock_pc_ok_def dest: spec [of _ d])
  from held [OF assms(5)] held show ?thesis
    using assms(3) by (auto simp: val_def inj_eq)
qed

lemma lock_mutual_exclusion_witness:
  "\<exists>s. lock_reach ''l'' (\<lambda>c. replicate (Suc c) CHR ''a'') 7 s \<and> loc s 0 = LHeld \<and>
     (\<forall>d. loc s d = LHeld \<longrightarrow> d = 0)"
proof -
  let ?ids = "\<lambda>c. replicate (Suc c) CHR ''a''"
  obtain s where s: "lock_reach ''l'' ?ids 7 s" "loc s 0 = LHeld"
    using lock_acquired_run [of ?ids "''l''"] by auto
  have "inj ?ids" by (rule injI) (metis Suc_inject length_replicate)
  then have "fst (kv_cur (srv s) ''l'') = ?ids 0 \<and> (\<forall>d. loc s d = LHeld \<longrightarrow> d = 0)"
    by (intro lock_mutual_exclusion [OF s(1)]) (simp_all add: s)
  with s show ?thesis by blast
qed

text \<open>
  C14: \<open>Release\<close> releases. Whenever a client is outside both operations and does not hold the lock,
  in particular when its \<open>Release\<close> has just returned, the key does not hold its identifier, and no
  request of that client that the network may still deliver can put it there.
\<close>

theorem lock_released:
  assumes "lock_reach l ids n s" and "n < 2 ^ 64" and "inj ids" and "\<And>c. ids c \<noteq> ''''"
    and "loc s c = LIdle"
  shows "fst (kv_cur (srv s) l) \<noteq> ids c \<and>
    (\<forall>i a. (c, i, ReqPut a) \<in> pool s \<longrightarrow> fst (KVServer_Put (srv s) a) = srv s)"
proof -
  have ok: "client_ok l (ids c) s c"
    using lock_reach_inv [OF assms(1-4)] by (simp add: lock_inv_def)
  have "fst (KVServer_Put (srv s) a) = srv s" if "(c, i, ReqPut a) \<in> pool s" for i a
  proof -
    from ok that assms(5) have "pa_Key a = l" and "unat (pa_Version a) < sver s l"
      by (fastforce simp: client_ok_def lock_pc_ok_def no_live_def net_ok_def req_ok_def)+
    then have "pa_Version a \<noteq> snd (kv_cur (srv s) (pa_Key a))"
      by (auto simp: sver_def)
    then show ?thesis by (simp add: Put_eq kvs.put_OK_iff kvs.put_fail)
  qed
  with ok assms(5) show ?thesis
    by (simp add: client_ok_def lock_pc_ok_def val_def)
qed

lemma lock_released_witness:
  "\<exists>s. lock_reach ''l'' (\<lambda>c. replicate (Suc c) CHR ''a'') 14 s \<and> loc s 0 = LIdle \<and>
     data (srv s) ''l'' = Some \<lparr>kv_Value = '''', kv_Version = 2\<rparr> \<and>
     fst (kv_cur (srv s) ''l'') \<noteq> ''a''"
proof -
  let ?ids = "\<lambda>c. replicate (Suc c) CHR ''a''"
  obtain s where s: "lock_reach ''l'' ?ids 14 s" "loc s 0 = LIdle"
      "data (srv s) ''l'' = Some \<lparr>kv_Value = '''', kv_Version = 2\<rparr>"
    using lock_released_run [of ?ids "''l''"] by auto
  have "inj ?ids" by (rule injI) (metis Suc_inject length_replicate)
  then have "fst (kv_cur (srv s) ''l'') \<noteq> ?ids 0 \<and>
      (\<forall>i a. (0, i, ReqPut a) \<in> pool s \<longrightarrow> fst (KVServer_Put (srv s) a) = srv s)"
    by (intro lock_released [OF s(1)]) (simp_all add: s)
  with s show ?thesis by auto
qed

end
