(* ===== verification/KvModel.thy ===== *)
theory KvModel
  imports KvServer "HOL-Library.Char_ord" "HOL-Library.List_Lexorder" "HOL-Library.Multiset"
begin

text \<open>
  The sequential specification against which the tests check histories for linearizability,
  \<open>models1/kv.go\<close>: \<open>Init\<close>, \<open>Step\<close> and \<open>Partition\<close> of \<open>KvModel\<close>. The refinement theorem relates
  the handlers of \<open>kvsrv1/server.go\<close> to \<open>Step\<close>, and shows the one reply on which the two disagree.
\<close>

record KvInput =
  in_Op :: "8 word"
  in_Key :: string
  in_Value :: string
  in_Version :: "64 word"

record KvOutput =
  out_Value :: string
  out_Version :: "64 word"
  out_Err :: string

text \<open>\<open>porcupine.Operation\<close>: an operation of a history, with the times of its call and its return.\<close>

record Operation =
  op_Input :: KvInput
  op_Output :: KvOutput
  op_Call :: int
  op_Return :: int
  op_ClientId :: int

record KvState =
  st_Value :: string
  st_Version :: "64 word"

definition KvModel_Init :: KvState where
  "KvModel_Init = \<lparr>st_Value = '''', st_Version = 0\<rparr>"

text \<open>
  \<open>Step\<close> returns whether the output is allowed and the next state. On an unknown operation the
  Go code returns \<open>false\<close> and the string \<open><invalid>\<close> as the state, here \<open>None\<close>.
\<close>

definition KvModel_Step :: "KvState \<Rightarrow> KvInput \<Rightarrow> KvOutput \<Rightarrow> bool \<times> KvState option" where
  "KvModel_Step st inp out =
     (if in_Op inp = 0 then (out_Value out = st_Value st, Some st)
      else if in_Op inp = 1 then
        (if st_Version st = in_Version inp
         then (out_Err out = ''OK'' \<or> out_Err out = ''ErrMaybe'',
               Some \<lparr>st_Value = in_Value inp, st_Version = st_Version st + 1\<rparr>)
         else (out_Err out = ''ErrVersion'' \<or> out_Err out = ''ErrMaybe'', Some st))
      else (False, None))"

text \<open>
  \<open>Partition\<close> collects the operations of each key, in the order of the history, into a Go map
  and returns the parts in the order of the sorted keys. An operation is an input with an output;
  the call and return times that \<open>porcupine.Operation\<close> also carries are not looked at.
\<close>

type_synonym kv_operation = "KvInput \<times> KvOutput"

definition op_key :: "kv_operation \<Rightarrow> string" where
  "op_key v = in_Key (fst v)"

definition part_add :: "(string, kv_operation list) gomap \<Rightarrow> kv_operation \<Rightarrow> (string, kv_operation list) gomap" where
  "part_add m v =
     AList.update (op_key v) ((case map_of m (op_key v) of Some vs \<Rightarrow> vs | None \<Rightarrow> []) @ [v]) m"

definition KvModel_Partition :: "kv_operation list \<Rightarrow> kv_operation list list" where
  "KvModel_Partition history =
     (let m = foldl part_add [] history;
          keys = sort (map fst m)
      in map (\<lambda>k. the (map_of m k)) keys)"

section \<open>Partition splits a history by key\<close>

lemma part_add_get:
  "map_of (part_add m v) k =
     (if k = op_key v then Some ((case map_of m k of Some vs \<Rightarrow> vs | None \<Rightarrow> []) @ [v])
      else map_of m k)"
  by (simp add: part_add_def gm.get_put)

lemma part_add_wf: "gm_wf m \<Longrightarrow> gm_wf (part_add m v)"
  by (simp add: part_add_def gm.wf_put)

lemma parts_wf: "gm_wf m \<Longrightarrow> gm_wf (foldl part_add m vs)"
  by (induction vs arbitrary: m) (simp_all add: part_add_wf)

lemma parts_get:
  "map_of (foldl part_add [] h) k =
     (if \<exists>v \<in> set h. op_key v = k then Some (filter (\<lambda>v. op_key v = k) h) else None)"
proof (induction h rule: rev_induct)
  case (snoc v h)
  have "filter (\<lambda>v. op_key v = k) h = []" if "\<forall>v\<in>set h. op_key v \<noteq> k"
    using that by (simp add: filter_empty_conv)
  with snoc show ?case by (auto simp: part_add_get)
qed simp

lemma parts_keys: "set (map fst (foldl part_add [] h)) = op_key ` set h"
proof -
  have "k \<in> set (map fst (foldl part_add [] h)) \<longleftrightarrow> k \<in> op_key ` set h" for k
    using parts_get [of h k] map_of_eq_None_iff [of "foldl part_add [] h" k]
    by (auto split: if_splits)
  then show ?thesis by blast
qed

lemma Partition_eq:
  "KvModel_Partition h =
     map (\<lambda>k. filter (\<lambda>v. op_key v = k) h) (sorted_list_of_set (op_key ` set h))"
proof -
  let ?m = "foldl part_add [] h"
  have "distinct (map fst ?m)"
    using parts_wf [of "[]" h] by (simp add: gm_wf_def)
  then have "sort (map fst ?m) = sorted_list_of_set (op_key ` set h)"
    unfolding parts_keys [symmetric] by (simp only: sorted_list_of_set_sort_remdups distinct_remdups_id)
  moreover have "the (map_of ?m k) = filter (\<lambda>v. op_key v = k) h" if "k \<in> op_key ` set h" for k
    using that by (auto simp: parts_get)
  ultimately show ?thesis
    by (simp add: KvModel_Partition_def Let_def)
qed

lemma mset_concat_filter:
  assumes "distinct ks" and "f ` set h \<subseteq> set ks"
  shows "mset (concat (map (\<lambda>k. filter (\<lambda>v. f v = k) h) ks)) = mset h"
  using assms
proof (induction ks arbitrary: h)
  case (Cons k ks)
  have "filter (\<lambda>v. f v = k') h = filter (\<lambda>v. f v = k') (filter (\<lambda>v. f v \<noteq> k) h)"
    if "k' \<in> set ks" for k'
    using that Cons.prems(1) by (auto simp: filter_filter intro: filter_cong)
  then have eq: "map (\<lambda>k. filter (\<lambda>v. f v = k) h) ks =
      map (\<lambda>k'. filter (\<lambda>v. f v = k') (filter (\<lambda>v. f v \<noteq> k) h)) ks"
    by (rule map_cong [OF refl])
  have "mset (concat (map (\<lambda>k'. filter (\<lambda>v. f v = k') (filter (\<lambda>v. f v \<noteq> k) h)) ks))
      = mset (filter (\<lambda>v. f v \<noteq> k) h)"
    using Cons.prems by (intro Cons.IH) auto
  then show ?case
    by (simp add: eq)
qed simp

section \<open>Properties\<close>

text \<open>
  The abstraction of a server to the state of one key, and the operation a request and its reply
  are logged as by \<open>kvtest1/porcupine.go\<close>.
\<close>

definition abs_key :: "KVServer \<Rightarrow> string \<Rightarrow> KvState" where
  "abs_key kv k = \<lparr>st_Value = fst (kv_cur kv k), st_Version = snd (kv_cur kv k)\<rparr>"

fun log_input :: "KvReq \<Rightarrow> KvInput" where
  "log_input (ReqGet a) = \<lparr>in_Op = 0, in_Key = ga_Key a, in_Value = '''', in_Version = 0\<rparr>"
| "log_input (ReqPut a) =
     \<lparr>in_Op = 1, in_Key = pa_Key a, in_Value = pa_Value a, in_Version = pa_Version a\<rparr>"

fun log_output :: "KvRep \<Rightarrow> KvOutput" where
  "log_output (RepGet r) =
     \<lparr>out_Value = gr_Value r, out_Version = gr_Version r, out_Err = err_string (gr_Err r)\<rparr>"
| "log_output (RepPut r) = \<lparr>out_Value = '''', out_Version = 0, out_Err = err_string (pr_Err r)\<rparr>"

text \<open>
  C36: the server refines the specification. Serving a request changes the state of its key
  exactly as \<open>Step\<close> does, leaves the state of every other key alone, and \<open>Step\<close> allows the reply
  unless it is \<open>ErrNoKey\<close> for a \<open>Put\<close>: the server answers \<open>ErrNoKey\<close> to a put of a missing key
  with a version other than 0, where the specification wants \<open>ErrVersion\<close> or \<open>ErrMaybe\<close>.
\<close>

theorem server_refines_KvModel:
  "KvModel_Step (abs_key kv (req_key q)) (log_input q) (log_output (snd (KVServer_serve kv q))) =
     (snd (KVServer_serve kv q) \<noteq> RepPut \<lparr>pr_Err = ErrNoKey\<rparr>,
      Some (abs_key (fst (KVServer_serve kv q)) (req_key q))) \<and>
   (k \<noteq> req_key q \<longrightarrow> abs_key (fst (KVServer_serve kv q)) k = abs_key kv k)"
proof (cases q)
  case (ReqGet a)
  then show ?thesis
    by (simp add: kv_simps Get_reply KvModel_Step_def abs_key_def)
next
  case (ReqPut a)
  obtain e where e: "snd (KVServer_Put kv a) = \<lparr>pr_Err = e\<rparr>"
    by (cases "snd (KVServer_Put kv a)")
  with Put_err [of kv a] ReqPut show ?thesis
    by (auto simp: kv_simps KvModel_Step_def abs_key_def)
qed

lemma server_refines_KvModel_witness:
  "KvModel_Step (abs_key MakeKVServer ''x'')
     (log_input (ReqPut \<lparr>pa_Key = ''x'', pa_Value = ''1'', pa_Version = 5\<rparr>))
     (log_output (RepPut \<lparr>pr_Err = ErrNoKey\<rparr>)) = (False, Some KvModel_Init)"
proof -
  let ?q = "ReqPut \<lparr>pa_Key = ''x'', pa_Value = ''1'', pa_Version = 5\<rparr>"
  have "KVServer_serve MakeKVServer ?q = (MakeKVServer, RepPut \<lparr>pr_Err = ErrNoKey\<rparr>)"
    by (simp add: KVServer_Put_def MakeKVServer_def)
  with server_refines_KvModel [of MakeKVServer ?q "''y''"] show ?thesis
    by (simp add: abs_key_def KvModel_Init_def)
qed

text \<open>
  \<open>Partition\<close> loses, adds and reorders nothing: its parts together are a permutation of the
  history, each part is the subsequence of the history that concerns one key, in the order of the
  history, and no two parts concern the same key.
\<close>

lemma Partition_by_key:
  "mset (concat (KvModel_Partition h)) = mset h \<and>
   (\<exists>ks. distinct ks \<and> sorted ks \<and> set ks = op_key ` set h \<and>
      KvModel_Partition h = map (\<lambda>k. filter (\<lambda>v. op_key v = k) h) ks)"
proof -
  let ?ks = "sorted_list_of_set (op_key ` set h)"
  have ks: "distinct ?ks \<and> sorted ?ks \<and> set ?ks = op_key ` set h"
    by simp
  then have "mset (concat (KvModel_Partition h)) = mset h"
    by (simp add: Partition_eq mset_concat_filter)
  with ks show ?thesis
    using Partition_eq [of h] by blast
qed

end
