(* ===== verification/KvLin.thy ===== *)
theory KvLin
  imports KvClerk KvModel
begin

text \<open>
  The key/value service is linearizable. Clients call \<open>Get\<close> and \<open>Put\<close> of the clerk of \<open>kvsrv1/client.go\<close> one after
  the other, over the network of \<open>KvClerk\<close>, which loses, delays and reorders requests; the completed
  operations form a history of \<open>porcupine.Operation\<close>s, and the history is linearizable for the model of
  \<open>models1/kv.go\<close> as long as clients put at versions that the key has reached. (An attempt with a version of
  the future could be executed after its call has returned.) \<open>KvHistory\<close> has the runs and the theorem; here
  are linearizability itself and how points in the server's log give a linearization.
\<close>

section \<open>Linearizable histories\<close>

fun model_accepts :: "KvState \<Rightarrow> Operation list \<Rightarrow> bool" where
  "model_accepts st [] = True"
| "model_accepts st (oper # ops) =
     (case KvModel_Step st (op_Input oper) (op_Output oper) of
        (ok, Some st') \<Rightarrow> ok \<and> model_accepts st' ops
      | (ok, None) \<Rightarrow> False)"

definition for_key :: "string \<Rightarrow> Operation list \<Rightarrow> Operation list" where
  "for_key k ops = filter (\<lambda>oper. in_Key (op_Input oper) = k) ops"

text \<open>
  Some order of the operations respects real time (an operation that returned before another was called
  comes first) and is accepted by the model on every key.
\<close>

definition linearizable :: "Operation list \<Rightarrow> bool" where
  "linearizable h \<longleftrightarrow> (\<exists>ls. mset ls = mset h \<and>
     (\<forall>i j. i < j \<and> j < length ls \<longrightarrow> \<not> op_Return (ls ! j) \<le> op_Call (ls ! i)) \<and>
     (\<forall>k. model_accepts KvModel_Init (for_key k ls)))"

section \<open>The log of a server\<close>

type_synonym log_entry = "nat option \<times> KvReq \<times> KvRep"

fun takes_effect :: "log_entry \<Rightarrow> bool" where
  "takes_effect (c, ReqPut a, r) = rep_OK r"
| "takes_effect (c, ReqGet a, r) = False"

fun entry_effect :: "(string \<Rightarrow> string \<times> Tversion) \<Rightarrow> log_entry \<Rightarrow> string \<Rightarrow> string \<times> Tversion" where
  "entry_effect cur (c, ReqPut a, r) = (if rep_OK r then cur(pa_Key a := (pa_Value a, pa_Version a + 1)) else cur)"
| "entry_effect cur (c, ReqGet a, r) = cur"

definition cur_of :: "log_entry list \<Rightarrow> string \<Rightarrow> string \<times> Tversion" where
  "cur_of L = foldl entry_effect (\<lambda>k. ('''', 0)) L"

fun entry_ok :: "(string \<Rightarrow> string \<times> Tversion) \<Rightarrow> log_entry \<Rightarrow> bool" where
  "entry_ok cur (c, ReqGet a, r) = (\<exists>g. r = RepGet g \<and> gr_Value g = fst (cur (ga_Key a)))"
| "entry_ok cur (c, ReqPut a, r) = (\<exists>p. r = RepPut p \<and> (pr_Err p = OK \<longleftrightarrow> pa_Version a = snd (cur (pa_Key a))))"

definition log_ok :: "log_entry list \<Rightarrow> bool" where
  "log_ok L \<longleftrightarrow> (\<forall>p < length L. entry_ok (cur_of (take p L)) (L ! p))"

lemma log_ok_snoc: "log_ok (L @ [e]) \<longleftrightarrow> log_ok L \<and> entry_ok (cur_of L) e"
  by (auto simp: log_ok_def nth_append less_Suc_eq)

lemma cur_of_snoc [simp]: "cur_of [] = (\<lambda>k. ('''', 0))" "cur_of (L @ [e]) = entry_effect (cur_of L) e"
  by (simp_all add: cur_of_def)

lemma entry_effect_other:
  "\<not> takes_effect e \<or> req_key (fst (snd e)) \<noteq> k \<Longrightarrow> entry_effect cur e k = cur k"
  by (induction cur e rule: entry_effect.induct) auto

lemma cur_of_Suc: "p < length L \<Longrightarrow> cur_of (take (Suc p) L) = entry_effect (cur_of (take p L)) (L ! p)"
  by (simp add: take_Suc_conv_app_nth)

lemma cur_of_quiet:
  assumes "x \<le> y" and "y \<le> length L"
    and "\<And>p. x \<le> p \<Longrightarrow> p < y \<Longrightarrow> \<not> takes_effect (L ! p) \<or> req_key (fst (snd (L ! p))) \<noteq> k"
  shows "cur_of (take y L) k = cur_of (take x L) k"
  using assms
proof (induction "y - x" arbitrary: y)
  case (Suc n)
  then obtain y' where y: "y = Suc y'" "x \<le> y'" by (cases y) auto
  then have "cur_of (take y' L) k = cur_of (take x L) k" using Suc by (intro Suc(1)) auto
  moreover have "cur_of (take y L) k = cur_of (take y' L) k"
    using y Suc.prems by (simp add: cur_of_Suc entry_effect_other)
  ultimately show ?case by simp
qed simp

section \<open>From points in the log to a linearization\<close>

text \<open>An output that the model allows for the reply that the server gave.\<close>

fun out_fits :: "KvReq \<Rightarrow> KvRep \<Rightarrow> KvOutput \<Rightarrow> bool" where
  "out_fits (ReqGet a) r out = (\<exists>g. r = RepGet g \<and> out_Value out = gr_Value g)"
| "out_fits (ReqPut a) r out =
     (if rep_OK r then out_Err out \<in> {''OK'', ''ErrMaybe''} else out_Err out \<in> {''ErrVersion'', ''ErrMaybe''})"

definition model_state :: "log_entry list \<Rightarrow> string \<Rightarrow> KvState" where
  "model_state L k = \<lparr>st_Value = fst (cur_of L k), st_Version = snd (cur_of L k)\<rparr>"

lemma log_input_key [simp]: "in_Key (log_input q) = req_key q"
  by (cases q) simp_all

lemma Step_fits:
  assumes "log_ok L" and "p < length L" and "L ! p = (c, q, r)" and "out_fits q r out" and "req_key q = k"
  shows "KvModel_Step (model_state (take p L) k) (log_input q) out = (True, Some (model_state (take (Suc p) L) k))"
proof -
  have "entry_ok (cur_of (take p L)) (c, q, r)" using assms(1-3) by (auto simp: log_ok_def)
  with assms show ?thesis
    by (cases q) (auto simp: KvModel_Step_def model_state_def cur_of_Suc split: if_splits)
qed

text \<open>The points of a key, in order, lead the model through the states of the log.\<close>

lemma points_accepted:
  assumes "log_ok L" and "x \<le> length L" and "sorted_wrt (<) (map P js)"
    and "\<And>j. j \<in> set js \<Longrightarrow> x \<le> P j \<and> P j < length L \<and>
      (\<exists>c q r. L ! P j = (c, q, r) \<and> op_Input (h j) = log_input q \<and> req_key q = k \<and> out_fits q r (op_Output (h j)))"
    and "\<And>p. x \<le> p \<Longrightarrow> p < length L \<Longrightarrow> takes_effect (L ! p) \<Longrightarrow> req_key (fst (snd (L ! p))) = k \<Longrightarrow> p \<in> P ` set js"
  shows "model_accepts (model_state (take x L) k) (map h js)"
  using assms(2-)
proof (induction js arbitrary: x)
  case (Cons j js)
  obtain c q r where j: "x \<le> P j" "P j < length L" "L ! P j = (c, q, r)" "op_Input (h j) = log_input q"
    "req_key q = k" "out_fits q r (op_Output (h j))"
    using Cons.prems(3) [of j] by auto
  have later: "P j < P i" if "i \<in> set js" for i using that Cons.prems(2) by auto
  have "cur_of (take (P j) L) k = cur_of (take x L) k"
    using j(1,2) Cons.prems(4) later by (intro cur_of_quiet) force+
  then have st: "model_state (take x L) k = model_state (take (P j) L) k" by (simp add: model_state_def)
  have "model_accepts (model_state (take (Suc (P j)) L) k) (map h js)"
  proof (rule Cons.IH)
    show "p \<in> P ` set js"
      if "Suc (P j) \<le> p" "p < length L" "takes_effect (L ! p)" "req_key (fst (snd (L ! p))) = k" for p
      using Cons.prems(4) [of p] that j(1) by auto
  qed (use j Cons.prems(2,3) later in \<open>auto simp: Suc_le_eq\<close>)
  then show ?case using Step_fits [OF assms(1) j(2,3,6,5)] j(4) by (simp add: st)
qed simp

lemma sorted_points:
  assumes "inj_on P (set js)" and "distinct js"
  shows "sorted_wrt (<) (map P (sort_key P js))"
proof -
  have "sorted (map P (sort_key P js))" "distinct (map P (sort_key P js))"
    using assms by (simp_all add: distinct_map)
  then show ?thesis by (simp add: strict_sorted_iff)
qed

definition is_point :: "log_entry list \<Rightarrow> Operation \<Rightarrow> nat \<Rightarrow> bool" where
  "is_point L oper p \<longleftrightarrow> p < length L \<and> op_Call oper \<le> int p \<and> int p < op_Return oper \<and>
     (\<exists>c q r. L ! p = (Some c, q, r) \<and> op_ClientId oper = int c \<and> op_Input oper = log_input q \<and> out_fits q r (op_Output oper))"

text \<open>
  A history is linearizable if every operation has a point in the log during its call, different
  operations different points, and every put that took effect is the point of an operation.
\<close>

lemma points_linearize:
  assumes "log_ok L" and "inj_on P {..<length h}" and pts: "\<And>j. j < length h \<Longrightarrow> is_point L (h ! j) (P j)"
    and eff: "\<And>p. p < length L \<Longrightarrow> takes_effect (L ! p) \<Longrightarrow> p \<in> P ` {..<length h}"
  shows "linearizable h"
proof -
  let ?js = "sort_key P [0..<length h]" and ?h = "\<lambda>j. h ! j"
  have set_js: "set ?js = {..<length h}" by auto
  have sorted: "sorted_wrt (<) (map P ?js)" using assms(2) by (intro sorted_points) (auto simp: atLeast0LessThan)
  have "mset (map ?h ?js) = mset (map ?h [0..<length h])" by simp
  also have "map ?h [0..<length h] = h" by (rule map_nth)
  finally have "mset (map ?h ?js) = mset h" .
  moreover have "\<not> op_Return (map ?h ?js ! b) \<le> op_Call (map ?h ?js ! a)" if "a < b" "b < length (map ?h ?js)" for a b
  proof -
    have "P (?js ! a) < P (?js ! b)" using that sorted_wrt_nth_less [OF sorted, of a b] by simp
    moreover have "?js ! a < length h" "?js ! b < length h" using that set_js nth_mem [of a ?js] nth_mem [of b ?js] by auto
    ultimately show ?thesis using that pts [of "?js ! a"] pts [of "?js ! b"] by (auto simp: is_point_def)
  qed
  moreover have "model_accepts KvModel_Init (for_key k (map ?h ?js))" for k
  proof -
    let ?ks = "filter (\<lambda>j. in_Key (op_Input (h ! j)) = k) ?js"
    have "for_key k (map ?h ?js) = map ?h ?ks" by (simp add: for_key_def filter_map o_def)
    moreover have "model_accepts (model_state (take 0 L) k) (map ?h ?ks)"
    proof (rule points_accepted [OF assms(1), of 0 P ?ks])
      show "sorted_wrt (<) (map P ?ks)" using sorted by (simp add: sorted_wrt_map sorted_wrt_filter)
      show "0 \<le> P j \<and> P j < length L \<and> (\<exists>c q r. L ! P j = (c, q, r) \<and> op_Input (h ! j) = log_input q \<and>
          req_key q = k \<and> out_fits q r (op_Output (h ! j)))" if "j \<in> set ?ks" for j
        using that pts [of j] set_js by (auto simp: is_point_def)
      show "p \<in> P ` set ?ks" if p: "p < length L" "takes_effect (L ! p)" "req_key (fst (snd (L ! p))) = k" for p
      proof -
        obtain j where "j < length h" "p = P j" using eff [OF p(1,2)] by auto
        moreover have "in_Key (op_Input (h ! j)) = k" using p(3) pts [OF \<open>j < length h\<close>] \<open>p = P j\<close> by (auto simp: is_point_def)
        ultimately show ?thesis using set_js by (intro image_eqI [of p P j]) auto
      qed
    qed simp
    ultimately show ?thesis by (simp add: model_state_def KvModel_Init_def)
  qed
  ultimately show ?thesis unfolding linearizable_def by blast
qed

end
