(* ===== verification/KvHistory.thy ===== *)
theory KvHistory
  imports KvLin
begin

text \<open>
  Clients that call the clerk, and the history of their operations. A client is idle, busy with a call of
  \<open>Clerk.Get\<close> or \<open>Clerk.Put\<close> (which resends until it gets a reply), or has a result that it is about to return. Time
  is counted in requests executed by the server; an operation is recorded with the times of its call and
  its return. All clients together make the history that \<open>kvtest1/porcupine.go\<close> hands to the checker.
\<close>

section \<open>Clients\<close>

datatype clerk_pc = Idle | Busy KvReq bool nat | Returned KvReq KvOutput nat

fun clerk_request :: "nat \<Rightarrow> clerk_pc \<Rightarrow> KvReq option" where
  "clerk_request c (Busy q f t) = Some q"
| "clerk_request c pc = None"

fun clerk_resume :: "nat \<Rightarrow> clerk_pc \<Rightarrow> KvRep call \<Rightarrow> clerk_pc" where
  "clerk_resume c (Busy (ReqGet a) f t) res =
     (case Clerk_Get_iter (as_get res) of
        Some (v, ver, e) \<Rightarrow> Returned (ReqGet a) \<lparr>out_Value = v, out_Version = ver, out_Err = err_string e\<rparr> t
      | None \<Rightarrow> Busy (ReqGet a) False t)"
| "clerk_resume c (Busy (ReqPut a) f t) res =
     (case Clerk_Put_iter f (as_put res) of
        Inl e \<Rightarrow> Returned (ReqPut a) \<lparr>out_Value = [], out_Version = 0, out_Err = err_string e\<rparr> t
      | Inr f' \<Rightarrow> Busy (ReqPut a) f' t)"
| "clerk_resume c pc res = pc"

definition operation :: "nat \<Rightarrow> KvReq \<Rightarrow> KvOutput \<Rightarrow> nat \<Rightarrow> nat \<Rightarrow> Operation" where
  "operation c q out t t' = \<lparr>op_Input = log_input q, op_Output = out, op_Call = int t, op_Return = int t', op_ClientId = int c\<rparr>"

lemma operation_sel [simp]:
  "op_Input (operation c q out t t') = log_input q" "op_Output (operation c q out t t') = out"
  "op_Call (operation c q out t t') = int t" "op_Return (operation c q out t t') = int t'"
  "op_ClientId (operation c q out t t') = int c"
  by (simp_all add: operation_def)

text \<open>The clients of a test put at a version that the key has or has had.\<close>

fun seen :: "clerk_pc rpc_sys \<Rightarrow> KvReq \<Rightarrow> bool" where
  "seen s (ReqGet a) = True"
| "seen s (ReqPut a) = (unat (pa_Version a) \<le> sver s (pa_Key a))"

abbreviation clerk_step :: "clerk_pc rpc_sys \<Rightarrow> clerk_pc rpc_sys \<Rightarrow> bool" where
  "clerk_step \<equiv> rpc_step clerk_request clerk_resume (\<lambda>c l l'. False) (\<lambda>q. False)"

text \<open>\<open>ok\<close> restricts the requests that clients make, given the state.\<close>

inductive hist_reach ::
  "(clerk_pc rpc_sys \<Rightarrow> KvReq \<Rightarrow> bool) \<Rightarrow> nat \<Rightarrow> clerk_pc rpc_sys \<Rightarrow> Operation list \<Rightarrow> bool" for ok where
  start: "hist_reach ok 0 \<lparr>srv = MakeKVServer, pool = {}, wait = Map.empty, loc = (\<lambda>c. Idle), nextid = 0, served = []\<rparr> []"
| net: "hist_reach ok n s h \<Longrightarrow> clerk_step s t \<Longrightarrow> hist_reach ok (Suc n) t h"
| call: "hist_reach ok n s h \<Longrightarrow> loc s c = Idle \<Longrightarrow> wait s c = None \<Longrightarrow> ok s q \<Longrightarrow>
    hist_reach ok (Suc n) (s\<lparr>loc := (loc s)(c := Busy q True (length (served s)))\<rparr>) h"
| return: "hist_reach ok n s h \<Longrightarrow> loc s c = Returned q out t \<Longrightarrow> wait s c = None \<Longrightarrow>
    hist_reach ok (Suc n) (s\<lparr>loc := (loc s)(c := Idle)\<rparr>) (h @ [operation c q out t (length (served s))])"

section \<open>The log of the run\<close>

abbreviation log_of :: "'c rpc_sys \<Rightarrow> log_entry list" where
  "log_of s \<equiv> rev (served s)"

definition log_inv :: "clerk_pc rpc_sys \<Rightarrow> bool" where
  "log_inv s \<longleftrightarrow> log_ok (log_of s) \<and> (\<forall>k. kv_cur (srv s) k = cur_of (log_of s) k) \<and> (\<forall>e\<in>set (served s). fst e \<noteq> None)"

lemma log_inv_exec:
  assumes "log_inv s" and "KVServer_serve (srv s) q = (kv, r)"
  shows "log_ok (log_of s @ [(Some c, q, r)])" and "kv_cur kv k = entry_effect (cur_of (log_of s)) (Some c, q, r) k"
proof -
  have cur: "cur_of (log_of s) = kv_cur (srv s)" and "log_ok (log_of s)" using assms(1) by (auto simp: log_inv_def)
  moreover have "entry_ok (kv_cur (srv s)) (Some c, q, r)"
    using assms(2) by (cases q) (auto simp: Get_reply Put_OK_iff)
  ultimately show "log_ok (log_of s @ [(Some c, q, r)])" by (simp add: log_ok_snoc)
  show "kv_cur kv k = entry_effect (cur_of (log_of s)) (Some c, q, r) k"
    using assms(2) unfolding cur by (cases q) (auto simp: Put_cur Put_OK_iff)
qed

lemma clerk_step_log: "clerk_step s t \<Longrightarrow> log_inv s \<Longrightarrow> log_inv t"
proof (induction rule: rpc_step.induct)
  case (exec c i q s kv' r)
  with log_inv_exec [OF exec.prems exec.hyps(2)] show ?case by (simp add: log_inv_def)
qed (simp_all add: log_inv_def)

text \<open>Versions along a log that is shorter than \<open>2 ^ 64\<close>.\<close>

lemma cur_of_version:
  assumes "log_ok L" and "length L < 2 ^ 64"
  shows "unat (snd (cur_of L k)) \<le> length L"
  using assms
proof (induction L rule: rev_induct)
  case (snoc e L)
  then have IH: "unat (snd (cur_of L k)) \<le> length L" "entry_ok (cur_of L) e" by (simp_all add: log_ok_snoc)
  obtain c q r where "e = (c, q, r)" by (cases e)
  with IH snoc.prems(2) show ?case by (cases q) (auto simp: unat_Suc_no_wrap)
qed simp

lemma cur_of_mono:
  assumes "log_ok (L @ L')" and "length (L @ L') < 2 ^ 64"
  shows "unat (snd (cur_of L k)) \<le> unat (snd (cur_of (L @ L') k))"
  using assms
proof (induction L' rule: rev_induct)
  case (snoc e L')
  have L: "log_ok (L @ L')" "entry_ok (cur_of (L @ L')) e" using snoc.prems(1) by (simp_all add: log_ok_snoc flip: append_assoc)
  have "unat (snd (cur_of (L @ L') k)) < 2 ^ 64 - 1" using cur_of_version [OF L(1), of k] snoc.prems(2) by simp
  moreover obtain c q r where "e = (c, q, r)" by (cases e)
  ultimately have "unat (snd (cur_of (L @ L') k)) \<le> unat (snd (entry_effect (cur_of (L @ L')) e k))"
    using L(2) by (cases q) (auto simp: unat_Suc_no_wrap)
  with snoc L(1) show ?case by (simp flip: append_assoc)
qed simp

text \<open>A put takes effect at most once: after it, the version is past it.\<close>

lemma effect_once:
  assumes "log_ok L" and "length L < 2 ^ 64" and "p < p'" and "p' < length L"
    and "L ! p = (c, ReqPut a, r)" and "L ! p' = (c', ReqPut a, r')" and "takes_effect (L ! p)"
  shows "\<not> takes_effect (L ! p')"
proof
  let ?k = "pa_Key a"
  assume "takes_effect (L ! p')"
  have ok: "entry_ok (cur_of (take x L)) (L ! x)" if "x < length L" for x using assms(1) that by (simp add: log_ok_def)
  have v: "pa_Version a = snd (cur_of (take p L) ?k)" "pa_Version a = snd (cur_of (take p' L) ?k)"
    using ok [of p] ok [of p'] assms(3-7) \<open>takes_effect (L ! p')\<close> by auto
  have logs: "log_ok (take x L)" for x using assms(1) by (simp add: log_ok_def min_def)
  have "take p' L = take (Suc p) L @ drop (Suc p) (take p' L)"
    using assms(3,4) by (metis Suc_leI append_take_drop_id min.absorb1 take_take)
  then have "unat (snd (cur_of (take (Suc p) L) ?k)) \<le> unat (snd (cur_of (take p' L) ?k))"
    using cur_of_mono [of "take (Suc p) L" "drop (Suc p) (take p' L)" ?k] logs [of p'] assms(2,4) by simp
  moreover have "unat (snd (cur_of (take p L) ?k)) \<le> p"
    using cur_of_version [OF logs, of p ?k] assms(2-4) by simp
  moreover have "snd (cur_of (take (Suc p) L) ?k) = pa_Version a + 1"
    using assms(3-7) by (simp add: cur_of_Suc)
  ultimately show False using v assms(2-4) by (simp add: unat_Suc_no_wrap)
qed

section \<open>Where the calls take effect\<close>

definition effects :: "nat \<Rightarrow> nat \<Rightarrow> log_entry list \<Rightarrow> nat set" where
  "effects c t L = {p. t \<le> p \<and> p < length L \<and> takes_effect (L ! p) \<and> fst (L ! p) = Some c}"

fun harmless :: "clerk_pc rpc_sys \<Rightarrow> KvReq \<Rightarrow> bool" where
  "harmless s (ReqGet a) = True"
| "harmless s (ReqPut a) = (unat (pa_Version a) < sver s (pa_Key a))"

text \<open>A call of client \<open>c\<close> from \<open>t\<close> to \<open>t'\<close> has a point in the log, which is its only effect.\<close>

definition call_done :: "log_entry list \<Rightarrow> nat \<Rightarrow> KvReq \<Rightarrow> KvOutput \<Rightarrow> nat \<Rightarrow> nat \<Rightarrow> bool" where
  "call_done L c q out t t' \<longleftrightarrow> (\<exists>p r. t \<le> p \<and> p < t' \<and> p < length L \<and> L ! p = (Some c, q, r) \<and> out_fits q r out \<and>
     (\<forall>p'\<in>effects c t L. p' < t' \<longrightarrow> p' = p))"

fun good_reply :: "KvReq \<Rightarrow> KvRep \<Rightarrow> bool" where
  "good_reply (ReqGet a) r = (\<exists>g. r = RepGet g)"
| "good_reply (ReqPut a) r = (r = RepPut \<lparr>pr_Err = OK\<rparr> \<or> r = RepPut \<lparr>pr_Err = ErrVersion\<rparr>)"

text \<open>The attempt that a busy client waits for.\<close>

definition reply_ok :: "clerk_pc rpc_sys \<Rightarrow> nat \<Rightarrow> KvReq \<Rightarrow> bool \<Rightarrow> nat \<Rightarrow> bool" where
  "reply_ok s c q f t \<longleftrightarrow>
     (case wait s c of
        Some (i, Some r) \<Rightarrow> harmless s q \<and> good_reply q r \<and> (\<exists>p<length (served s). t \<le> p \<and>
          log_of s ! p = (Some c, q, r) \<and> (f \<longrightarrow> effects c t (log_of s) \<subseteq> {p}))
      | _ \<Rightarrow> f \<longrightarrow> effects c t (log_of s) = {})"

definition client_ok :: "clerk_pc rpc_sys \<Rightarrow> nat \<Rightarrow> bool" where
  "client_ok s c \<longleftrightarrow>
     (case loc s c of
        Idle \<Rightarrow> wait s c = None \<and> (\<forall>j q. (c, j, q) \<in> pool s \<longrightarrow> harmless s q)
      | Returned q out t \<Rightarrow> wait s c = None \<and> (\<forall>j q. (c, j, q) \<in> pool s \<longrightarrow> harmless s q) \<and>
          call_done (log_of s) c q out t (length (served s))
      | Busy q f t \<Rightarrow> t \<le> length (served s) \<and> seen s q \<and>
          (\<forall>p\<in>effects c t (log_of s). fst (snd (log_of s ! p)) = q) \<and>
          (\<forall>j q'. (c, j, q') \<in> pool s \<longrightarrow> harmless s q' \<or> q' = q \<and> (f \<longrightarrow> wait s c = Some (j, None))) \<and>
          reply_ok s c q f t)"

definition start_of :: "clerk_pc rpc_sys \<Rightarrow> nat \<Rightarrow> nat" where
  "start_of s c = (case loc s c of Idle \<Rightarrow> length (served s) | Busy q f t \<Rightarrow> t | Returned q out t \<Rightarrow> t)"

definition hist_ok :: "clerk_pc rpc_sys \<Rightarrow> Operation list \<Rightarrow> bool" where
  "hist_ok s h \<longleftrightarrow>
     (\<forall>oper\<in>set h. \<exists>c q out t t'. oper = operation c q out t t' \<and> t' \<le> start_of s c \<and> call_done (log_of s) c q out t t') \<and>
     (\<forall>i j. i < j \<and> j < length h \<and> op_ClientId (h ! i) = op_ClientId (h ! j) \<longrightarrow> op_Return (h ! i) \<le> op_Call (h ! j)) \<and>
     (\<forall>c. \<forall>p\<in>effects c 0 (log_of s). p < start_of s c \<longrightarrow>
        (\<exists>oper\<in>set h. op_ClientId oper = int c \<and> op_Call oper \<le> int p \<and> int p < op_Return oper))"

lemma effects_snoc:
  "effects c t (L @ [e]) = effects c t L \<union> (if t \<le> length L \<and> takes_effect e \<and> fst e = Some c then {length L} else {})"
  by (auto simp: effects_def nth_append less_Suc_eq)

lemma effects_less: "p \<in> effects c t L \<Longrightarrow> p < length L"
  by (simp add: effects_def)

lemma call_done_snoc:
  assumes "call_done L c q out t t'" and "t' \<le> length L \<or> \<not> takes_effect e \<or> fst e \<noteq> Some c"
  shows "call_done (L @ [e]) c q out t t'"
proof -
  obtain p r where p: "t \<le> p" "p < t'" "p < length L" "L ! p = (Some c, q, r)" "out_fits q r out"
    "\<And>p'. p' \<in> effects c t L \<Longrightarrow> p' < t' \<Longrightarrow> p' = p"
    using assms(1) by (auto simp: call_done_def)
  have "p' = p" if "p' \<in> effects c t (L @ [e])" "p' < t'" for p'
    using that assms(2) p(6) by (auto simp: effects_snoc split: if_splits)
  with p(1-5) show ?thesis unfolding call_done_def
    by (intro exI [of _ p] exI [of _ r]) (auto simp: nth_append)
qed

lemma call_done_mono:
  assumes "call_done L c q out t (length L)"
  shows "length L \<le> t' \<Longrightarrow> call_done L c q out t t'"
  using assms effects_less unfolding call_done_def by (meson order_less_le_trans)

lemma seen_mono: "seen s q \<Longrightarrow> (\<And>k. sver s k \<le> sver t k) \<Longrightarrow> seen t q"
  by (cases q) (auto intro: order_trans)

lemma harmless_mono: "harmless s q \<Longrightarrow> (\<And>k. sver s k \<le> sver t k) \<Longrightarrow> harmless t q"
  by (cases q) (auto intro: order_less_le_trans)

lemma srv_only [simp]:
  "sver (s\<lparr>pool := P\<rparr>) = sver s" "sver (s\<lparr>wait := w\<rparr>) = sver s" "sver (s\<lparr>nextid := i\<rparr>) = sver s" "sver (s\<lparr>loc := l\<rparr>) = sver s"
  by (simp_all add: sver_def fun_eq_iff)

lemma seen_sver: "sver t = sver s \<Longrightarrow> seen t = seen s" "sver t = sver s \<Longrightarrow> harmless t = harmless s"
  by (auto simp: fun_eq_iff elim!: seen.elims harmless.elims)

text \<open>Executing a harmless request has no effect; a request that was seen is harmless once executed.\<close>

lemma harmless_no_effect:
  assumes "harmless s q" and "KVServer_serve (srv s) q = (kv, r)"
  shows "\<not> takes_effect (c, q, r)"
  using assms by (cases q) (auto simp: Put_OK_iff sver_def)

lemma executed_harmless:
  assumes "seen s q" and "KVServer_serve (srv s) q = (srv t, r)" and "\<And>k. sver s k < 2 ^ 64 - 1"
  shows "harmless t q"
proof (cases q)
  case (ReqPut a)
  have "sver s (pa_Key a) < 2 ^ 64 - 1" by (rule assms(3))
  moreover have "srv t = fst (KVServer_Put (srv s) a)" using assms(2) ReqPut by simp
  ultimately show ?thesis using assms(1) ReqPut by (auto simp: sver_def kv_simps unat_Suc_no_wrap order_le_less word_unat_eq_iff)
qed simp

text \<open>A request that was seen is never refused for a missing key.\<close>

lemma cur_missing: "data kv k = None \<Longrightarrow> kv_cur kv k = ('''', 0)"
  by (simp add: kv_cur_def KVServer_Get_def)

lemma seen_reply:
  assumes "seen s q" and "KVServer_serve (srv s) q = (kv, r)"
  shows "good_reply q r"
proof (cases q)
  case (ReqPut a)
  then have "pr_Err (snd (KVServer_Put (srv s) a)) \<in> {OK, ErrVersion}"
    using assms(1) cur_missing [of "srv s" "pa_Key a"] by (auto simp: Put_err sver_def word_unat_eq_iff)
  with assms(2) ReqPut show ?thesis by (cases "snd (KVServer_Put (srv s) a)") auto
qed (use assms in auto)

lemma reply_ok_frame:
  assumes "reply_ok s c q f x" and "wait t c = wait s c" and "length (served s) \<le> length (served t)"
    and "\<And>p. p < length (served s) \<Longrightarrow> log_of t ! p = log_of s ! p"
    and "effects c x (log_of t) = effects c x (log_of s)" and "harmless s q \<Longrightarrow> harmless t q"
  shows "reply_ok t c q f x"
  using assms unfolding reply_ok_def
  by (auto split: option.splits intro: order_less_le_trans) (metis order_less_le_trans)+

lemma client_ok_frame:
  assumes "client_ok s c" and "loc t c = loc s c" and "wait t c = wait s c"
    and "\<And>j q. (c, j, q) \<in> pool t \<Longrightarrow> (c, j, q) \<in> pool s" and mono: "\<And>k. sver s k \<le> sver t k"
    and "served t = served s \<or> (\<exists>e. served t = e # served s \<and> fst e \<noteq> Some c)"
  shows "client_ok t c"
proof -
  have len: "length (served s) \<le> length (served t)" using assms(6) by auto
  have nth: "log_of t ! p = log_of s ! p" if "p < length (served s)" for p using assms(6) that by (auto simp: nth_append)
  have eff: "effects c x (log_of t) = effects c x (log_of s)" for x using assms(6) by (auto simp: effects_snoc)
  have fin: "call_done (log_of t) c q out x (length (served t))" if "call_done (log_of s) c q out x (length (served s))" for q out x
    using assms(6)
  proof
    assume "\<exists>e. served t = e # served s \<and> fst e \<noteq> Some c"
    then obtain e where "served t = e # served s" "fst e \<noteq> Some c" by blast
    with call_done_snoc [OF call_done_mono, of "log_of s" c q out x "length (served t)" e] that show ?thesis by simp
  qed (use that in simp)
  show ?thesis
  proof (cases "loc s c")
    case (Busy q f x)
    have "fst (snd (log_of t ! p)) = q" if "p \<in> effects c x (log_of t)" for p
      using that assms(1) Busy effects_less [of p c x "log_of s"] by (auto simp: client_ok_def eff nth)
    moreover have "harmless t q' \<or> q' = q \<and> (f \<longrightarrow> wait t c = Some (j, None))" if "(c, j, q') \<in> pool t" for j q'
    proof -
      have "harmless s q' \<or> q' = q \<and> (f \<longrightarrow> wait s c = Some (j, None))"
        using assms(1) Busy assms(4) [OF that] by (simp add: client_ok_def)
      then show ?thesis using assms(3) harmless_mono [OF _ mono] by auto
    qed
    moreover have "x \<le> length (served t)" "seen t q" using assms(1) Busy len seen_mono [OF _ mono] by (auto simp: client_ok_def)
    moreover have "reply_ok t c q f x"
      using assms(1) Busy harmless_mono [OF _ mono] by (intro reply_ok_frame [OF _ assms(3) len nth eff]) (simp_all add: client_ok_def)
    ultimately show ?thesis using Busy assms(2) by (simp add: client_ok_def)
  next
    case Idle
    with assms(1-3) show ?thesis using assms(4) harmless_mono [OF _ mono] by (simp add: client_ok_def) blast
  next
    case (Returned q out x)
    with assms(1-3) fin show ?thesis using assms(4) harmless_mono [OF _ mono] by (simp add: client_ok_def) blast
  qed
qed

lemma client_ok_exec:
  assumes "client_ok s c" and "ids_ok clerk_request s" and pool: "(c, i, q') \<in> pool s"
    and serve: "KVServer_serve (srv s) q' = (kv, r)" and small: "\<And>k. sver s k < 2 ^ 64 - 1"
    and t: "t = s\<lparr>srv := kv, pool := pool s - {(c, i, q')},
         wait := (if wait s c = Some (i, None) then (wait s)(c \<mapsto> (i, Some r)) else wait s),
         served := (Some c, q', r) # served s\<rparr>"
  shows "client_ok t c"
proof -
  have "clerk_step s t" unfolding t by (rule rpc_step.exec [OF pool serve])
  then have mono: "\<And>k. sver s k \<le> sver t k" using rpc_step_sver(1) small by blast
  have quiet: "harmless s q' \<Longrightarrow> \<not> takes_effect (Some c, q', r)" using harmless_no_effect [OF _ serve] by blast
  show ?thesis
  proof (cases "loc s c")
    case (Busy q f x)
    then have ok: "x \<le> length (served s)" "seen s q" "\<And>p. p \<in> effects c x (log_of s) \<Longrightarrow> fst (snd (log_of s ! p)) = q"
      "\<And>j q'. (c, j, q') \<in> pool s \<Longrightarrow> harmless s q' \<or> q' = q \<and> (f \<longrightarrow> wait s c = Some (j, None))"
      using assms(1) by (auto simp: client_ok_def)
    have seen: "seen t q" using seen_mono [OF ok(2) mono] .
    have eff: "effects c x (log_of t) \<subseteq> effects c x (log_of s) \<union> {length (served s)}"
      "harmless s q' \<Longrightarrow> effects c x (log_of t) = effects c x (log_of s)"
      using quiet by (auto simp: t effects_snoc)
    have req: "fst (snd (log_of t ! p)) = q" if "p \<in> effects c x (log_of t)" for p
      using that ok(1,3) ok(4) [OF pool] quiet
      by (auto simp: t effects_snoc nth_append effects_less split: if_splits dest: effects_less)
    have pl: "harmless t q'' \<or> q'' = q \<and> (f \<longrightarrow> wait t c = Some (j, None))" if "(c, j, q'') \<in> pool t" "wait s c \<noteq> Some (i, None)" for j q''
      using that ok(4) [of j q''] harmless_mono [OF _ mono] by (auto simp: t)
    show ?thesis
    proof (cases "wait s c = Some (i, None)")
      case True
      then have q: "q' = q" using assms(2) pool Busy by (force simp: ids_ok_def)
      have harm: "harmless t q" using executed_harmless [OF ok(2) _ small, of t r] serve q by (simp add: t)
      have "f \<longrightarrow> effects c x (log_of t) \<subseteq> {length (served s)}"
        using eff(1) assms(1) Busy True by (auto simp: client_ok_def reply_ok_def)
      moreover have "harmless t q'' \<or> q'' = q \<and> (f \<longrightarrow> wait t c = Some (j, None))" if "(c, j, q'') \<in> pool t" for j q''
        using that harm ok(4) [of j q''] harmless_mono [OF _ mono] by (auto simp: t)
      moreover have "good_reply q r" using seen_reply ok(2) serve q by blast
      ultimately show ?thesis using Busy True q ok(1) seen req harm
        by (auto simp: client_ok_def reply_ok_def t nth_append)
    next
      case False
      have "reply_ok t c q f x"
      proof (cases "harmless s q'")
        case True
        then show ?thesis using assms(1) Busy False eff(2) harmless_mono [OF _ mono]
          by (intro reply_ok_frame [of s c q f x t]) (auto simp: client_ok_def t nth_append)
      next
        case no: False
        then have "\<not> f" using ok(4) [OF pool] False by blast
        with no show ?thesis using assms(1) Busy False ok(4) [OF pool]
          by (auto simp: client_ok_def reply_ok_def t split: option.splits)
      qed
      with Busy ok(1) seen req pl False show ?thesis by (simp add: client_ok_def t)
    qed
  next
    case Idle
    with assms(1) harmless_mono [OF _ mono] show ?thesis by (auto simp: client_ok_def t)
  next
    case (Returned q out x)
    then have "call_done (log_of s) c q out x (length (served s))" "harmless s q'" using assms(1) pool by (auto simp: client_ok_def)
    then have "call_done (log_of t) c q out x (length (served t))"
      using call_done_snoc [OF call_done_mono, of "log_of s" c q out x "length (served t)" "(Some c, q', r)"] quiet by (simp add: t)
    with Returned assms(1) harmless_mono [OF _ mono] show ?thesis by (auto simp: client_ok_def t)
  qed
qed

lemma effects_unique:
  assumes "log_ok L" and "length L < 2 ^ 64" and "\<And>p. p \<in> effects c x L \<Longrightarrow> fst (snd (L ! p)) = q"
    and "p \<in> effects c x L" and "p' \<in> effects c x L"
  shows "p' = p"
proof -
  have "\<not> b < d" if b: "b \<in> effects c x L" and d: "d \<in> effects c x L" for b d
  proof
    assume "b < d"
    obtain r r' where "L ! b = (Some c, q, r)" "L ! d = (Some c, q, r')"
      using assms(3) [OF b] assms(3) [OF d] b d by (cases "L ! b"; cases "L ! d") (auto simp: effects_def)
    then show False using effect_once [OF assms(1,2) \<open>b < d\<close>] b d by (cases q) (auto simp: effects_def)
  qed
  then show ?thesis using assms(4,5) by (metis linorder_neqE_nat)
qed

lemma call_done_now:
  assumes "p < length L" and "x \<le> p" and "L ! p = (Some c, q, r)" and "out_fits q r out" and "effects c x L \<subseteq> {p}"
  shows "call_done L c q out x (length L)"
  using assms unfolding call_done_def by blast

text \<open>Taking a reply: the call returns with the point of its effect, or else of the reply.\<close>

lemma reply_done:
  assumes "log_ok L" and "length L < 2 ^ 64" and p: "p < length L" "x \<le> p" "L ! p = (Some c, q, r)"
    and req: "\<And>p. p \<in> effects c x L \<Longrightarrow> fst (snd (L ! p)) = q" and "f \<Longrightarrow> effects c x L \<subseteq> {p}" and "good_reply q r"
  obtains out where "clerk_resume c (Busy q f x) (CallOk r) = Returned q out x" "call_done L c q out x (length L)"
proof (cases q)
  case (ReqGet a)
  then have "effects c x L = {}" using req by (force simp: effects_def elim: takes_effect.elims)
  with ReqGet assms(8) that call_done_now [OF p] show ?thesis by (auto simp: Clerk_Get_iter_def)
next
  case (ReqPut a)
  note uniq = effects_unique [OF assms(1,2) req]
  consider "r = RepPut \<lparr>pr_Err = OK\<rparr>" | "r = RepPut \<lparr>pr_Err = ErrVersion\<rparr>" f
    | "r = RepPut \<lparr>pr_Err = ErrVersion\<rparr>" "\<not> f" "effects c x L = {}"
    | d where "r = RepPut \<lparr>pr_Err = ErrVersion\<rparr>" "\<not> f" "d \<in> effects c x L"
    using assms(8) ReqPut by auto
  then show ?thesis
  proof cases
    case 1
    then have "p \<in> effects c x L" using p ReqPut by (simp add: effects_def)
    then have "effects c x L \<subseteq> {p}" using uniq by blast
    with 1 ReqPut that call_done_now [OF p] show ?thesis by (auto simp: Clerk_Put_iter_def)
  next
    case 2
    with ReqPut that call_done_now [OF p _ assms(7)] show ?thesis by (auto simp: Clerk_Put_iter_def)
  next
    case 3
    with ReqPut that call_done_now [OF p] show ?thesis by (auto simp: Clerk_Put_iter_def)
  next
    case 4
    then have d: "d < length L" "x \<le> d" "L ! d = (Some c, q, snd (snd (L ! d)))" "rep_OK (snd (snd (L ! d)))"
      using req ReqPut by (cases "L ! d"; force simp: effects_def)+
    moreover have "effects c x L \<subseteq> {d}" using uniq 4 by blast
    ultimately show ?thesis using 4 ReqPut that call_done_now [of d L x c q] by (auto simp: Clerk_Put_iter_def)
  qed
qed

definition hist_inv :: "clerk_pc rpc_sys \<Rightarrow> Operation list \<Rightarrow> bool" where
  "hist_inv s h \<longleftrightarrow> log_inv s \<and> ids_ok clerk_request s \<and> (\<forall>c. client_ok s c) \<and> hist_ok s h"

lemma client_ok_reply:
  assumes "client_ok s c" and "log_inv s" and "length (served s) < 2 ^ 64" and w: "wait s c = Some (i, Some r)"
    and t: "t = s\<lparr>wait := (wait s)(c := None), loc := (loc s)(c := clerk_resume c (loc s c) (CallOk r))\<rparr>"
  shows "client_ok t c"
proof -
  obtain q f x where Busy: "loc s c = Busy q f x" using assms(1) w by (cases "loc s c") (auto simp: client_ok_def)
  with assms(1) w obtain p where p: "p < length (served s)" "x \<le> p" "log_of s ! p = (Some c, q, r)"
    "f \<Longrightarrow> effects c x (log_of s) \<subseteq> {p}" "harmless s q" "good_reply q r"
    by (auto simp: client_ok_def reply_ok_def)
  have "log_ok (log_of s)" using assms(2) by (simp add: log_inv_def)
  moreover have "\<And>p. p \<in> effects c x (log_of s) \<Longrightarrow> fst (snd (log_of s ! p)) = q"
    using assms(1) Busy by (simp add: client_ok_def)
  ultimately obtain out where out: "clerk_resume c (Busy q f x) (CallOk r) = Returned q out x"
    "call_done (log_of s) c q out x (length (served s))"
    using reply_done [of "log_of s" p x c q r f] p assms(3) by auto
  have "harmless s q'" if "(c, j, q') \<in> pool s" for j q'
    using assms(1) Busy that p(5) by (fastforce simp: client_ok_def)
  moreover have "harmless t = harmless s" by (rule seen_sver) (simp add: t)
  ultimately show ?thesis using out Busy by (simp add: client_ok_def t)
qed

lemma client_ok_fail:
  assumes "client_ok s c" and w: "wait s c = Some (i, w)"
    and t: "t = s\<lparr>wait := (wait s)(c := None), loc := (loc s)(c := clerk_resume c (loc s c) CallFail)\<rparr>"
  shows "client_ok t c"
proof -
  obtain q f x where Busy: "loc s c = Busy q f x" using assms(1) w by (cases "loc s c") (auto simp: client_ok_def)
  have "loc t c = Busy q False x" using Busy by (cases q) (simp_all add: t Clerk_Get_iter_def Clerk_Put_iter_def)
  moreover have "harmless t = harmless s" "seen t = seen s" by (rule seen_sver, simp add: t)+
  ultimately show ?thesis using assms(1) Busy by (auto simp: client_ok_def reply_ok_def t)
qed

lemma client_ok_send:
  assumes "client_ok s c" and w: "wait s c = None" and req: "clerk_request c (loc s c) = Some q"
    and t: "t = s\<lparr>pool := insert (c, nextid s, q) (pool s), wait := (wait s)(c \<mapsto> (nextid s, None)), nextid := Suc (nextid s)\<rparr>"
  shows "client_ok t c"
proof -
  obtain f x where "loc s c = Busy q f x" using req by (auto elim: clerk_request.elims)
  moreover have "harmless t = harmless s" "seen t = seen s" by (rule seen_sver, simp add: t)+
  ultimately show ?thesis using assms(1) w by (auto simp: client_ok_def reply_ok_def t)
qed

lemma client_ok_step:
  assumes "clerk_step s t" and "log_inv s" and "ids_ok clerk_request s" and ok: "\<And>c. client_ok s c"
    and small: "\<And>k. sver s k < 2 ^ 64 - 1" and "length (served s) < 2 ^ 64"
  shows "client_ok t c"
proof -
  have mono: "\<And>k. sver s k \<le> sver t k" using rpc_step_sver(1) assms(1) small by blast
  have other: "client_ok t c" if "loc t c = loc s c" "wait t c = wait s c" "\<And>j q. (c, j, q) \<in> pool t \<Longrightarrow> (c, j, q) \<in> pool s"
    "served t = served s \<or> (\<exists>e. served t = e # served s \<and> fst e \<noteq> Some c)"
    by (rule client_ok_frame [OF ok that(1-3) mono that(4)])
  from assms(1) show ?thesis
  proof cases
    case (send d q)
    show ?thesis
    proof (cases "d = c")
      case True
      then show ?thesis using client_ok_send [OF ok send(2)] send by blast
    qed (rule other, use send in auto)
  next
    case (exec d i q kv r)
    show ?thesis
    proof (cases "d = c")
      case True
      then show ?thesis using client_ok_exec [OF ok assms(3) _ _ small, of c] exec by blast
    qed (rule other, use exec in auto)
  next
    case (lose d i q)
    show ?thesis by (rule other) (use lose in auto)
  next
    case (reply d i r)
    show ?thesis
    proof (cases "d = c")
      case True
      then show ?thesis using client_ok_reply [OF ok assms(2,6), of c] reply by blast
    qed (rule other, use reply in auto)
  next
    case (fail d i w)
    show ?thesis
    proof (cases "d = c")
      case True
      then show ?thesis using client_ok_fail [OF ok, of c] fail by blast
    qed (rule other, use fail in auto)
  qed simp_all
qed

lemma start_of_le: "client_ok s c \<Longrightarrow> start_of s c \<le> length (served s)"
  by (auto simp: client_ok_def start_of_def call_done_def split: clerk_pc.splits)

lemma start_of_resume:
  assumes "served t = served s" and "loc t = (loc s)(d := clerk_resume d (loc s d) res)"
  shows "start_of t = start_of s"
proof
  fix c
  show "start_of t c = start_of s c"
  proof (cases "loc s d")
    case (Busy q f x)
    with assms show ?thesis by (cases q) (auto simp: start_of_def split: option.splits sum.splits clerk_pc.splits)
  qed (use assms in \<open>auto simp: start_of_def split: clerk_pc.splits\<close>)
qed

lemma hist_ok_exec:
  assumes "hist_ok s h" and ok: "\<And>c. client_ok s c" and "(d, i, q) \<in> pool s" and serve: "KVServer_serve (srv s) q = (kv, r)"
    and t: "served t = (Some d, q, r) # served s" "loc t = loc s"
  shows "hist_ok t h"
proof -
  let ?e = "(Some d, q, r)"
  have L: "log_of t = log_of s @ [?e]" by (simp add: t)
  have le: "start_of s c \<le> start_of t c" for c using start_of_le [OF ok] by (simp add: start_of_def t split: clerk_pc.splits)
  have "call_done (log_of t) c q' out x x'" if "call_done (log_of s) c q' out x x'" "x' \<le> start_of s c" for c q' out x x'
    unfolding L using that(2) start_of_le [OF ok, of c] by (intro call_done_snoc [OF that(1)]) simp
  with le assms(1) have "\<forall>oper\<in>set h. \<exists>c q out x x'. oper = operation c q out x x' \<and> x' \<le> start_of t c \<and> call_done (log_of t) c q out x x'"
    unfolding hist_ok_def by (meson order_trans)
  moreover have "p \<in> effects c 0 (log_of s) \<and> p < start_of s c" if "p \<in> effects c 0 (log_of t)" "p < start_of t c" for c p
  proof (cases "loc s c = Idle")
    case True
    then have "c = d \<longrightarrow> harmless s q" using ok [of c] assms(3) by (auto simp: client_ok_def)
    then have "p \<in> effects c 0 (log_of s)" using that(1) harmless_no_effect [OF _ serve]
      by (auto simp: L effects_snoc split: if_splits)
    with True effects_less show ?thesis by (force simp: start_of_def)
  next
    case False
    then have "p < start_of s c" using that(2) by (auto simp: start_of_def t split: clerk_pc.splits)
    with that(1) start_of_le [OF ok, of c] show ?thesis by (auto simp: L effects_snoc split: if_splits)
  qed
  ultimately show ?thesis using assms(1) unfolding hist_ok_def by blast
qed

lemma hist_ok_same: "hist_ok s h \<Longrightarrow> served t = served s \<Longrightarrow> start_of t = start_of s \<Longrightarrow> hist_ok t h"
  by (simp add: hist_ok_def)

lemma hist_ok_step:
  assumes "clerk_step s t" and "hist_ok s h" and "\<And>c. client_ok s c"
  shows "hist_ok t h"
  using assms(1)
proof cases
  case (exec d i q kv r)
  then show ?thesis by (intro hist_ok_exec [OF assms(2,3) exec(2,3)]) simp_all
next
  case (reply d i r)
  then show ?thesis by (intro hist_ok_same [OF assms(2)] start_of_resume) simp_all
next
  case (fail d i w)
  then show ?thesis by (intro hist_ok_same [OF assms(2)] start_of_resume) simp_all
qed (use assms(2) in \<open>auto intro!: hist_ok_same [OF assms(2)] simp: start_of_def fun_eq_iff split: clerk_pc.splits\<close>)

section \<open>Calls and returns\<close>

lemma hist_inv_call:
  assumes inv: "hist_inv s h" and "loc s c = Idle" and "wait s c = None" and "seen s q"
    and t: "t = s\<lparr>loc := (loc s)(c := Busy q True (length (served s)))\<rparr>"
  shows "hist_inv t h"
proof -
  have ok: "client_ok s d" for d using inv by (simp add: hist_inv_def)
  have same: "harmless t = harmless s" "seen t = seen s" by (rule seen_sver, simp add: t)+
  have none: "effects c (length (served s)) (log_of s) = {}" by (auto simp: effects_def)
  have "client_ok t d" for d
  proof (cases "d = c")
    case True
    with ok [of c] same assms(2-4) none show ?thesis
      by (auto simp: client_ok_def reply_ok_def t)
  qed (rule client_ok_frame [OF ok], auto simp: t)
  moreover have start: "start_of t = start_of s" using assms(2) by (auto simp: start_of_def fun_eq_iff t split: clerk_pc.splits)
  have "hist_ok s h" "served t = served s" using inv by (simp_all add: hist_inv_def t)
  then have "hist_ok t h" by (rule hist_ok_same [OF _ _ start])
  moreover have "log_inv t" "ids_ok clerk_request t" using inv assms(3) by (auto simp: hist_inv_def log_inv_def ids_ok_def t)
  ultimately show ?thesis by (simp add: hist_inv_def)
qed

lemma hist_ok_return:
  assumes hist: "hist_ok s h" and ok: "\<And>c. client_ok s c" and loc: "loc s c = Returned q out x"
    and t: "t = s\<lparr>loc := (loc s)(c := Idle)\<rparr>"
  shows "hist_ok t (h @ [operation c q out x (length (served s))])" (is "hist_ok t (h @ [?o])")
proof -
  have fin: "call_done (log_of s) c q out x (length (served s))" using ok [of c] loc by (simp add: client_ok_def)
  have start: "start_of s c = x" "start_of t c = length (served s)" "\<And>d. d \<noteq> c \<Longrightarrow> start_of t d = start_of s d"
    using loc by (auto simp: start_of_def t split: clerk_pc.splits)
  have le: "start_of s d \<le> start_of t d" for d using start start_of_le [OF ok, of c] by (cases "d = c") simp_all
  have L: "log_of t = log_of s" by (simp add: t)
  have ops: "\<exists>c q out x x'. oper = operation c q out x x' \<and> x' \<le> start_of s c \<and> call_done (log_of s) c q out x x'" if "oper \<in> set h" for oper
    using hist that by (simp add: hist_ok_def)
  have "\<forall>oper\<in>set (h @ [?o]). \<exists>c q out x x'. oper = operation c q out x x' \<and> x' \<le> start_of t c \<and> call_done (log_of t) c q out x x'"
  proof
    fix oper assume "oper \<in> set (h @ [?o])"
    then consider "oper \<in> set h" | "oper = ?o" by auto
    then show "\<exists>c q out x x'. oper = operation c q out x x' \<and> x' \<le> start_of t c \<and> call_done (log_of t) c q out x x'"
    proof cases
      case 1
      then show ?thesis using ops [of oper] le unfolding L by (meson order_trans)
    next
      case 2
      then show ?thesis using fin start(2) unfolding L by (metis order_refl)
    qed
  qed
  moreover have "op_Return ((h @ [?o]) ! i) \<le> op_Call ((h @ [?o]) ! j)"
    if "i < j \<and> j < length (h @ [?o]) \<and> op_ClientId ((h @ [?o]) ! i) = op_ClientId ((h @ [?o]) ! j)" for i j
  proof (cases "j < length h")
    case True
    with that hist show ?thesis by (auto simp: hist_ok_def nth_append)
  next
    case False
    with that have "j = length h" "i < length h" by auto
    with ops [of "h ! i"] that start(1) show ?thesis by (auto simp: nth_append)
  qed
  moreover have "\<exists>oper\<in>set (h @ [?o]). op_ClientId oper = int d \<and> op_Call oper \<le> int p \<and> int p < op_Return oper"
    if p: "p \<in> effects d 0 (log_of t)" "p < start_of t d" for d p
  proof (cases "p < start_of s d")
    case True
    then show ?thesis using hist p(1) unfolding hist_ok_def L by auto
  next
    case False
    with p(2) start have "d = c" by (cases "d = c") auto
    with p(2) False start show ?thesis by auto
  qed
  ultimately show ?thesis unfolding hist_ok_def by blast
qed

lemma hist_inv_return:
  assumes inv: "hist_inv s h" and loc: "loc s c = Returned q out x" and "wait s c = None"
    and t: "t = s\<lparr>loc := (loc s)(c := Idle)\<rparr>"
  shows "hist_inv t (h @ [operation c q out x (length (served s))])"
proof -
  have ok: "client_ok s d" for d using inv by (simp add: hist_inv_def)
  have same: "harmless t = harmless s" by (rule seen_sver, simp add: t)+
  have "client_ok t d" for d
  proof (cases "d = c")
    case True
    with ok [of c] same loc show ?thesis by (auto simp: client_ok_def t)
  qed (rule client_ok_frame [OF ok], auto simp: t)
  moreover have "log_inv t" "ids_ok clerk_request t" using inv assms(3) by (auto simp: hist_inv_def log_inv_def ids_ok_def t)
  moreover have "hist_ok s h" using inv by (simp add: hist_inv_def)
  ultimately show ?thesis using hist_ok_return [OF _ ok loc t] by (simp add: hist_inv_def)
qed

lemma hist_reach_small: "hist_reach okq n s h \<Longrightarrow> n < 2 ^ 64 \<Longrightarrow> sver s k \<le> n \<and> length (served s) \<le> n"
proof (induction rule: hist_reach.induct)
  case (net n s h t)
  then have "sver s k \<le> n" "length (served s) \<le> n" by simp_all
  moreover have "length (served t) \<le> Suc (length (served s))" using net.hyps(2) by cases auto
  ultimately show ?case using rpc_step_sver(2) [OF net.hyps(2), of k] net.prems by simp
qed (simp_all add: sver_def)

lemma hist_reach_inv: "hist_reach seen n s h \<Longrightarrow> n < 2 ^ 64 \<Longrightarrow> hist_inv s h"
proof (induction rule: hist_reach.induct)
  case start
  show ?case by (auto simp: hist_inv_def log_inv_def log_ok_def ids_ok_def client_ok_def hist_ok_def effects_def)
next
  case (net n s h t)
  then have inv: "log_inv s" "ids_ok clerk_request s" "\<And>c. client_ok s c" "hist_ok s h" by (auto simp: hist_inv_def)
  have small: "sver s k < 2 ^ 64 - 1" "length (served s) < 2 ^ 64" for k
    using hist_reach_small [OF net.hyps(1), of k] net.prems by simp_all
  then have "client_ok t c" for c by (intro client_ok_step [OF net.hyps(2) inv(1-3)])
  moreover have "hist_ok t h" by (rule hist_ok_step [OF net.hyps(2) inv(4,3)])
  ultimately show ?case
    using clerk_step_log [OF net.hyps(2) inv(1)] rpc_step_ids [OF net.hyps(2) inv(2)] by (simp add: hist_inv_def)
next
  case (call n s h c q)
  then show ?case by (intro hist_inv_call [OF _ _ _ _ refl]) simp_all
next
  case (return n s h c q out x)
  then show ?case by (intro hist_inv_return [OF _ _ _ refl]) simp_all
qed

section \<open>Linearizability\<close>

text \<open>
  The histories of the clerk are linearizable. In a run of any number of clients, in which requests and
  replies are lost, delayed, reordered and resent by the clerk, and every client puts at versions that
  the key has reached, the completed operations can be put into an order that respects real time and
  that the model of \<open>models1/kv.go\<close> accepts on every key; so the checker of the tests has nothing to
  find, \<open>ErrMaybe\<close> included.
\<close>

lemma histories_linearizable:
  assumes "hist_reach seen n s h" and "n < 2 ^ 64" and "\<forall>c. loc s c = Idle"
  shows "linearizable h"
proof -
  let ?L = "log_of s"
  have "hist_inv s h" by (rule hist_reach_inv [OF assms(1,2)])
  then have log: "log_inv s" and hist: "hist_ok s h" by (simp_all add: hist_inv_def)
  have "\<exists>p. is_point ?L (h ! j) p \<and> (\<forall>c p'. op_ClientId (h ! j) = int c \<longrightarrow> p' \<in> effects c 0 ?L \<longrightarrow>
      op_Call (h ! j) \<le> int p' \<longrightarrow> int p' < op_Return (h ! j) \<longrightarrow> p' = p)" if j: "j < length h" for j
  proof -
    obtain c q out t t' where "h ! j = operation c q out t t'" "call_done ?L c q out t t'"
      using hist nth_mem [OF j] by (force simp: hist_ok_def)
    then show ?thesis by (auto simp: call_done_def is_point_def effects_def)
  qed
  then obtain P where P: "\<And>j. j < length h \<Longrightarrow> is_point ?L (h ! j) (P j)"
    and only: "\<And>j c p. j < length h \<Longrightarrow> op_ClientId (h ! j) = int c \<Longrightarrow> p \<in> effects c 0 ?L \<Longrightarrow>
      op_Call (h ! j) \<le> int p \<Longrightarrow> int p < op_Return (h ! j) \<Longrightarrow> p = P j"
    by metis
  have apart: "P i \<noteq> P j" if "i < j" "j < length h" for i j
  proof
    assume "P i = P j"
    with P [of i] P [of j] that have "op_ClientId (h ! i) = op_ClientId (h ! j)" by (auto simp: is_point_def)
    with hist that have "op_Return (h ! i) \<le> op_Call (h ! j)" by (simp add: hist_ok_def)
    with P [of i] P [of j] that \<open>P i = P j\<close> show False by (auto simp: is_point_def)
  qed
  show ?thesis
  proof (rule points_linearize [of ?L P])
    show "log_ok ?L" using log by (simp add: log_inv_def)
    show "inj_on P {..<length h}" using apart by (metis inj_onI lessThan_iff linorder_neqE_nat)
    fix p assume p: "p < length ?L" "takes_effect (?L ! p)"
    then obtain c where c: "fst (?L ! p) = Some c" using log nth_mem [OF p(1)] by (auto simp: log_inv_def)
    with p have eff: "p \<in> effects c 0 ?L" by (simp add: effects_def)
    moreover have "p < start_of s c" using p(1) assms(3) by (simp add: start_of_def)
    ultimately obtain oper where "oper \<in> set h" "op_ClientId oper = int c" "op_Call oper \<le> int p" "int p < op_Return oper"
      using hist unfolding hist_ok_def by blast
    with only [OF _ _ eff] show "p \<in> P ` {..<length h}" by (metis imageI in_set_conv_nth lessThan_iff)
  qed (use P in blast)
qed

text \<open>A put whose first reply is lost: it is resent, refused, and returns \<open>ErrMaybe\<close>.\<close>

definition lost_put :: KvReq where
  "lost_put = ReqPut \<lparr>pa_Key = ''k'', pa_Value = ''v'', pa_Version = 0\<rparr>"

definition lost_log :: "log_entry list" where
  "lost_log = [(Some 0, lost_put, RepPut \<lparr>pr_Err = ErrVersion\<rparr>), (Some 0, lost_put, RepPut \<lparr>pr_Err = OK\<rparr>)]"

definition lost_srv :: KVServer where
  "lost_srv = fst (KVServer_Put MakeKVServer \<lparr>pa_Key = ''k'', pa_Value = ''v'', pa_Version = 0\<rparr>)"

lemma lost_put_serve:
  "KVServer_serve MakeKVServer lost_put = (lost_srv, RepPut \<lparr>pr_Err = OK\<rparr>)"
  "KVServer_serve lost_srv lost_put = (lost_srv, RepPut \<lparr>pr_Err = ErrVersion\<rparr>)"
  by (simp_all add: lost_put_def lost_srv_def KVServer_Put_def MakeKVServer_def)

lemma lost_put_resume:
  "clerk_resume 0 (Busy lost_put True 0) CallFail = Busy lost_put False 0"
  "clerk_resume 0 (Busy lost_put False 0) (CallOk (RepPut \<lparr>pr_Err = ErrVersion\<rparr>)) =
     Returned lost_put \<lparr>out_Value = [], out_Version = 0, out_Err = ''ErrMaybe''\<rparr> 0"
  by (simp_all add: lost_put_def Clerk_Put_iter_def)

lemma lost_put_run:
  "hist_reach seen 8 \<lparr>srv = lost_srv, pool = {}, wait = Map.empty, loc = (\<lambda>c. Idle), nextid = 2, served = lost_log\<rparr>
     [operation 0 lost_put \<lparr>out_Value = [], out_Version = 0, out_Err = ''ErrMaybe''\<rparr> 0 2]"
proof -
  let ?ok = "(Some 0, lost_put, RepPut \<lparr>pr_Err = OK\<rparr>) :: log_entry"
  let ?S = "\<lambda>kv P w pc i L. \<lparr>srv = kv, pool = P, wait = w, loc = (\<lambda>c. Idle)(0 := pc), nextid = i, served = L\<rparr>"
  let ?out = "\<lparr>out_Value = [], out_Version = 0, out_Err = ''ErrMaybe''\<rparr>"
  have idle: "(\<lambda>c. Idle)(0 := Idle) = (\<lambda>c::nat. Idle)" by auto
  have "hist_reach seen 0 (?S MakeKVServer {} Map.empty Idle 0 []) []"
    using hist_reach.start [of seen] by (simp add: idle)
  from hist_reach.call [OF this, of 0 lost_put]
  have "hist_reach seen 1 (?S MakeKVServer {} Map.empty (Busy lost_put True 0) 0 []) []"
    by (simp add: lost_put_def)
  from hist_reach.net [OF this rpc_step.send [of _ 0 _ lost_put]]
  have "hist_reach seen 2 (?S MakeKVServer {(0, 0, lost_put)} [0 \<mapsto> (0, None)] (Busy lost_put True 0) 1 []) []"
    by (simp add: numeral_2_eq_2)
  from hist_reach.net [OF this rpc_step.exec [of 0 0 lost_put _ lost_srv "RepPut \<lparr>pr_Err = OK\<rparr>"]]
  have "hist_reach seen 3 (?S lost_srv {} [0 \<mapsto> (0, Some (RepPut \<lparr>pr_Err = OK\<rparr>))] (Busy lost_put True 0) 1 [?ok]) []"
    by (simp add: lost_put_serve)
  from hist_reach.net [OF this rpc_step.fail [of _ 0]]
  have "hist_reach seen 4 (?S lost_srv {} Map.empty (Busy lost_put False 0) 1 [?ok]) []"
    by (simp add: lost_put_resume)
  from hist_reach.net [OF this rpc_step.send [of _ 0 _ lost_put]]
  have "hist_reach seen 5 (?S lost_srv {(0, 1, lost_put)} [0 \<mapsto> (1, None)] (Busy lost_put False 0) 2 [?ok]) []"
    by (simp add: numeral_2_eq_2)
  from hist_reach.net [OF this rpc_step.exec [of 0 1 lost_put _ lost_srv "RepPut \<lparr>pr_Err = ErrVersion\<rparr>"]]
  have "hist_reach seen 6 (?S lost_srv {} [0 \<mapsto> (1, Some (RepPut \<lparr>pr_Err = ErrVersion\<rparr>))] (Busy lost_put False 0) 2 lost_log) []"
    by (simp add: lost_log_def lost_put_serve)
  from hist_reach.net [OF this rpc_step.reply [of _ 0]]
  have "hist_reach seen 7 (?S lost_srv {} Map.empty (Returned lost_put ?out 0) 2 lost_log) []"
    by (simp add: lost_put_resume)
  from hist_reach.return [OF this, of 0] show ?thesis by (simp add: lost_log_def idle numeral_2_eq_2)
qed

end
