(* ===== verification/LabRpc.thy ===== *)
theory LabRpc
  imports Prelude
begin

text \<open>
  The simulated network of \<open>labrpc/labrpc.go\<close>: end points, servers, services, the dispatching of a
  request to a method, and \<open>processReq\<close>, which decides the fate of a request. The random choices are
  arguments. A \<open>*Server\<close> is an address in a store, because the code compares pointers to find out
  whether a server was replaced while it worked. The receivers of the services share a state \<open>'w\<close>;
  a method is a function on it from encoded arguments to an encoded reply. \<open>labgob\<close> encoding and
  decoding are arguments of \<open>Call\<close>. The channels \<open>endCh\<close> and \<open>replyCh\<close> hand over one message each, so
  a call is a sequence of stages; that stages of several calls interleave is in the step relation.
\<close>

section \<open>Services and servers\<close>

type_synonym bytes = "8 word list"

type_synonym 'w rpc_method = "bytes \<Rightarrow> 'w \<Rightarrow> 'w \<times> bytes"

record reqMsg =
  req_endname :: string
  req_svcMeth :: string
  req_args :: bytes

record replyMsg =
  rep_ok :: bool
  rep_reply :: bytes

record 'w Service =
  svc_name :: string
  svc_methods :: "(string, 'w rpc_method) gomap"

record 'w Server =
  rs_services :: "(string, 'w Service) gomap"
  rs_count :: int

definition MakeServer :: "'w Server" where
  "MakeServer = \<lparr>rs_services = [], rs_count = 0\<rparr>"

definition AddService :: "'w Service \<Rightarrow> 'w Server \<Rightarrow> 'w Server" where
  "AddService svc rs = rs\<lparr>rs_services := AList.update (svc_name svc) svc (rs_services rs)\<rparr>"

definition Server_GetCount :: "'w Server \<Rightarrow> int" where
  "Server_GetCount rs = rs_count rs"

text \<open>
  \<open>MakeService\<close> keeps those methods of a receiver that look like handlers. What reflection tells about a method:
  its name, whether it is exported, the number of its inputs (the receiver is one), whether the last of three is a pointer,
  the number of its outputs, and the function.
\<close>

record 'w go_method =
  gm_name :: string
  gm_exported :: bool
  gm_NumIn :: nat
  gm_ptr2 :: bool
  gm_NumOut :: nat
  gm_func :: "'w rpc_method"

definition suitable :: "'w go_method \<Rightarrow> bool" where
  "suitable meth \<longleftrightarrow> \<not> (\<not> gm_exported meth \<or> gm_NumIn meth \<noteq> 3 \<or> \<not> gm_ptr2 meth \<or> gm_NumOut meth \<noteq> 0)"

definition MakeService :: "string \<Rightarrow> 'w go_method list \<Rightarrow> 'w Service" where
  "MakeService name meths =
     \<lparr>svc_name = name,
      svc_methods = foldl (\<lambda>m meth. if suitable meth then AList.update (gm_name meth) (gm_func meth) m else m) [] meths\<rparr>"

definition Service_dispatch :: "string \<Rightarrow> reqMsg \<Rightarrow> 'w Service \<Rightarrow> 'w \<Rightarrow> ('w \<times> replyMsg) go" where
  "Service_dispatch methname req svc w =
     (case map_of (svc_methods svc) methname of
        Some meth \<Rightarrow> (case meth (req_args req) w of (w, rb) \<Rightarrow> Ret (w, \<lparr>rep_ok = True, rep_reply = rb\<rparr>))
      | None \<Rightarrow> Fatal)"

text \<open>\<open>strings.LastIndex\<close> and the two slices; without a dot the slice \<open>[:-1]\<close> panics.\<close>

fun LastIndex :: "string \<Rightarrow> char \<Rightarrow> int" where
  "LastIndex [] c = -1"
| "LastIndex (x # xs) c = (let i = LastIndex xs c in if i \<ge> 0 then i + 1 else if x = c then 0 else -1)"

definition split_svcMeth :: "string \<Rightarrow> (string \<times> string) go" where
  "split_svcMeth s =
     (let dot = LastIndex s (CHR ''.'')
      in if dot < 0 then Panic else Ret (take (nat dot) s, drop (nat dot + 1) s))"

definition Server_dispatch :: "reqMsg \<Rightarrow> 'w Server \<Rightarrow> 'w \<Rightarrow> ('w Server \<times> 'w \<times> replyMsg) go" where
  "Server_dispatch req rs w =
     (let rs = rs\<lparr>rs_count := rs_count rs + 1\<rparr>
      in go_bind (split_svcMeth (req_svcMeth req)) (\<lambda>(serviceName, methodName).
           case map_of (rs_services rs) serviceName of
             Some service \<Rightarrow> go_bind (Service_dispatch methodName req service w) (\<lambda>(w, r). Ret (rs, w, r))
           | None \<Rightarrow> Fatal))"

section \<open>The network\<close>

text \<open>
  \<open>servers\<close> holds addresses, \<open>None\<close> being nil; \<open>store\<close> has the servers at their addresses and \<open>world\<close>
  the state of the receivers.
\<close>

record 'w Network =
  reliable :: bool
  longDelays :: bool
  longReordering :: bool
  ends :: "(string, unit) gomap"
  enabled :: "(string, bool) gomap"
  servers :: "(string, nat option) gomap"
  connections :: "(string, string option) gomap"
  net_done :: bool
  net_count :: "32 word"
  net_bytes :: "64 word"
  store :: "nat \<Rightarrow> 'w Server"
  world :: 'w

definition MakeNetwork :: "(nat \<Rightarrow> 'w Server) \<Rightarrow> 'w \<Rightarrow> 'w Network" where
  "MakeNetwork st w = \<lparr>reliable = True, longDelays = False, longReordering = False, ends = [], enabled = [],
     servers = [], connections = [], net_done = False, net_count = 0, net_bytes = 0, store = st, world = w\<rparr>"

definition Cleanup :: "'w Network \<Rightarrow> 'w Network" where
  "Cleanup rn = rn\<lparr>net_done := True\<rparr>"

definition Reliable :: "bool \<Rightarrow> 'w Network \<Rightarrow> 'w Network" where
  "Reliable yes rn = rn\<lparr>reliable := yes\<rparr>"

definition IsReliable :: "'w Network \<Rightarrow> bool" where
  "IsReliable rn = reliable rn"

definition LongReordering :: "bool \<Rightarrow> 'w Network \<Rightarrow> 'w Network" where
  "LongReordering yes rn = rn\<lparr>longReordering := yes\<rparr>"

definition LongDelays :: "bool \<Rightarrow> 'w Network \<Rightarrow> 'w Network" where
  "LongDelays yes rn = rn\<lparr>longDelays := yes\<rparr>"

definition IsLongDelays :: "'w Network \<Rightarrow> bool" where
  "IsLongDelays rn = longDelays rn"

text \<open>A missing entry of a Go map reads as the zero value: \<open>false\<close> or nil.\<close>

definition is_enabled :: "string \<Rightarrow> 'w Network \<Rightarrow> bool" where
  "is_enabled e rn = (case map_of (enabled rn) e of Some b \<Rightarrow> b | None \<Rightarrow> False)"

definition server_ptr :: "string \<Rightarrow> 'w Network \<Rightarrow> nat option" where
  "server_ptr s rn = (case map_of (servers rn) s of Some p \<Rightarrow> p | None \<Rightarrow> None)"

definition connection :: "string \<Rightarrow> 'w Network \<Rightarrow> string option" where
  "connection e rn = (case map_of (connections rn) e of Some s \<Rightarrow> s | None \<Rightarrow> None)"

definition readEndnameInfo :: "string \<Rightarrow> 'w Network \<Rightarrow> bool \<times> string option \<times> nat option \<times> bool \<times> bool" where
  "readEndnameInfo e rn =
     (is_enabled e rn, connection e rn,
      (case connection e rn of Some s \<Rightarrow> server_ptr s rn | None \<Rightarrow> None),
      reliable rn, longReordering rn)"

definition isServerDead :: "string \<Rightarrow> string \<Rightarrow> nat \<Rightarrow> 'w Network \<Rightarrow> bool" where
  "isServerDead e s server rn =
     (if is_enabled e rn = False \<or> server_ptr s rn \<noteq> Some server then True else False)"

definition MakeEnd :: "string \<Rightarrow> 'w Network \<Rightarrow> 'w Network go" where
  "MakeEnd e rn =
     (if map_of (ends rn) e \<noteq> None then Fatal
      else Ret (rn\<lparr>ends := AList.update e () (ends rn), enabled := AList.update e False (enabled rn),
                  connections := AList.update e None (connections rn)\<rparr>))"

definition DeleteEnd :: "string \<Rightarrow> 'w Network \<Rightarrow> 'w Network go" where
  "DeleteEnd e rn =
     (if map_of (ends rn) e = None then Fatal
      else Ret (rn\<lparr>ends := AList.delete e (ends rn), enabled := AList.delete e (enabled rn),
                  connections := AList.delete e (connections rn)\<rparr>))"

definition AddServer :: "string \<Rightarrow> nat \<Rightarrow> 'w Network \<Rightarrow> 'w Network" where
  "AddServer s rs rn = rn\<lparr>servers := AList.update s (Some rs) (servers rn)\<rparr>"

definition DeleteServer :: "string \<Rightarrow> 'w Network \<Rightarrow> 'w Network" where
  "DeleteServer s rn = rn\<lparr>servers := AList.update s None (servers rn)\<rparr>"

definition Connect :: "string \<Rightarrow> string \<Rightarrow> 'w Network \<Rightarrow> 'w Network" where
  "Connect e s rn = rn\<lparr>connections := AList.update e (Some s) (connections rn)\<rparr>"

definition Enable :: "string \<Rightarrow> bool \<Rightarrow> 'w Network \<Rightarrow> 'w Network" where
  "Enable e b rn = rn\<lparr>enabled := AList.update e b (enabled rn)\<rparr>"

text \<open>\<open>GetCount\<close> of a server that is gone locks the mutex of a nil pointer.\<close>

definition GetCount :: "string \<Rightarrow> 'w Network \<Rightarrow> int go" where
  "GetCount s rn = (case server_ptr s rn of Some p \<Rightarrow> Ret (rs_count (store rn p)) | None \<Rightarrow> Panic)"

definition GetTotalCount :: "'w Network \<Rightarrow> int" where
  "GetTotalCount rn = sint (net_count rn)"

definition GetTotalBytes :: "'w Network \<Rightarrow> int" where
  "GetTotalBytes rn = sint (net_bytes rn)"

section \<open>The fate of a request\<close>

text \<open>
  The goroutine of \<open>MakeNetwork\<close> counts a request and starts \<open>processReq\<close> on it. Its first stage looks
  the end up: the request is answered by a time-out, dropped, or executed by the server found now.
  \<open>rnd\<close> is a random number; a request is dropped when it is below 100 modulo 1000.
\<close>

definition accept :: "reqMsg \<Rightarrow> 'w Network \<Rightarrow> 'w Network" where
  "accept xreq rn = rn\<lparr>net_count := net_count rn + 1, net_bytes := net_bytes rn + of_nat (length (req_args xreq))\<rparr>"

datatype fate = Timeout | Dropped | Execute string nat bool bool

definition processReq_start :: "int \<Rightarrow> reqMsg \<Rightarrow> 'w Network \<Rightarrow> fate" where
  "processReq_start rnd req rn =
     (case readEndnameInfo (req_endname req) rn of
        (True, Some servername, Some server, rel, longreordering) \<Rightarrow>
          if rel = False \<and> rnd mod 1000 < 100 then Dropped
          else Execute servername server rel longreordering
      | _ \<Rightarrow> Timeout)"

definition processReq_exec :: "reqMsg \<Rightarrow> nat \<Rightarrow> 'w Network \<Rightarrow> ('w Network \<times> replyMsg) go" where
  "processReq_exec req server rn =
     go_bind (Server_dispatch req (store rn server) (world rn)) (\<lambda>(rs, w, r).
       Ret (rn\<lparr>store := (store rn)(server := rs), world := w\<rparr>, r))"

definition failed :: replyMsg where
  "failed = \<lparr>rep_ok = False, rep_reply = []\<rparr>"

text \<open>
  The last stage: \<open>r\<close> is the handler's reply if it has returned (\<open>replyOK\<close>); the wait also ends when
  the server is found dead. A reply delayed by \<open>longreordering\<close> is the same reply, later.
\<close>

definition processReq_finish ::
  "int \<Rightarrow> reqMsg \<Rightarrow> string \<Rightarrow> nat \<Rightarrow> bool \<Rightarrow> replyMsg option \<Rightarrow> 'w Network \<Rightarrow> 'w Network \<times> replyMsg" where
  "processReq_finish rnd req servername server rel r rn =
     (let serverDead = isServerDead (req_endname req) servername server rn
      in case r of
           Some rep \<Rightarrow>
             if serverDead = True then (rn, failed)
             else if rel = False \<and> rnd mod 1000 < 100 then (rn, failed)
             else (rn\<lparr>net_bytes := net_bytes rn + of_nat (length (rep_reply rep))\<rparr>, rep)
         | None \<Rightarrow> (rn, failed))"

text \<open>The stages in a row, when nothing else happens meanwhile.\<close>

definition processReq :: "int \<Rightarrow> int \<Rightarrow> reqMsg \<Rightarrow> 'w Network \<Rightarrow> ('w Network \<times> replyMsg) go" where
  "processReq rnd rnd' req rn =
     (case processReq_start rnd req rn of
        Timeout \<Rightarrow> Ret (rn, failed)
      | Dropped \<Rightarrow> Ret (rn, failed)
      | Execute servername server rel longreordering \<Rightarrow>
          go_bind (processReq_exec req server rn) (\<lambda>(rn, r).
            Ret (processReq_finish rnd' req servername server rel (Some r) rn)))"

definition Call ::
  "('a \<Rightarrow> bytes option) \<Rightarrow> (bytes \<Rightarrow> 'r option) \<Rightarrow> int \<Rightarrow> int \<Rightarrow> string \<Rightarrow> string \<Rightarrow> 'a \<Rightarrow> 'w Network \<Rightarrow>
   ('w Network \<times> 'r option) go" where
  "Call enc dec rnd rnd' e meth a rn =
     (case enc a of
        None \<Rightarrow> Panic
      | Some qb \<Rightarrow>
          let req = \<lparr>req_endname = e, req_svcMeth = meth, req_args = qb\<rparr>
          in if net_done rn then Ret (rn, None)
             else go_bind (processReq rnd rnd' req (accept req rn)) (\<lambda>(rn, rep).
               if rep_ok rep
               then (case dec (rep_reply rep) of None \<Rightarrow> Fatal | Some x \<Rightarrow> Ret (rn, Some x))
               else Ret (rn, None)))"

section \<open>Interleaved calls\<close>

text \<open>
  Several calls at once, in any interleaving with each other and with the management operations
  (enabling, connecting, deleting and replacing servers, making the network unreliable). A call is sent,
  then waits for its handler, and is answered at the end. \<open>handler\<close> is the goroutine that runs the
  method: it is started once and still runs when the call has given up on a dead server. \<open>runs\<close> records
  the replies that the handler of a call has produced.
\<close>

datatype stage = Sent reqMsg | Waiting reqMsg string nat bool "replyMsg option" | Answered replyMsg

record 'w rpc_net =
  net :: "'w Network"
  rpcs :: "nat \<rightharpoonup> stage"
  handler :: "nat \<rightharpoonup> reqMsg \<times> nat"
  runs :: "nat \<Rightarrow> replyMsg list"

inductive net_step :: "'w rpc_net \<Rightarrow> 'w rpc_net \<Rightarrow> bool" where
  send: "rpcs s c = None \<Longrightarrow> \<not> net_done (net s) \<Longrightarrow>
    net_step s (s\<lparr>net := accept req (net s), rpcs := (rpcs s)(c \<mapsto> Sent req)\<rparr>)"
| refuse: "rpcs s c = Some (Sent req) \<Longrightarrow> processReq_start rnd req (net s) \<in> {Timeout, Dropped} \<Longrightarrow>
    net_step s (s\<lparr>rpcs := (rpcs s)(c \<mapsto> Answered failed)\<rparr>)"
| begin_exec: "rpcs s c = Some (Sent req) \<Longrightarrow> processReq_start rnd req (net s) = Execute sn sv rel lr \<Longrightarrow>
    net_step s (s\<lparr>rpcs := (rpcs s)(c \<mapsto> Waiting req sn sv rel None), handler := (handler s)(c \<mapsto> (req, sv))\<rparr>)"
| handle: "handler s c = Some (req, sv) \<Longrightarrow> processReq_exec req sv (net s) = Ret (rn, r) \<Longrightarrow>
    net_step s (s\<lparr>net := rn, handler := (handler s)(c := None), runs := (runs s)(c := r # runs s c),
      rpcs := (case rpcs s c of
          Some (Waiting req sn sv rel None) \<Rightarrow> (rpcs s)(c \<mapsto> Waiting req sn sv rel (Some r)) | _ \<Rightarrow> rpcs s)\<rparr>)"
| give_up: "rpcs s c = Some (Waiting req sn sv rel None) \<Longrightarrow> isServerDead (req_endname req) sn sv (net s) \<Longrightarrow>
    processReq_finish rnd req sn sv rel None (net s) = (rn, rep) \<Longrightarrow>
    net_step s (s\<lparr>net := rn, rpcs := (rpcs s)(c \<mapsto> Answered rep)\<rparr>)"
| finish: "rpcs s c = Some (Waiting req sn sv rel (Some r)) \<Longrightarrow>
    processReq_finish rnd req sn sv rel (Some r) (net s) = (rn, rep) \<Longrightarrow>
    net_step s (s\<lparr>net := rn, rpcs := (rpcs s)(c \<mapsto> Answered rep)\<rparr>)"
| manage: "store rn = store (net s) \<Longrightarrow> world rn = world (net s) \<Longrightarrow> net_step s (s\<lparr>net := rn\<rparr>)"

inductive net_reach :: "'w Network \<Rightarrow> 'w rpc_net \<Rightarrow> bool" for rn where
  fresh: "net_reach rn \<lparr>net = rn, rpcs = Map.empty, handler = Map.empty, runs = (\<lambda>c. [])\<rparr>"
| later: "net_reach rn s \<Longrightarrow> net_step s s' \<Longrightarrow> net_reach rn s'"

definition call_inv :: "stage option \<Rightarrow> (reqMsg \<times> nat) option \<Rightarrow> replyMsg list \<Rightarrow> bool" where
  "call_inv st h rs \<longleftrightarrow> (case st of
      None \<Rightarrow> h = None \<and> rs = []
    | Some (Sent req) \<Rightarrow> h = None \<and> rs = []
    | Some (Waiting req sn sv rel None) \<Rightarrow> h \<noteq> None \<and> rs = []
    | Some (Waiting req sn sv rel (Some r)) \<Rightarrow> h = None \<and> rs = [r]
    | Some (Answered rep) \<Rightarrow> (h \<noteq> None \<longrightarrow> rs = []) \<and> length rs \<le> 1 \<and> (rep_ok rep \<longrightarrow> rs = [rep]))"

lemma failed_not_ok [simp]: "\<not> rep_ok failed"
  by (simp add: failed_def)

lemma finish_cases:
  "processReq_finish rnd req sn sv rel r rn = (rn', rep) \<Longrightarrow> rep = failed \<or> r = Some rep"
  by (auto simp: processReq_finish_def Let_def split: option.splits if_splits)

lemma call_inv_step:
  "net_step s s' \<Longrightarrow> call_inv (rpcs s c) (handler s c) (runs s c) \<Longrightarrow> call_inv (rpcs s' c) (handler s' c) (runs s' c)"
proof (induction rule: net_step.induct)
  case (handle s d req sv rn r)
  then show ?case
  proof (cases "d = c")
    case True
    with handle show ?thesis by (auto simp: call_inv_def split: option.splits stage.splits)
  next
    case False
    then have "(case rpcs s d of Some (Waiting req sn sv rel None) \<Rightarrow>
        (rpcs s)(d \<mapsto> Waiting req sn sv rel (Some r)) | _ \<Rightarrow> rpcs s) c = rpcs s c"
      by (auto split: option.splits stage.splits)
    with handle False show ?thesis by simp
  qed
next
  case (give_up s d req sn sv rel rnd rn rep)
  then show ?case by (auto simp: call_inv_def dest: finish_cases)
next
  case (finish s d req sn sv rel r rnd rn rep)
  then show ?case by (auto simp: call_inv_def dest!: finish_cases)
qed (auto simp: call_inv_def)

lemma net_reach_inv: "net_reach rn s \<Longrightarrow> call_inv (rpcs s c) (handler s c) (runs s c)"
proof (induction rule: net_reach.induct)
  case fresh
  show ?case by (simp add: call_inv_def)
next
  case (later s s')
  then show ?case by (blast intro: call_inv_step)
qed

section \<open>Names of methods\<close>

lemma LastIndex_ge: "LastIndex s c \<ge> -1"
  by (induction s) (auto simp: Let_def)

lemma LastIndex_append:
  "c \<notin> set b \<Longrightarrow> LastIndex (a @ c # b) c = int (length a)"
proof (induction a)
  case Nil
  then have "LastIndex b c = -1" by (induction b) auto
  then show ?case by simp
qed (simp add: Let_def)

lemma split_svcMeth_eq:
  "CHR ''.'' \<notin> set m \<Longrightarrow> split_svcMeth (svc @ ''.'' @ m) = Ret (svc, m)"
  using LastIndex_append [of "CHR ''.''" m svc] by (simp add: split_svcMeth_def)

section \<open>One call on its own\<close>

lemma accept_simps [simp]:
  "is_enabled e (accept req rn) = is_enabled e rn" "connection e (accept req rn) = connection e rn"
  "server_ptr s (accept req rn) = server_ptr s rn" "reliable (accept req rn) = reliable rn"
  "longReordering (accept req rn) = longReordering rn" "store (accept req rn) = store rn"
  "world (accept req rn) = world rn"
  by (simp_all add: accept_def is_enabled_def connection_def server_ptr_def)

lemma runs_simps [simp]:
  "is_enabled e (rn\<lparr>store := st, world := w\<rparr>) = is_enabled e rn"
  "server_ptr s (rn\<lparr>store := st, world := w\<rparr>) = server_ptr s rn"
  by (simp_all add: is_enabled_def server_ptr_def)

lemma Call_refused_eq:
  assumes "enc a = Some qb" and "\<not> net_done rn"
    and "\<not> is_enabled e rn \<or> connection e rn = None \<or> (\<exists>s. connection e rn = Some s \<and> server_ptr s rn = None)"
  shows "Call enc dec r r' e meth a rn =
    Ret (accept \<lparr>req_endname = e, req_svcMeth = meth, req_args = qb\<rparr> rn, None)"
proof -
  let ?req = "\<lparr>req_endname = e, req_svcMeth = meth, req_args = qb\<rparr>"
  have "processReq_start r ?req (accept ?req rn) = Timeout"
    using assms(3) by (auto simp: processReq_start_def readEndnameInfo_def split: option.splits bool.splits)
  then show ?thesis
    using assms(1,2) by (simp add: Call_def processReq_def failed_def)
qed

lemma Call_refused:
  assumes "enc a = Some qb" and "\<not> net_done rn"
    and "\<not> is_enabled e rn \<or> connection e rn = None \<or> (\<exists>s. connection e rn = Some s \<and> server_ptr s rn = None)"
  shows "\<exists>rn'. Call enc dec r r' e meth a rn = Ret (rn', None) \<and> world rn' = world rn"
  unfolding Call_refused_eq [of enc a, OF assms] by simp

lemma Call_served:
  assumes "enc a = Some qb" and "\<not> net_done rn" and "CHR ''.'' \<notin> set m"
    and L: "is_enabled e rn \<and> connection e rn = Some s \<and> server_ptr s rn = Some p \<and>
       map_of (rs_services (store rn p)) svc = Some svcrec \<and> map_of (svc_methods svcrec) m = Some meth \<and>
       dec (snd (meth qb (world rn))) \<noteq> None"
  shows "\<exists>rn' x. Call enc dec r r' e (svc @ ''.'' @ m) a rn = Ret (rn', x) \<and>
    (if \<not> reliable rn \<and> r mod 1000 < 100 then x = None \<and> world rn' = world rn
     else if \<not> reliable rn \<and> r' mod 1000 < 100 then x = None \<and> world rn' = fst (meth qb (world rn))
     else x = dec (snd (meth qb (world rn))) \<and> world rn' = fst (meth qb (world rn)))"
proof -
  define req where "req = \<lparr>req_endname = e, req_svcMeth = svc @ ''.'' @ m, req_args = qb\<rparr>"
  obtain w rb where mr: "meth qb (world rn) = (w, rb)" by force
  obtain x where x: "dec rb = Some x" using L mr by auto
  let ?rn = "(accept req rn)\<lparr>store := (store rn)(p := (store rn p)\<lparr>rs_count := rs_count (store rn p) + 1\<rparr>), world := w\<rparr>"
  have st: "processReq_start r req (accept req rn) =
      (if \<not> reliable rn \<and> r mod 1000 < 100 then Dropped else Execute s p (reliable rn) (longReordering rn))"
    using L by (simp add: processReq_start_def readEndnameInfo_def req_def)
  have ex: "processReq_exec req p (accept req rn) = Ret (?rn, \<lparr>rep_ok = True, rep_reply = rb\<rparr>)"
    using L mr split_svcMeth_eq [OF assms(3), of svc]
    by (simp add: processReq_exec_def Server_dispatch_def Service_dispatch_def req_def)
  have "\<not> isServerDead (req_endname req) s p ?rn"
    using L by (simp add: isServerDead_def req_def)
  then have "processReq r r' req (accept req rn) =
      (if \<not> reliable rn \<and> r mod 1000 < 100 then Ret (accept req rn, failed)
       else if \<not> reliable rn \<and> r' mod 1000 < 100 then Ret (?rn, failed)
       else Ret (?rn\<lparr>net_bytes := net_bytes ?rn + of_nat (length rb)\<rparr>, \<lparr>rep_ok = True, rep_reply = rb\<rparr>))"
    by (simp add: processReq_def st ex processReq_finish_def)
  moreover have "Call enc dec r r' e (svc @ ''.'' @ m) a rn =
      go_bind (processReq r r' req (accept req rn)) (\<lambda>(rn, rep).
        if rep_ok rep then (case dec (rep_reply rep) of None \<Rightarrow> Fatal | Some x \<Rightarrow> Ret (rn, Some x)) else Ret (rn, None))"
    using assms(1,2) by (simp add: Call_def req_def Let_def)
  ultimately show ?thesis
    using x mr by (simp add: failed_def)
qed

section \<open>Properties\<close>

text \<open>
  C15: a remote call is executed at most once, and a reply is genuine. In every reachable state of any
  number of calls interleaved with each other and with management operations, on a network that drops,
  delays and reorders: the handler of a call has run at most once; a call that returned with a reply had
  its handler run exactly once and got exactly the reply that run produced; and a call that was never
  handed to a server has not been executed. A call that failed may or may not have been executed.
\<close>

theorem call_at_most_once:
  assumes "net_reach rn s"
  shows "length (runs s c) \<le> 1 \<and>
    (\<forall>rep. rpcs s c = Some (Answered rep) \<and> rep_ok rep \<longrightarrow> runs s c = [rep]) \<and>
    (\<forall>req. rpcs s c = None \<or> rpcs s c = Some (Sent req) \<longrightarrow> runs s c = [])"
  using net_reach_inv [OF assms, of c]
  by (auto simp: call_inv_def split: option.splits stage.splits)

text \<open>A network with one server that doubles its argument and counts.\<close>

definition one_server :: "nat Network" where
  "one_server = Enable ''e'' True (Connect ''e'' ''s'' (AddServer ''s'' 3 (MakeNetwork
     (\<lambda>p. AddService \<lparr>svc_name = ''S'', svc_methods = [(''m'', \<lambda>qb w. (w + 1, qb @ qb))]\<rparr> MakeServer) 5)))"

theorem call_at_most_once_witness:
  "\<exists>s rep. net_reach one_server s \<and> rpcs s 4 = Some (Answered rep) \<and> rep_ok rep \<and> rep_reply rep = [7, 7] \<and> runs s 4 = [rep] \<and>
     world (net s) = 6"
proof -
  note rn_defs = one_server_def Enable_def Connect_def AddServer_def MakeNetwork_def AddService_def MakeServer_def
  let ?req = "\<lparr>req_endname = ''e'', req_svcMeth = ''S.m'', req_args = [7]\<rparr>" and ?rep = "\<lparr>rep_ok = True, rep_reply = [7, 7]\<rparr>"
  let ?rn = "accept ?req one_server"
  let ?s0 = "\<lparr>net = one_server, rpcs = Map.empty, handler = Map.empty, runs = (\<lambda>c. [])\<rparr>"
  let ?s1 = "?s0\<lparr>net := ?rn, rpcs := [4 \<mapsto> Sent ?req]\<rparr>"
  let ?s2 = "?s1\<lparr>rpcs := [4 \<mapsto> Waiting ?req ''s'' 3 True None], handler := [4 \<mapsto> (?req, 3)]\<rparr>"
  have 1: "net_reach one_server ?s1"
    using net_step.send [of ?s0 4 ?req] by (intro net_reach.later [OF net_reach.fresh]) (simp add: rn_defs)
  have "processReq_start 0 ?req (net ?s1) = Execute ''s'' 3 True False"
    by (simp add: processReq_start_def readEndnameInfo_def is_enabled_def connection_def server_ptr_def accept_def rn_defs)
  then have 2: "net_reach one_server ?s2"
    using net_step.begin_exec [of ?s1 4 ?req 0 "''s''" 3 True False] by (intro net_reach.later [OF 1]) simp
  obtain rn3 where rn3: "processReq_exec ?req 3 ?rn = Ret (rn3, ?rep)" "world rn3 = 6" "\<not> isServerDead ''e'' ''s'' 3 rn3"
    by (simp add: processReq_exec_def Server_dispatch_def Service_dispatch_def split_svcMeth_def isServerDead_def is_enabled_def
        server_ptr_def accept_def rn_defs)
  let ?s3 = "?s2\<lparr>net := rn3, handler := Map.empty, runs := (\<lambda>c. [])(4 := [?rep]), rpcs := [4 \<mapsto> Waiting ?req ''s'' 3 True (Some ?rep)]\<rparr>"
  have 3: "net_reach one_server ?s3"
    using net_step.handle [of ?s2 4 ?req 3 rn3 ?rep] rn3(1) by (intro net_reach.later [OF 2]) simp
  obtain rn4 where rn4: "processReq_finish 0 ?req ''s'' 3 True (Some ?rep) rn3 = (rn4, ?rep)" "world rn4 = 6"
    using rn3(2,3) by (simp add: processReq_finish_def)
  let ?s4 = "?s3\<lparr>net := rn4, rpcs := [4 \<mapsto> Answered ?rep]\<rparr>"
  have 4: "net_reach one_server ?s4"
    using net_step.finish [of ?s3 4 ?req "''s''" 3 True ?rep 0 rn4 ?rep] rn4(1) by (intro net_reach.later [OF 3]) simp
  have "rpcs ?s4 4 = Some (Answered ?rep) \<and> rep_ok ?rep" by simp
  with call_at_most_once [OF 4, of 4] have "runs ?s4 4 = [?rep]" by blast
  with 4 rn4(2) show ?thesis by (intro exI [of _ ?s4] exI [of _ ?rep]) simp
qed

text \<open>
  C17: when nothing interferes, what a call does is decided by the end point. A call through an end that
  is not enabled, not connected, or connected to a deleted server returns without a reply, and no
  handler runs. A call through an enabled end connected to a live server runs the method named
  \<open>service.method\<close> once: on a reliable network the caller gets the decoded reply, on an unreliable one
  it gets the reply unless the request (then the handler does not run) or the reply (then it has run)
  is dropped.
\<close>

theorem Call_outcome:
  fixes rn :: "'w Network"
  assumes "enc a = Some qb" and "\<not> net_done rn" and "CHR ''.'' \<notin> set m"
  shows "(\<not> is_enabled e rn \<or> connection e rn = None \<or>
       (\<exists>s. connection e rn = Some s \<and> server_ptr s rn = None) \<longrightarrow>
       (\<exists>rn'. Call enc dec r r' e (svc @ ''.'' @ m) a rn = Ret (rn', None) \<and> world rn' = world rn)) \<and>
    (\<forall>s p svcrec meth. is_enabled e rn \<and> connection e rn = Some s \<and> server_ptr s rn = Some p \<and>
       map_of (rs_services (store rn p)) svc = Some svcrec \<and> map_of (svc_methods svcrec) m = Some meth \<and>
       dec (snd (meth qb (world rn))) \<noteq> None \<longrightarrow>
       (\<exists>rn' x. Call enc dec r r' e (svc @ ''.'' @ m) a rn = Ret (rn', x) \<and>
          (if \<not> reliable rn \<and> r mod 1000 < 100 then x = None \<and> world rn' = world rn
           else if \<not> reliable rn \<and> r' mod 1000 < 100 then x = None \<and> world rn' = fst (meth qb (world rn))
           else x = dec (snd (meth qb (world rn))) \<and> world rn' = fst (meth qb (world rn)))))"
proof (intro conjI allI impI, goal_cases)
  case 1
  then show ?case by (rule Call_refused [of enc a, OF assms(1,2)])
next
  case (2 s p svcrec meth)
  then show ?case by (rule Call_served [of enc a, OF assms])
qed

theorem Call_outcome_witness:
  "\<exists>rn' x. Call (\<lambda>b :: bytes. Some b) Some 0 0 ''e'' ''S.m'' [7]
     (Enable ''e'' True (Connect ''e'' ''s'' (AddServer ''s'' 3 (MakeNetwork
        (\<lambda>p. AddService \<lparr>svc_name = ''S'', svc_methods = [(''m'', \<lambda>qb w. (w + 1, qb @ qb))]\<rparr> MakeServer) (5 :: nat))))) =
     Ret (rn', x) \<and> x = Some [7, 7] \<and> world rn' = 6"
proof -
  let ?rn = "Enable ''e'' True (Connect ''e'' ''s'' (AddServer ''s'' 3 (MakeNetwork
    (\<lambda>p. AddService \<lparr>svc_name = ''S'', svc_methods = [(''m'', \<lambda>qb w. (w + 1, qb @ qb))]\<rparr> MakeServer) (5 :: nat))))"
  have "is_enabled ''e'' ?rn \<and> connection ''e'' ?rn = Some ''s'' \<and> server_ptr ''s'' ?rn = Some 3 \<and>
      map_of (rs_services (store ?rn 3)) ''S'' = Some \<lparr>svc_name = ''S'', svc_methods = [(''m'', \<lambda>qb w. (w + 1, qb @ qb))]\<rparr> \<and>
      map_of (svc_methods \<lparr>svc_name = ''S'', svc_methods = [(''m'', \<lambda>qb w. (w + 1 :: nat, qb @ qb))]\<rparr>) ''m'' =
        Some (\<lambda>qb w. (w + 1, qb @ qb)) \<and> Some (snd ([7 :: 8 word] @ [7], 6 :: nat)) \<noteq> None"
    by (simp add: is_enabled_def connection_def server_ptr_def Enable_def Connect_def AddServer_def
        MakeNetwork_def AddService_def MakeServer_def)
  moreover have "\<not> net_done ?rn" "reliable ?rn" "world ?rn = 5"
    by (simp_all add: Enable_def Connect_def AddServer_def MakeNetwork_def)
  ultimately show ?thesis
    using Call_outcome [of "\<lambda>b :: bytes. Some b" "[7]" "[7]" ?rn "''m''" "''e''" Some 0 0 "''S''"] by fastforce
qed

end
