(* ===== verification/KvNet.thy ===== *)
theory KvNet
  imports KvHistory LabRpc
begin

text \<open>
  The key/value service on the simulated network. Clients call the server through end points of \<open>labrpc\<close>: a call is
  encoded, sent, and goes through the stages of \<open>processReq\<close> while tests connect, disconnect and disturb the network;
  the server is the service that \<open>MakeService\<close> makes of \<open>kvsrv1\<close>'s \<open>KVServer\<close>. This system refines the abstract one of
  \<open>KvClerk\<close>, so what is proved there of clerks, locks and histories holds over the network. The \<open>labgob\<close> codec is an
  argument; all the code relies on is that decoding gives back what was encoded.
\<close>

section \<open>The server as a service\<close>

record kv_codec =
  cd_GetArgs :: "GetArgs \<Rightarrow> bytes"
  cd_GetArgs' :: "bytes \<Rightarrow> GetArgs"
  cd_PutArgs :: "PutArgs \<Rightarrow> bytes"
  cd_PutArgs' :: "bytes \<Rightarrow> PutArgs"
  cd_GetReply :: "GetReply \<Rightarrow> bytes"
  cd_GetReply' :: "bytes \<Rightarrow> GetReply"
  cd_PutReply :: "PutReply \<Rightarrow> bytes"
  cd_PutReply' :: "bytes \<Rightarrow> PutReply"

definition codec_inverse :: "kv_codec \<Rightarrow> bool" where
  "codec_inverse cd \<longleftrightarrow> (\<forall>a. cd_GetArgs' cd (cd_GetArgs cd a) = a) \<and> (\<forall>a. cd_PutArgs' cd (cd_PutArgs cd a) = a) \<and>
     (\<forall>r. cd_GetReply' cd (cd_GetReply cd r) = r) \<and> (\<forall>r. cd_PutReply' cd (cd_PutReply cd r) = r)"

text \<open>The methods of \<open>*KVServer\<close>, in the order in which reflection lists them. \<open>Kill\<close> has no arguments.\<close>

definition KVServer_methods :: "kv_codec \<Rightarrow> KVServer go_method list" where
  "KVServer_methods cd =
     [\<lparr>gm_name = ''Get'', gm_exported = True, gm_NumIn = 3, gm_ptr2 = True, gm_NumOut = 0,
       gm_func = (\<lambda>b kv. case KVServer_Get kv (cd_GetArgs' cd b) of (kv, r) \<Rightarrow> (kv, cd_GetReply cd r))\<rparr>,
      \<lparr>gm_name = ''Kill'', gm_exported = True, gm_NumIn = 1, gm_ptr2 = False, gm_NumOut = 0, gm_func = (\<lambda>b kv. (kv, []))\<rparr>,
      \<lparr>gm_name = ''Put'', gm_exported = True, gm_NumIn = 3, gm_ptr2 = True, gm_NumOut = 0,
       gm_func = (\<lambda>b kv. case KVServer_Put kv (cd_PutArgs' cd b) of (kv, r) \<Rightarrow> (kv, cd_PutReply cd r))\<rparr>]"

definition StartKVServer :: "kv_codec \<Rightarrow> KVServer \<times> KVServer Service list" where
  "StartKVServer cd = (MakeKVServer, [MakeService ''KVServer'' (KVServer_methods cd)])"

text \<open>What a clerk sends and how it reads the reply.\<close>

fun kv_wire :: "kv_codec \<Rightarrow> string \<Rightarrow> KvReq \<Rightarrow> reqMsg" where
  "kv_wire cd e (ReqGet a) = \<lparr>req_endname = e, req_svcMeth = ''KVServer.Get'', req_args = cd_GetArgs cd a\<rparr>"
| "kv_wire cd e (ReqPut a) = \<lparr>req_endname = e, req_svcMeth = ''KVServer.Put'', req_args = cd_PutArgs cd a\<rparr>"

fun kv_read :: "kv_codec \<Rightarrow> KvReq \<Rightarrow> replyMsg \<Rightarrow> KvRep" where
  "kv_read cd (ReqGet a) rep = RepGet (cd_GetReply' cd (rep_reply rep))"
| "kv_read cd (ReqPut a) rep = RepPut (cd_PutReply' cd (rep_reply rep))"

definition is_kv_server :: "kv_codec \<Rightarrow> KVServer Server \<Rightarrow> bool" where
  "is_kv_server cd rs \<longleftrightarrow> map_of (rs_services rs) ''KVServer'' = Some (MakeService ''KVServer'' (KVServer_methods cd))"

lemma AddService_kv: "is_kv_server cd (AddService (hd (snd (StartKVServer cd))) rs)"
  by (simp add: is_kv_server_def AddService_def StartKVServer_def MakeService_def update_conv')

lemma kv_methods:
  "map_of (svc_methods (MakeService ''KVServer'' (KVServer_methods cd))) =
     [''Get'' \<mapsto> (\<lambda>b kv. case KVServer_Get kv (cd_GetArgs' cd b) of (kv, r) \<Rightarrow> (kv, cd_GetReply cd r)),
      ''Put'' \<mapsto> (\<lambda>b kv. case KVServer_Put kv (cd_PutArgs' cd b) of (kv, r) \<Rightarrow> (kv, cd_PutReply cd r))]"
  by (auto simp: MakeService_def KVServer_methods_def suitable_def)

lemma kv_exec:
  assumes "codec_inverse cd" and "is_kv_server cd (store rn sv)" and "processReq_exec (kv_wire cd e q) sv rn = Ret (rn', r)"
  shows "rep_ok r \<and> KVServer_serve (world rn) q = (world rn', kv_read cd q r) \<and>
    (\<forall>p. is_kv_server cd (store rn p) \<longrightarrow> is_kv_server cd (store rn' p))"
proof -
  have split: "split_svcMeth ''KVServer.Get'' = Ret (''KVServer'', ''Get'')" "split_svcMeth ''KVServer.Put'' = Ret (''KVServer'', ''Put'')"
    by (simp_all add: split_svcMeth_def)
  show ?thesis
    using assms
    by (cases q) (auto simp: processReq_exec_def Server_dispatch_def Service_dispatch_def split kv_methods is_kv_server_def go_simps
        codec_inverse_def Let_def split_beta)
qed
lemma kv_exec_returns:
  assumes "is_kv_server cd (store rn sv)"
  shows "\<exists>st w r. processReq_exec (kv_wire cd e q) sv rn = Ret (rn\<lparr>store := st, world := w\<rparr>, r)"
proof -
  have "\<exists>rs w r. Server_dispatch (kv_wire cd e q) (store rn sv) (world rn) = Ret (rs, w, r)"
    using assms
    by (cases q) (auto simp: Server_dispatch_def Service_dispatch_def split_svcMeth_def kv_methods is_kv_server_def Let_def split_beta)
  then show ?thesis unfolding processReq_exec_def by fastforce
qed

section \<open>Clients on the network\<close>

text \<open>
  \<open>kn_net\<close> is the network with its calls in their stages; \<open>kn_wait\<close> the call that a client waits for. Two components
  are for the proofs: \<open>kn_owner\<close> remembers whose call it is and what was asked, and \<open>kn_execs\<close> counts the executions
  of handlers. Client \<open>c\<close> uses the end point \<open>ep c\<close>; \<open>request\<close>, \<open>resume\<close> and \<open>act\<close> are the client program, as in \<open>rpc_step\<close>.
\<close>

record 'c kv_net =
  kn_net :: "KVServer rpc_net"
  kn_loc :: "nat \<Rightarrow> 'c"
  kn_wait :: "nat \<rightharpoonup> nat"
  kn_next :: nat
  kn_owner :: "nat \<rightharpoonup> nat \<times> KvReq"
  kn_execs :: nat

inductive knet_step ::
  "kv_codec \<Rightarrow> (nat \<Rightarrow> string) \<Rightarrow> (nat \<Rightarrow> 'c \<Rightarrow> KvReq option) \<Rightarrow> (nat \<Rightarrow> 'c \<Rightarrow> KvRep call \<Rightarrow> 'c) \<Rightarrow>
   (nat \<Rightarrow> 'c \<Rightarrow> 'c \<Rightarrow> bool) \<Rightarrow> 'c kv_net \<Rightarrow> 'c kv_net \<Rightarrow> bool"
  for cd ep request resume act where
  call: "kn_wait s c = None \<Longrightarrow> request c (kn_loc s c) = Some q \<Longrightarrow> \<not> net_done (net (kn_net s)) \<Longrightarrow>
    knet_step cd ep request resume act s
      (s\<lparr>kn_net := (kn_net s)\<lparr>net := accept (kv_wire cd (ep c) q) (net (kn_net s)),
                              rpcs := (rpcs (kn_net s))(kn_next s \<mapsto> Sent (kv_wire cd (ep c) q))\<rparr>,
         kn_wait := (kn_wait s)(c \<mapsto> kn_next s), kn_owner := (kn_owner s)(kn_next s \<mapsto> (c, q)), kn_next := Suc (kn_next s)\<rparr>)"
| closed: "kn_wait s c = None \<Longrightarrow> request c (kn_loc s c) = Some q \<Longrightarrow> net_done (net (kn_net s)) \<Longrightarrow>
    knet_step cd ep request resume act s
      (s\<lparr>kn_loc := (kn_loc s)(c := resume c (kn_loc s c) CallFail), kn_next := Suc (kn_next s)\<rparr>)"
| network: "net_step (kn_net s) n' \<Longrightarrow> dom (rpcs n') = dom (rpcs (kn_net s)) \<Longrightarrow>
    knet_step cd ep request resume act s
      (s\<lparr>kn_net := n', kn_execs := (if runs n' = runs (kn_net s) then kn_execs s else Suc (kn_execs s))\<rparr>)"
| return: "kn_wait s c = Some i \<Longrightarrow> rpcs (kn_net s) i = Some (Answered rep) \<Longrightarrow> kn_owner s i = Some (c, q) \<Longrightarrow>
    knet_step cd ep request resume act s
      (s\<lparr>kn_wait := (kn_wait s)(c := None),
         kn_loc := (kn_loc s)(c := resume c (kn_loc s c) (if rep_ok rep then CallOk (kv_read cd q rep) else CallFail))\<rparr>)"
| local: "kn_wait s c = None \<Longrightarrow> act c (kn_loc s c) l' \<Longrightarrow>
    knet_step cd ep request resume act s (s\<lparr>kn_loc := (kn_loc s)(c := l')\<rparr>)"

section \<open>The simulation\<close>

text \<open>What holds of the network alone.\<close>

definition owned :: "kv_codec \<Rightarrow> (nat \<Rightarrow> string) \<Rightarrow> 'c kv_net \<Rightarrow> nat \<Rightarrow> reqMsg \<Rightarrow> bool" where
  "owned cd ep s i req \<longleftrightarrow> (\<exists>c q. kn_owner s i = Some (c, q) \<and> req = kv_wire cd (ep c) q)"

definition knet_ok :: "kv_codec \<Rightarrow> (nat \<Rightarrow> string) \<Rightarrow> 'c kv_net \<Rightarrow> bool" where
  "knet_ok cd ep s \<longleftrightarrow>
     (\<forall>i. call_inv (rpcs (kn_net s) i) (handler (kn_net s) i) (runs (kn_net s) i)) \<and>
     (\<forall>i \<ge> kn_next s. rpcs (kn_net s) i = None) \<and>
     (\<forall>c i. kn_wait s c = Some i \<longrightarrow> (\<exists>q. kn_owner s i = Some (c, q)) \<and> rpcs (kn_net s) i \<noteq> None) \<and>
     (\<forall>i req. rpcs (kn_net s) i = Some (Sent req) \<longrightarrow> owned cd ep s i req) \<and>
     (\<forall>i req sv. handler (kn_net s) i = Some (req, sv) \<longrightarrow> owned cd ep s i req) \<and>
     (\<forall>p. is_kv_server cd (store (net (kn_net s)) p))"

lemma knet_okD:
  assumes "knet_ok cd ep s"
  shows "call_inv (rpcs (kn_net s) i) (handler (kn_net s) i) (runs (kn_net s) i)"
    and "kn_next s \<le> i \<Longrightarrow> rpcs (kn_net s) i = None"
    and "kn_wait s c = Some i \<Longrightarrow> \<exists>q. kn_owner s i = Some (c, q)"
    and "kn_wait s c = Some i \<Longrightarrow> rpcs (kn_net s) i \<noteq> None"
    and "rpcs (kn_net s) i = Some (Sent req) \<Longrightarrow> owned cd ep s i req"
    and "handler (kn_net s) i = Some (req, sv) \<Longrightarrow> owned cd ep s i req"
    and "is_kv_server cd (store (net (kn_net s)) p)"
  using assms unfolding knet_ok_def by blast+

text \<open>The requests that the server has still to execute, and the reply that a client's call has got so far.\<close>

definition in_flight :: "'c kv_net \<Rightarrow> (nat \<times> nat \<times> KvReq) set" where
  "in_flight s = {(c, i, q). kn_owner s i = Some (c, q) \<and>
     ((\<exists>req. rpcs (kn_net s) i = Some (Sent req)) \<or> handler (kn_net s) i \<noteq> None)}"

definition got_reply :: "kv_codec \<Rightarrow> 'c kv_net \<Rightarrow> nat \<Rightarrow> KvRep option" where
  "got_reply cd s i =
     (case (runs (kn_net s) i, kn_owner s i) of (r # rs, Some (c, q)) \<Rightarrow> Some (kv_read cd q r) | _ \<Rightarrow> None)"

definition simulates :: "kv_codec \<Rightarrow> 'c kv_net \<Rightarrow> 'c rpc_sys \<Rightarrow> bool" where
  "simulates cd s a \<longleftrightarrow> srv a = world (net (kn_net s)) \<and> loc a = kn_loc s \<and> nextid a = kn_next s \<and>
     length (served a) = kn_execs s \<and> in_flight s \<subseteq> pool a \<and>
     (\<forall>c. wait a c = map_option (\<lambda>i. (i, got_reply cd s i)) (kn_wait s c))"

text \<open>Up to two steps of the abstract system.\<close>

definition follows :: "('c rpc_sys \<Rightarrow> 'c rpc_sys \<Rightarrow> bool) \<Rightarrow> 'c rpc_sys \<Rightarrow> 'c rpc_sys \<Rightarrow> bool" where
  "follows R a a' \<longleftrightarrow> a' = a \<or> R a a' \<or> (\<exists>b. R a b \<and> R b a')"

lemma follows_reach:
  assumes "follows R a a'" and "P m a" and "\<And>n b b'. P n b \<Longrightarrow> R b b' \<Longrightarrow> P (Suc n) b'" and "m \<le> 2 * n"
  shows "\<exists>k \<le> 2 * Suc n. P k a'"
proof -
  from assms(1) consider "a' = a" | "R a a'" | b where "R a b" "R b a'" unfolding follows_def by blast
  then have "P m a' \<or> P (Suc m) a' \<or> P (Suc (Suc m)) a'" by cases (use assms(2,3) in blast)+
  moreover have "m \<le> 2 * Suc n" "Suc m \<le> 2 * Suc n" "Suc (Suc m) \<le> 2 * Suc n" using assms(4) by simp_all
  ultimately show ?thesis by blast
qed

lemma sim_call:
  assumes ok: "knet_ok cd ep s" and sim: "simulates cd s a"
    and c: "kn_wait s c = None" "request c (kn_loc s c) = Some q"
  defines "n' \<equiv> (kn_net s)\<lparr>net := accept (kv_wire cd (ep c) q) (net (kn_net s)), rpcs := (rpcs (kn_net s))(kn_next s \<mapsto> Sent (kv_wire cd (ep c) q))\<rparr>"
  defines "s' \<equiv> s\<lparr>kn_net := n', kn_wait := (kn_wait s)(c \<mapsto> kn_next s), kn_owner := (kn_owner s)(kn_next s \<mapsto> (c, q)), kn_next := Suc (kn_next s)\<rparr>"
  shows "knet_ok cd ep s'" and "\<exists>a'. rpc_step request resume act env a a' \<and> simulates cd s' a'"
proof -
  let ?i = "kn_next s" and ?n = "kn_net s"
  have inv: "call_inv (rpcs ?n i) (handler ?n i) (runs ?n i)" for i using ok by (simp add: knet_ok_def)
  have fresh: "rpcs ?n ?i = None" using ok by (simp add: knet_ok_def)
  then have new: "handler ?n ?i = None" "runs ?n ?i = []" using inv [of ?i] by (simp_all add: call_inv_def)
  have wait_other: "kn_wait s b \<noteq> Some ?i" for b using knet_okD(4) [OF ok, of b ?i] fresh by auto
  show "knet_ok cd ep s'"
    using ok fresh new wait_other unfolding knet_ok_def s'_def n'_def
    by (auto simp: call_inv_def owned_def accept_def Suc_le_eq)
  let ?a = "a\<lparr>pool := insert (c, nextid a, q) (pool a), wait := (wait a)(c \<mapsto> (nextid a, None)), nextid := Suc (nextid a)\<rparr>"
  have a: "wait a c = None" "loc a c = kn_loc s c" "nextid a = ?i" using sim c(1) by (simp_all add: simulates_def)
  have step: "rpc_step request resume act env a ?a" using rpc_step.send [of a c request q] a c(2) by simp
  have "in_flight s' \<subseteq> insert (c, ?i, q) (in_flight s)"
    by (auto simp: in_flight_def s'_def n'_def split: if_splits)
  moreover have "got_reply cd s' i = (if i = ?i then None else got_reply cd s i)" for i
    using new by (simp add: got_reply_def s'_def n'_def)
  ultimately have "simulates cd s' ?a"
    using sim wait_other by (auto simp: simulates_def s'_def n'_def accept_def map_option_case split: option.splits)
  with step show "\<exists>a'. rpc_step request resume act env a a' \<and> simulates cd s' a'" by blast
qed
lemma sim_closed:
  fixes resume :: "nat \<Rightarrow> 'c \<Rightarrow> KvRep call \<Rightarrow> 'c"
  assumes ok: "knet_ok cd ep s" and sim: "simulates cd s a" and c: "kn_wait s c = None" "request c (kn_loc s c) = Some q"
  defines "s' \<equiv> s\<lparr>kn_loc := (kn_loc s)(c := resume c (kn_loc s c) CallFail), kn_next := Suc (kn_next s)\<rparr>"
  shows "knet_ok cd ep s'" and "\<exists>b a'. rpc_step request resume act env a b \<and> rpc_step request resume act env b a' \<and> simulates cd s' a'"
proof -
  show "knet_ok cd ep s'" using ok unfolding knet_ok_def s'_def by (auto simp: owned_def)
  let ?b = "a\<lparr>pool := insert (c, nextid a, q) (pool a), wait := (wait a)(c \<mapsto> (nextid a, None)), nextid := Suc (nextid a)\<rparr>"
  let ?a = "?b\<lparr>wait := (wait ?b)(c := None), loc := (loc ?b)(c := resume c (loc ?b c) CallFail)\<rparr>"
  have a: "wait a c = None" "loc a = kn_loc s" using sim c(1) by (simp_all add: simulates_def)
  have "rpc_step request resume act env a ?b" using rpc_step.send [of a c request q] a c(2) by simp
  moreover have "rpc_step request resume act env ?b ?a" by (rule rpc_step.fail [of ?b c "nextid a" None]) simp
  moreover have "in_flight s' = in_flight s" "got_reply cd s' = got_reply cd s"
    by (auto simp: in_flight_def got_reply_def s'_def fun_eq_iff split: list.split)
  then have "simulates cd s' ?a" using sim c(1) by (auto simp: simulates_def s'_def)
  ultimately show "\<exists>b a'. rpc_step request resume act env a b \<and> rpc_step request resume act env b a' \<and> simulates cd s' a'" by blast
qed

lemma sim_return:
  fixes resume :: "nat \<Rightarrow> 'c \<Rightarrow> KvRep call \<Rightarrow> 'c"
  assumes ok: "knet_ok cd ep s" and sim: "simulates cd s a"
    and c: "kn_wait s c = Some i" "rpcs (kn_net s) i = Some (Answered rep)" "kn_owner s i = Some (c, q)"
  defines "res \<equiv> if rep_ok rep then CallOk (kv_read cd q rep) else CallFail"
  defines "s' \<equiv> s\<lparr>kn_wait := (kn_wait s)(c := None), kn_loc := (kn_loc s)(c := resume c (kn_loc s c) res)\<rparr>"
  shows "knet_ok cd ep s'" and "\<exists>a'. rpc_step request resume act env a a' \<and> simulates cd s' a'"
proof -
  show "knet_ok cd ep s'" using ok unfolding knet_ok_def s'_def by (auto simp: owned_def)
  let ?a = "a\<lparr>wait := (wait a)(c := None), loc := (loc a)(c := resume c (loc a c) res)\<rparr>"
  have w: "wait a c = Some (i, got_reply cd s i)" "loc a = kn_loc s" using sim c(1) by (simp_all add: simulates_def)
  have inv: "call_inv (rpcs (kn_net s) i) (handler (kn_net s) i) (runs (kn_net s) i)" using ok by (simp add: knet_ok_def)
  have "rpc_step request resume act env a ?a"
  proof (cases "rep_ok rep")
    case True
    then have "runs (kn_net s) i = [rep]" using inv c(2) by (simp add: call_inv_def)
    then have "got_reply cd s i = Some (kv_read cd q rep)" using c(3) by (simp add: got_reply_def)
    with True w show ?thesis using rpc_step.reply [of a c i "kv_read cd q rep"] by (simp add: res_def)
  next
    case False
    with w show ?thesis using rpc_step.fail [of a c i "got_reply cd s i"] by (simp add: res_def)
  qed
  moreover have "in_flight s' = in_flight s" "got_reply cd s' = got_reply cd s"
    by (auto simp: in_flight_def got_reply_def s'_def fun_eq_iff split: list.split)
  then have "simulates cd s' ?a" using sim c(1) by (auto simp: simulates_def s'_def)
  ultimately show "\<exists>a'. rpc_step request resume act env a a' \<and> simulates cd s' a'" by blast
qed

text \<open>Steps of the network: only the execution of a handler is a step of the abstract system.\<close>

lemma call_inv_all:
  assumes "net_step n n'" and "\<forall>i. call_inv (rpcs n i) (handler n i) (runs n i)"
  shows "\<forall>i. call_inv (rpcs n' i) (handler n' i) (runs n' i)"
  using assms call_inv_step by blast

lemma sim_quiet:
  assumes ok: "knet_ok cd ep s" and sim: "simulates cd s a" and step: "net_step (kn_net s) n'" and "dom (rpcs n') = dom (rpcs (kn_net s))"
    and runs: "runs n' = runs (kn_net s)" and w: "world (net n') = world (net (kn_net s))" "store (net n') = store (net (kn_net s))"
    and sent: "\<And>i req. rpcs n' i = Some (Sent req) \<Longrightarrow> rpcs (kn_net s) i = Some (Sent req)"
    and hdl: "\<And>i h. handler n' i = Some h \<Longrightarrow> handler (kn_net s) i = Some h \<or> rpcs (kn_net s) i = Some (Sent (fst h))"
  shows "knet_ok cd ep (s\<lparr>kn_net := n'\<rparr>) \<and> simulates cd (s\<lparr>kn_net := n'\<rparr>) a"
proof -
  let ?s = "s\<lparr>kn_net := n'\<rparr>"
  have none: "rpcs n' i = None \<longleftrightarrow> rpcs (kn_net s) i = None" for i using assms(4) by blast
  have owned: "owned cd ep ?s = owned cd ep s" by (simp add: owned_def fun_eq_iff)
  have "owned cd ep ?s i req" if "rpcs n' i = Some (Sent req)" for i req
    unfolding owned by (rule knet_okD(5) [OF ok sent [OF that]])
  moreover have "owned cd ep ?s i req" if "handler n' i = Some (req, sv)" for i req sv
    unfolding owned using hdl [OF that] knet_okD(5,6) [OF ok] by auto
  moreover have "\<forall>i. call_inv (rpcs n' i) (handler n' i) (runs n' i)"
    using call_inv_all [OF step] ok by (simp add: knet_ok_def)
  ultimately have "knet_ok cd ep ?s" using ok w none by (simp add: knet_ok_def)
  moreover have "in_flight ?s \<subseteq> in_flight s"
  proof
    fix x assume "x \<in> in_flight ?s"
    then obtain c i q where x: "x = (c, i, q)" "kn_owner s i = Some (c, q)" "(\<exists>req. rpcs n' i = Some (Sent req)) \<or> (\<exists>h. handler n' i = Some h)"
      by (auto simp: in_flight_def)
    from x(3) have "(\<exists>req. rpcs (kn_net s) i = Some (Sent req)) \<or> handler (kn_net s) i \<noteq> None"
      using sent hdl by (metis option.distinct(1))
    with x show "x \<in> in_flight s" by (auto simp: in_flight_def)
  qed
  moreover have "got_reply cd ?s = got_reply cd s" using runs by (auto simp: got_reply_def fun_eq_iff split: list.split)
  ultimately show ?thesis using sim w by (auto simp: simulates_def)
qed

lemma sim_handle:
  assumes cd: "codec_inverse cd" and ok: "knet_ok cd ep s" and sim: "simulates cd s a"
    and h: "handler (kn_net s) i = Some (req, sv)" "processReq_exec req sv (net (kn_net s)) = Ret (rn, r)"
    and step: "net_step (kn_net s) n'" and n': "net n' = rn" "handler n' = (handler (kn_net s))(i := None)"
      "runs n' = (runs (kn_net s))(i := r # runs (kn_net s) i)"
    and dom: "dom (rpcs n') = dom (rpcs (kn_net s))" and sent: "\<And>j q. rpcs n' j = Some (Sent q) \<Longrightarrow> rpcs (kn_net s) j = Some (Sent q)"
  defines "s' \<equiv> s\<lparr>kn_net := n', kn_execs := Suc (kn_execs s)\<rparr>"
  shows "knet_ok cd ep s'" and "\<exists>a'. rpc_step request resume act env a a' \<and> simulates cd s' a'"
proof -
  let ?n = "kn_net s"
  obtain c q where o: "kn_owner s i = Some (c, q)" "req = kv_wire cd (ep c) q" using knet_okD(6) [OF ok h(1)] by (auto simp: owned_def)
  have kv: "is_kv_server cd (store (net ?n) p)" for p using ok by (simp add: knet_ok_def)
  from kv_exec [OF cd kv, of "ep c" q sv rn r] h(2) o(2)
  have ex: "KVServer_serve (world (net ?n)) q = (world rn, kv_read cd q r)" "is_kv_server cd (store rn p)" for p using kv by auto
  have inv: "call_inv (rpcs ?n i) (handler ?n i) (runs ?n i)" using ok by (simp add: knet_ok_def)
  have empty: "runs ?n i = []" using inv h(1) by (auto simp: call_inv_def split: option.splits stage.splits)
  have unsent: "rpcs ?n i \<noteq> Some (Sent x)" for x using inv h(1) by (auto simp: call_inv_def)
  have none: "rpcs n' j = None \<longleftrightarrow> rpcs ?n j = None" for j using dom by blast
  have owned: "owned cd ep s' = owned cd ep s" by (simp add: owned_def s'_def fun_eq_iff)
  have "\<forall>j. call_inv (rpcs n' j) (handler n' j) (runs n' j)" using call_inv_all [OF step] ok by (simp add: knet_ok_def)
  moreover have "owned cd ep s j x" if "rpcs n' j = Some (Sent x)" for j x by (rule knet_okD(5) [OF ok sent [OF that]])
  moreover have "owned cd ep s j x" if "handler n' j = Some (x, p)" for j x p
    using that knet_okD(6) [OF ok] by (simp add: n' split: if_splits)
  ultimately show "knet_ok cd ep s'"
    using ex(2) none knet_okD(2-4) [OF ok] unfolding knet_ok_def owned by (simp add: s'_def n'(1))
  let ?a = "a\<lparr>srv := world rn, pool := pool a - {(c, i, q)},
     wait := (if wait a c = Some (i, None) then (wait a)(c \<mapsto> (i, Some (kv_read cd q r))) else wait a),
     served := (Some c, q, kv_read cd q r) # served a\<rparr>"
  have "(c, i, q) \<in> pool a" using sim h(1) o(1) by (auto simp: simulates_def in_flight_def)
  then have "rpc_step request resume act env a ?a" using ex(1) sim by (intro rpc_step.exec) (simp_all add: simulates_def)
  moreover have "in_flight s' \<subseteq> in_flight s - {(c, i, q)}"
    using unsent sent by (auto simp: in_flight_def s'_def n' dest!: sent split: if_splits)
  moreover have reply: "got_reply cd s' j = (if j = i then Some (kv_read cd q r) else got_reply cd s j)" for j
    using o(1) by (simp add: got_reply_def s'_def n')
  have "wait ?a b = map_option (\<lambda>j. (j, got_reply cd s' j)) (kn_wait s' b)" for b
  proof (cases "kn_wait s b = Some i")
    case True
    then have "b = c" using knet_okD(3) [OF ok, of b i] o(1) by auto
    moreover have "got_reply cd s i = None" using empty by (simp add: got_reply_def)
    then have "wait a c = Some (i, None)" using sim True \<open>b = c\<close> by (simp add: simulates_def)
    moreover have "kn_wait s' c = Some i" using True \<open>b = c\<close> by (simp add: s'_def)
    ultimately show ?thesis by (simp add: reply)
  next
    case False
    then have "wait a c = Some (i, None) \<longrightarrow> b \<noteq> c" using sim by (auto simp: simulates_def)
    moreover have "kn_wait s' b = kn_wait s b" by (simp add: s'_def)
    moreover have "wait a b = map_option (\<lambda>j. (j, got_reply cd s j)) (kn_wait s b)" using sim by (simp add: simulates_def)
    ultimately show ?thesis using False by (auto simp: reply map_option_case split: option.splits)
  qed
  ultimately have "rpc_step request resume act env a ?a \<and> simulates cd s' ?a"
    using sim by (auto simp: simulates_def s'_def n')
  then show "\<exists>a'. rpc_step request resume act env a a' \<and> simulates cd s' a'" by blast
qed

lemma sim_network:
  assumes cd: "codec_inverse cd" and ok: "knet_ok cd ep s" and sim: "simulates cd s a"
    and step: "net_step (kn_net s) n'" and dom: "dom (rpcs n') = dom (rpcs (kn_net s))"
  defines "s' \<equiv> s\<lparr>kn_net := n', kn_execs := (if runs n' = runs (kn_net s) then kn_execs s else Suc (kn_execs s))\<rparr>"
  shows "knet_ok cd ep s' \<and> (simulates cd s' a \<or> (\<exists>a'. rpc_step request resume act env a a' \<and> simulates cd s' a'))"
proof (cases "\<exists>i req sv rn r. handler (kn_net s) i = Some (req, sv) \<and> processReq_exec req sv (net (kn_net s)) = Ret (rn, r) \<and>
    net n' = rn \<and> handler n' = (handler (kn_net s))(i := None) \<and> runs n' = (runs (kn_net s))(i := r # runs (kn_net s) i)")
  case True
  then obtain i req sv rn r where h: "handler (kn_net s) i = Some (req, sv)" "processReq_exec req sv (net (kn_net s)) = Ret (rn, r)"
    "net n' = rn" "handler n' = (handler (kn_net s))(i := None)" "runs n' = (runs (kn_net s))(i := r # runs (kn_net s) i)" by blast
  have sent: "rpcs (kn_net s) j = Some (Sent q)" if "rpcs n' j = Some (Sent q)" for j q
    using step dom that by cases (auto split: option.splits stage.splits if_splits)
  have "runs n' i \<noteq> runs (kn_net s) i" using h(5) by simp
  then have "s' = s\<lparr>kn_net := n', kn_execs := Suc (kn_execs s)\<rparr>" unfolding s'_def by metis
  then show ?thesis using sim_handle [OF cd ok sim h(1,2) step h(3-5) dom sent] by simp
next
  case False
  have "runs n' = runs (kn_net s) \<and> world (net n') = world (net (kn_net s)) \<and> store (net n') = store (net (kn_net s)) \<and>
      (\<forall>i req. rpcs n' i = Some (Sent req) \<longrightarrow> rpcs (kn_net s) i = Some (Sent req)) \<and>
      (\<forall>i h. handler n' i = Some h \<longrightarrow> handler (kn_net s) i = Some h \<or> rpcs (kn_net s) i = Some (Sent (fst h)))"
    using step
  proof cases
    case (send c req)
    then show ?thesis using dom by auto
  next
    case (handle c req sv rn r)
    then show ?thesis using False by auto
  next
    case (give_up c req sn sv rel rnd rn rep)
    then show ?thesis by (auto simp: processReq_finish_def split: if_splits)
  next
    case (finish c req sn sv rel r rnd rn rep)
    then show ?thesis by (auto simp: processReq_finish_def Let_def split: if_splits)
  qed auto
  then have q: "runs n' = runs (kn_net s)" "world (net n') = world (net (kn_net s))" "store (net n') = store (net (kn_net s))"
    "\<And>i req. rpcs n' i = Some (Sent req) \<Longrightarrow> rpcs (kn_net s) i = Some (Sent req)"
    "\<And>i h. handler n' i = Some h \<Longrightarrow> handler (kn_net s) i = Some h \<or> rpcs (kn_net s) i = Some (Sent (fst h))" by blast+
  have "s' = s\<lparr>kn_net := n'\<rparr>" using q(1) by (simp add: s'_def)
  then show ?thesis using sim_quiet [OF ok sim step dom q] by simp
qed

lemma kn_loc_simulated:
  assumes "knet_ok cd ep s" and "simulates cd s a"
  shows "knet_ok cd ep (s\<lparr>kn_loc := l\<rparr>)" and "simulates cd (s\<lparr>kn_loc := l\<rparr>) (a\<lparr>loc := l\<rparr>)"
  using assms by (simp_all add: knet_ok_def simulates_def owned_def in_flight_def got_reply_def)

lemma knet_step_simulated:
  assumes cd: "codec_inverse cd" and ok: "knet_ok cd ep s" and sim: "simulates cd s a" and step: "knet_step cd ep request resume act s s'"
  shows "knet_ok cd ep s' \<and> (\<exists>a'. follows (rpc_step request resume act env) a a' \<and> simulates cd s' a')"
  using step
proof cases
  case (call c q)
  have "knet_ok cd ep s'" unfolding call(1) by (rule sim_call(1) [where request = request, OF ok sim call(2,3)])
  moreover obtain a' where "rpc_step request resume act env a a'" "simulates cd s' a'"
    using sim_call(2) [where request = request, OF ok sim call(2,3)] unfolding call(1) by blast
  ultimately show ?thesis unfolding follows_def by blast
next
  case (closed c q)
  have "knet_ok cd ep s'" unfolding closed(1) by (rule sim_closed(1) [where request = request, OF ok sim closed(2,3)])
  moreover obtain b a' where "rpc_step request resume act env a b" "rpc_step request resume act env b a'" "simulates cd s' a'"
    using sim_closed(2) [where request = request, OF ok sim closed(2,3)] unfolding closed(1) by blast
  ultimately show ?thesis unfolding follows_def by blast
next
  case (network n')
  with sim_network [OF cd ok sim, of n' request resume act env] show ?thesis unfolding follows_def by blast
next
  case (return c i rep q)
  have "knet_ok cd ep s'" unfolding return(1) by (rule sim_return(1) [OF ok sim return(2-4)])
  moreover obtain a' where "rpc_step request resume act env a a'" "simulates cd s' a'"
    using sim_return(2) [OF ok sim return(2-4)] unfolding return(1) by blast
  ultimately show ?thesis unfolding follows_def by blast
next
  case (local c l')
  have a: "wait a c = None" "loc a = kn_loc s" using sim local(2) by (simp_all add: simulates_def)
  have "rpc_step request resume act env a (a\<lparr>loc := (kn_loc s)(c := l')\<rparr>)"
    using rpc_step.local [of a c act l'] a local(3) by simp
  then show ?thesis unfolding follows_def local(1) using kn_loc_simulated [OF ok sim] by blast
qed

text \<open>A network is ready when its servers offer the service and the server is new. Any run over it is a run of the abstract system, of at most twice the length.\<close>

definition kv_ready :: "kv_codec \<Rightarrow> KVServer Network \<Rightarrow> bool" where
  "kv_ready cd rn \<longleftrightarrow> world rn = fst (StartKVServer cd) \<and> (\<forall>p. is_kv_server cd (store rn p))"

definition kv_start :: "KVServer Network \<Rightarrow> (nat \<Rightarrow> 'c) \<Rightarrow> 'c kv_net" where
  "kv_start rn l0 = \<lparr>kn_net = \<lparr>net = rn, rpcs = Map.empty, handler = Map.empty, runs = (\<lambda>c. [])\<rparr>, kn_loc = l0, kn_wait = Map.empty,
     kn_next = 0, kn_owner = Map.empty, kn_execs = 0\<rparr>"

inductive knet_reach ::
  "kv_codec \<Rightarrow> (nat \<Rightarrow> string) \<Rightarrow> (nat \<Rightarrow> 'c \<Rightarrow> KvReq option) \<Rightarrow> (nat \<Rightarrow> 'c \<Rightarrow> KvRep call \<Rightarrow> 'c) \<Rightarrow> (nat \<Rightarrow> 'c \<Rightarrow> 'c \<Rightarrow> bool) \<Rightarrow>
   KVServer Network \<Rightarrow> (nat \<Rightarrow> 'c) \<Rightarrow> nat \<Rightarrow> 'c kv_net \<Rightarrow> bool" for cd ep request resume act rn l0 where
  start: "knet_reach cd ep request resume act rn l0 0 (kv_start rn l0)"
| step: "knet_reach cd ep request resume act rn l0 n s \<Longrightarrow> knet_step cd ep request resume act s t \<Longrightarrow>
    knet_reach cd ep request resume act rn l0 (Suc n) t"

lemma start_simulated:
  assumes "kv_ready cd rn"
  shows "knet_ok cd ep (kv_start rn l0)"
    and "simulates cd (kv_start rn l0) \<lparr>srv = MakeKVServer, pool = {}, wait = Map.empty, loc = l0, nextid = 0, served = []\<rparr>"
  using assms by (simp_all add: kv_ready_def kv_start_def knet_ok_def call_inv_def simulates_def in_flight_def StartKVServer_def)

lemma knet_reach_simulated:
  assumes "codec_inverse cd" and "kv_ready cd rn" and "knet_reach cd ep request resume act rn l0 n s"
  shows "\<exists>m a. m \<le> 2 * n \<and> rpc_reach request resume act env l0 m a \<and> knet_ok cd ep s \<and> simulates cd s a"
  using assms(3)
proof (induction rule: knet_reach.induct)
  case start
  then show ?case using start_simulated(1) [OF assms(2)] start_simulated(2) [OF assms(2)] rpc_reach.init by blast
next
  case (step n s t)
  then obtain m a where a: "m \<le> 2 * n" "rpc_reach request resume act env l0 m a" "knet_ok cd ep s" "simulates cd s a" by blast
  obtain a' where a': "knet_ok cd ep t" "follows (rpc_step request resume act env) a a'" "simulates cd t a'"
    using knet_step_simulated [OF assms(1) a(3,4) step.hyps(2)] by blast
  have "\<exists>k \<le> 2 * Suc n. rpc_reach request resume act env l0 k a'"
    by (rule follows_reach [where P = "rpc_reach request resume act env l0", OF a'(2) a(2) _ a(1)]) (rule rpc_reach.step)
  then show ?case using a' by blast
qed

section \<open>Histories over the network\<close>

text \<open>
  \<open>knet_hist\<close> are the runs of clerks and the
  histories of their operations, as \<open>hist_reach\<close> of \<open>KvHistory\<close>; the clock counts executed requests.
\<close>

fun kseen :: "'c kv_net \<Rightarrow> KvReq \<Rightarrow> bool" where
  "kseen s (ReqGet a) = True"
| "kseen s (ReqPut a) = (unat (pa_Version a) \<le> unat (snd (kv_cur (world (net (kn_net s))) (pa_Key a))))"

inductive knet_hist ::
  "kv_codec \<Rightarrow> (nat \<Rightarrow> string) \<Rightarrow> KVServer Network \<Rightarrow> nat \<Rightarrow> clerk_pc kv_net \<Rightarrow> Operation list \<Rightarrow> bool" for cd ep rn where
  start: "knet_hist cd ep rn 0 (kv_start rn (\<lambda>c. Idle)) []"
| net: "knet_hist cd ep rn n s h \<Longrightarrow> knet_step cd ep clerk_request clerk_resume (\<lambda>c l l'. False) s t \<Longrightarrow> knet_hist cd ep rn (Suc n) t h"
| call: "knet_hist cd ep rn n s h \<Longrightarrow> kn_loc s c = Idle \<Longrightarrow> kn_wait s c = None \<Longrightarrow> kseen s q \<Longrightarrow>
    knet_hist cd ep rn (Suc n) (s\<lparr>kn_loc := (kn_loc s)(c := Busy q True (kn_execs s))\<rparr>) h"
| return: "knet_hist cd ep rn n s h \<Longrightarrow> kn_loc s c = Returned q out t \<Longrightarrow> kn_wait s c = None \<Longrightarrow>
    knet_hist cd ep rn (Suc n) (s\<lparr>kn_loc := (kn_loc s)(c := Idle)\<rparr>) (h @ [operation c q out t (kn_execs s)])"

lemma knet_hist_simulated:
  assumes "codec_inverse cd" and "kv_ready cd rn" and "knet_hist cd ep rn n s h"
  shows "\<exists>m a. m \<le> 2 * n \<and> hist_reach seen m a h \<and> knet_ok cd ep s \<and> simulates cd s a"
  using assms(3)
proof (induction rule: knet_hist.induct)
  case start
  then show ?case using start_simulated(1) [OF assms(2)] start_simulated(2) [OF assms(2), of "\<lambda>c. Idle"] hist_reach.start [of seen] by blast
next
  case (net n s h t)
  then obtain m a where a: "m \<le> 2 * n" "hist_reach seen m a h" "knet_ok cd ep s" "simulates cd s a" by blast
  obtain a' where a': "knet_ok cd ep t" "follows clerk_step a a'" "simulates cd t a'"
    using knet_step_simulated [OF assms(1) a(3,4) net.hyps(2)] by blast
  have "\<exists>k \<le> 2 * Suc n. hist_reach seen k a' h"
    by (rule follows_reach [where P = "\<lambda>m a. hist_reach seen m a h", OF a'(2) a(2) _ a(1)]) (rule hist_reach.net)
  then show ?case using a' by blast
next
  case (call n s h c q)
  then obtain m a where a: "m \<le> 2 * n" "hist_reach seen m a h" "knet_ok cd ep s" "simulates cd s a" by blast
  have "loc a = kn_loc s" "length (served a) = kn_execs s" "wait a c = None" "srv a = world (net (kn_net s))"
    using a(4) call.hyps by (simp_all add: simulates_def)
  moreover from this have "seen a q" using call.hyps(4) by (cases q) (simp_all add: sver_def)
  ultimately have "hist_reach seen (Suc m) (a\<lparr>loc := (kn_loc s)(c := Busy q True (kn_execs s))\<rparr>) h"
    using hist_reach.call [OF a(2), of c q] call.hyps by simp
  then show ?case using a(1) kn_loc_simulated [OF a(3,4)] by (intro exI [of _ "Suc m"]) auto
next
  case (return n s h c q out t)
  then obtain m a where a: "m \<le> 2 * n" "hist_reach seen m a h" "knet_ok cd ep s" "simulates cd s a" by blast
  have "loc a = kn_loc s" "length (served a) = kn_execs s" "wait a c = None" using a(4) return.hyps by (simp_all add: simulates_def)
  then have "hist_reach seen (Suc m) (a\<lparr>loc := (kn_loc s)(c := Idle)\<rparr>) (h @ [operation c q out t (kn_execs s)])"
    using hist_reach.return [OF a(2), of c q out t] return.hyps by simp
  then show ?case using a(1) kn_loc_simulated [OF a(3,4)] by (intro exI [of _ "Suc m"]) auto
qed

lemma network_linearizable:
  assumes "codec_inverse cd" and "kv_ready cd rn" and "knet_hist cd ep rn n s h" and "2 * n < 2 ^ 64" and "\<forall>c. kn_loc s c = Idle"
  shows "linearizable h"
proof -
  obtain m a where a: "m \<le> 2 * n" "hist_reach seen m a h" "simulates cd s a" using knet_hist_simulated [OF assms(1-3)] by blast
  have "loc a c = Idle" for c using a(3) assms(5) by (simp add: simulates_def)
  then show ?thesis using histories_linearizable [OF a(2)] a(1) assms(4) by simp
qed

section \<open>Properties\<close>

text \<open>
  C12: The key/value service is linearizable over the simulated network. Clerks call the server through end points of
  \<open>labrpc\<close>; requests and replies are dropped and delayed, ends are enabled and disabled, connected and reconnected, servers
  are removed and added under their names, and the network is closed, all at any time and in any order. The history
  of the completed operations can be put into an order that respects real time and that the model
  of \<open>models1/kv.go\<close> accepts.
\<close>

theorem network_histories_linearizable:
  assumes "codec_inverse cd" and "kv_ready cd rn" and "knet_hist cd ep rn n s h" and "2 * n < 2 ^ 64" and "\<forall>c. kn_loc s c = Idle"
  shows "linearizable h"
  using assms by (rule network_linearizable)

text \<open>A codec that works: texts with their length, versions in unary, and a run of one put over a network.\<close>

definition enc_str :: "string \<Rightarrow> bytes" where
  "enc_str s = replicate (length s) 1 @ 0 # map (\<lambda>c. of_nat (of_char c)) s"

definition dec_str :: "bytes \<Rightarrow> string \<times> bytes" where
  "dec_str b = (let n = length (takeWhile (\<lambda>x. x = 1) b); r = drop (n + 1) b
     in (map (\<lambda>x. char_of (unat x)) (take n r), drop n r))"

definition enc_ver :: "Tversion \<Rightarrow> bytes" where
  "enc_ver v = replicate (unat v) 1"

definition dec_ver :: "bytes \<Rightarrow> Tversion" where
  "dec_ver b = of_nat (length b)"

definition errs :: "Err list" where
  "errs = [OK, ErrNoKey, ErrVersion, ErrMaybe, ErrWrongLeader, ErrWrongGroup, ErrZero]"

fun err_no :: "Err \<Rightarrow> nat" where
  "err_no OK = 0" | "err_no ErrNoKey = 1" | "err_no ErrVersion = 2" | "err_no ErrMaybe = 3" | "err_no ErrWrongLeader = 4"
| "err_no ErrWrongGroup = 5" | "err_no ErrZero = 6"

definition unary_codec :: kv_codec where
  "unary_codec = \<lparr>cd_GetArgs = (\<lambda>a. enc_str (ga_Key a)), cd_GetArgs' = (\<lambda>b. \<lparr>ga_Key = fst (dec_str b)\<rparr>),
     cd_PutArgs = (\<lambda>a. enc_str (pa_Key a) @ enc_str (pa_Value a) @ enc_ver (pa_Version a)),
     cd_PutArgs' = (\<lambda>b. case dec_str b of (k, b) \<Rightarrow> case dec_str b of (v, b) \<Rightarrow> \<lparr>pa_Key = k, pa_Value = v, pa_Version = dec_ver b\<rparr>),
     cd_GetReply = (\<lambda>r. enc_str (gr_Value r) @ of_nat (err_no (gr_Err r)) # enc_ver (gr_Version r)),
     cd_GetReply' = (\<lambda>b. case dec_str b of (v, b) \<Rightarrow> \<lparr>gr_Value = v, gr_Version = dec_ver (tl b), gr_Err = errs ! unat (hd b)\<rparr>),
     cd_PutReply = (\<lambda>r. [of_nat (err_no (pr_Err r))]), cd_PutReply' = (\<lambda>b. \<lparr>pr_Err = errs ! unat (hd b)\<rparr>)\<rparr>"

lemma dec_enc_str: "dec_str (enc_str s @ b) = (s, b)"
proof -
  have "takeWhile (\<lambda>x. x = 1) (replicate n 1 @ 0 # xs) = replicate n (1 :: 8 word)" for n xs by (induction n) simp_all
  moreover have "char_of (unat (of_nat (of_char c) :: 8 word)) = c" for c
    by (simp add: unat_of_nat)
  ultimately show ?thesis by (simp add: dec_str_def enc_str_def Let_def comp_def)
qed

lemma unary_codec_inverse: "codec_inverse unary_codec"
proof -
  have "dec_ver (enc_ver v) = v" for v by (simp add: dec_ver_def enc_ver_def)
  moreover have "errs ! unat (of_nat (err_no e) :: 8 word) = e" for e by (cases e) (simp_all add: errs_def unat_of_nat)
  ultimately show ?thesis using dec_enc_str [of _ "[]"] by (simp add: codec_inverse_def unary_codec_def dec_enc_str)
qed

definition put_network :: "KVServer Network" where
  "put_network = Enable ''e'' True (Connect ''e'' ''s'' (AddServer ''s'' 0
     (MakeNetwork (\<lambda>p. AddService (hd (snd (StartKVServer unary_codec))) MakeServer) (fst (StartKVServer unary_codec)))))"

definition put_wire :: reqMsg where
  "put_wire = kv_wire unary_codec ''e'' lost_put"

lemma put_network_ready: "kv_ready unary_codec put_network"
  using AddService_kv [of unary_codec]
  by (simp add: kv_ready_def put_network_def Enable_def Connect_def AddServer_def MakeNetwork_def)

lemma put_network_finds:
  assumes "connections rn = connections put_network" "enabled rn = enabled put_network" "servers rn = servers put_network" "reliable rn"
  shows "processReq_start 0 put_wire rn = Execute ''s'' 0 True (longReordering rn)" and "\<not> isServerDead ''e'' ''s'' 0 rn"
  using assms
  by (simp_all add: processReq_start_def readEndnameInfo_def isServerDead_def is_enabled_def connection_def server_ptr_def
      put_wire_def lost_put_def put_network_def Enable_def Connect_def AddServer_def MakeNetwork_def)

lemma put_over_network:
  "\<exists>s. knet_hist unary_codec (\<lambda>c. ''e'') put_network 7 s [operation 0 lost_put \<lparr>out_Value = [], out_Version = 0, out_Err = ''OK''\<rparr> 0 1] \<and>
     (\<forall>c. kn_loc s c = Idle)"
proof -
  let ?H = "knet_hist unary_codec (\<lambda>c. ''e'') put_network" and ?rn = "accept put_wire put_network"
  let ?S = "\<lambda>N R hd rs pc w i ow k. (\<lparr>kn_net = \<lparr>net = N, rpcs = R, handler = hd, runs = rs\<rparr>, kn_loc = (\<lambda>c. Idle)(0 := pc), kn_wait = w,
    kn_next = i, kn_owner = ow, kn_execs = k\<rparr> :: clerk_pc kv_net)"
  let ?ow = "[0 \<mapsto> (0, lost_put)] :: nat \<rightharpoonup> nat \<times> KvReq" and ?w = "[0 \<mapsto> 0] :: nat \<rightharpoonup> nat" and ?none = "Map.empty :: nat \<rightharpoonup> reqMsg \<times> nat"
  let ?busy = "Busy lost_put True 0" and ?e = "\<lambda>c :: nat. [] :: replyMsg list"
  have idle: "(\<lambda>c. Idle)(0 := Idle) = (\<lambda>c::nat. Idle)" by auto
  have "?H 0 (?S put_network Map.empty ?none ?e Idle Map.empty 0 Map.empty 0) []"
    using knet_hist.start [of unary_codec "\<lambda>c. ''e''" put_network] by (simp add: kv_start_def idle)
  from knet_hist.call [OF this, of 0 lost_put]
  have "?H 1 (?S put_network Map.empty ?none ?e ?busy Map.empty 0 Map.empty 0) []" by (simp add: lost_put_def)
  from knet_hist.net [OF this knet_step.call [of _ 0 _ lost_put]]
  have 2: "?H 2 (?S ?rn [0 \<mapsto> Sent put_wire] ?none ?e ?busy ?w 1 ?ow 0) []"
    by (simp add: put_wire_def put_network_def Enable_def Connect_def AddServer_def MakeNetwork_def numeral_2_eq_2)
  have keep: "connections ?rn = connections put_network" "enabled ?rn = enabled put_network" "servers ?rn = servers put_network" "reliable ?rn"
    by (simp_all add: accept_def put_network_def Enable_def Connect_def AddServer_def MakeNetwork_def)
  let ?R = "[0 \<mapsto> Waiting put_wire ''s'' 0 True None] :: nat \<rightharpoonup> stage" and ?h = "[0 \<mapsto> (put_wire, 0)] :: nat \<rightharpoonup> reqMsg \<times> nat"
  from knet_hist.net [OF 2 knet_step.network [OF _ _, of _ "\<lparr>net = ?rn, rpcs = ?R, handler = ?h, runs = ?e\<rparr>"]]
    net_step.begin_exec [of "\<lparr>net = ?rn, rpcs = [0 \<mapsto> Sent put_wire], handler = ?none, runs = ?e\<rparr>" 0 put_wire 0 "''s''" 0 True]
    put_network_finds(1) [OF keep]
  have 3: "?H 3 (?S ?rn ?R ?h ?e ?busy ?w 1 ?ow 0) []" by (simp add: eval_nat_numeral)
  have kv: "is_kv_server unary_codec (store ?rn 0)" "world ?rn = MakeKVServer"
    using put_network_ready by (simp_all add: kv_ready_def accept_def StartKVServer_def)
  obtain st w r where ex: "processReq_exec put_wire 0 ?rn = Ret (?rn\<lparr>store := st, world := w\<rparr>, r)"
    using kv_exec_returns [OF kv(1)] unfolding put_wire_def by blast
  let ?rn2 = "?rn\<lparr>store := st, world := w\<rparr>" and ?R2 = "[0 \<mapsto> Waiting put_wire ''s'' 0 True (Some r)] :: nat \<rightharpoonup> stage"
  have r: "rep_ok r" "kv_read unary_codec lost_put r = RepPut \<lparr>pr_Err = OK\<rparr>"
    using kv_exec [OF unary_codec_inverse kv(1), of "''e''" lost_put ?rn2 r, folded put_wire_def] ex lost_put_serve(1) kv(2) by simp_all
  let ?e2 = "?e(0 := [r])"
  have "net_step \<lparr>net = ?rn, rpcs = ?R, handler = ?h, runs = ?e\<rparr> \<lparr>net = ?rn2, rpcs = ?R2, handler = ?none, runs = ?e2\<rparr>"
    using net_step.handle [of "\<lparr>net = ?rn, rpcs = ?R, handler = ?h, runs = ?e\<rparr>" 0 put_wire 0 ?rn2 r] ex by simp
  from knet_hist.net [OF 3 knet_step.network [of _ "\<lparr>net = ?rn2, rpcs = ?R2, handler = ?none, runs = ?e2\<rparr>"]] this
  moreover have "?e2 \<noteq> ?e" by (metis fun_upd_same list.distinct(1))
  ultimately have 4: "?H 4 (?S ?rn2 ?R2 ?none ?e2 ?busy ?w 1 ?ow 1) []" by (simp add: eval_nat_numeral)
  obtain rn3 where fin: "processReq_finish 0 put_wire ''s'' 0 True (Some r) ?rn2 = (rn3, r)"
    using put_network_finds(2) [of ?rn2] keep by (simp add: processReq_finish_def put_wire_def lost_put_def)
  let ?R3 = "[0 \<mapsto> Answered r] :: nat \<rightharpoonup> stage"
  have "net_step \<lparr>net = ?rn2, rpcs = ?R2, handler = ?none, runs = ?e2\<rparr> \<lparr>net = rn3, rpcs = ?R3, handler = ?none, runs = ?e2\<rparr>"
    using net_step.finish [of "\<lparr>net = ?rn2, rpcs = ?R2, handler = ?none, runs = ?e2\<rparr>" 0] fin by simp
  from knet_hist.net [OF 4 knet_step.network [of _ "\<lparr>net = rn3, rpcs = ?R3, handler = ?none, runs = ?e2\<rparr>"]] this
  have 5: "?H 5 (?S rn3 ?R3 ?none ?e2 ?busy ?w 1 ?ow 1) []" by (simp add: eval_nat_numeral)
  let ?out = "\<lparr>out_Value = [], out_Version = 0, out_Err = ''OK''\<rparr>"
  have "clerk_resume 0 ?busy (CallOk (RepPut \<lparr>pr_Err = OK\<rparr>)) = Returned lost_put ?out 0"
    by (simp add: lost_put_def Clerk_Put_iter_def)
  with knet_hist.net [OF 5 knet_step.return [of _ 0 0 r lost_put]] r
  have "?H 6 (?S rn3 ?R3 ?none ?e2 (Returned lost_put ?out 0) Map.empty 1 ?ow 1) []" by (simp add: eval_nat_numeral)
  from knet_hist.return [OF this, of 0]
  have "?H 7 (?S rn3 ?R3 ?none ?e2 Idle Map.empty 1 ?ow 1) [operation 0 lost_put ?out 0 1]" by (simp add: eval_nat_numeral)
  then show ?thesis by (intro exI conjI) (assumption, simp)
qed

theorem network_histories_linearizable_witness:
  "linearizable [operation 0 lost_put \<lparr>out_Value = [], out_Version = 0, out_Err = ''OK''\<rparr> 0 1]"
proof -
  obtain s where "knet_hist unary_codec (\<lambda>c. ''e'') put_network 7 s
      [operation 0 lost_put \<lparr>out_Value = [], out_Version = 0, out_Err = ''OK''\<rparr> 0 1]" "\<forall>c. kn_loc s c = Idle"
    using put_over_network by blast
  then show ?thesis using network_histories_linearizable [OF unary_codec_inverse put_network_ready] by simp
qed

end
