(* ===== verification/Persister.thy ===== *)
theory Persister
  imports Prelude
begin

text \<open>
  The persister of \<open>tester1/persister.go\<close>: the two byte strings, Raft state and snapshot, that survive
  a restart of a server. Its mutex makes every method one atomic action. A nil slice and an empty
  one read back alike (\<open>clone\<close> turns one into the other), so both are the empty list.
\<close>

record Persister =
  raftstate :: "8 word list"
  snapshot :: "8 word list"

definition MakePersister :: Persister where
  "MakePersister = \<lparr>raftstate = [], snapshot = []\<rparr>"

text \<open>\<open>copy\<close> overwrites the zeroes of the new slice from its start.\<close>

definition clone :: "8 word list \<Rightarrow> 8 word list" where
  "clone orig = (let x = replicate (length orig) 0
     in take (length x) orig @ drop (length orig) x)"

definition Persister_Copy :: "Persister \<Rightarrow> Persister" where
  "Persister_Copy ps = MakePersister\<lparr>raftstate := raftstate ps, snapshot := snapshot ps\<rparr>"

definition ReadRaftState :: "Persister \<Rightarrow> 8 word list" where
  "ReadRaftState ps = clone (raftstate ps)"

definition RaftStateSize :: "Persister \<Rightarrow> int" where
  "RaftStateSize ps = int (length (raftstate ps))"

definition Save :: "8 word list \<Rightarrow> 8 word list \<Rightarrow> Persister \<Rightarrow> Persister" where
  "Save rs sn ps = ps\<lparr>raftstate := clone rs, snapshot := clone sn\<rparr>"

definition ReadSnapshot :: "Persister \<Rightarrow> 8 word list" where
  "ReadSnapshot ps = clone (snapshot ps)"

definition SnapshotSize :: "Persister \<Rightarrow> int" where
  "SnapshotSize ps = int (length (snapshot ps))"

lemma clone_id [simp]: "clone x = x"
  by (simp add: clone_def Let_def)

text \<open>
  The contract a crashing server relies on, as an interface: what was saved last is read back, the
  sizes are those of what is read, and a copy handed to the next incarnation reads the same.
\<close>

locale stable_storage =
  fixes save :: "'b list \<Rightarrow> 'b list \<Rightarrow> 'p \<Rightarrow> 'p"
    and state_of snap_of :: "'p \<Rightarrow> 'b list"
    and state_size snap_size :: "'p \<Rightarrow> int"
    and copy :: "'p \<Rightarrow> 'p"
  assumes read_save: "state_of (save r s p) = r" "snap_of (save r s p) = s"
    and sizes: "state_size p = int (length (state_of p))" "snap_size p = int (length (snap_of p))"
    and copy_reads: "state_of (copy p) = state_of p" "snap_of (copy p) = snap_of p"
begin

lemma survives_restart:
  "state_of (copy (save r s p)) = r \<and> snap_of (copy (save r s p)) = s \<and>
   state_size (copy (save r s p)) = int (length r) \<and> snap_size (copy (save r s p)) = int (length s)"
  by (simp add: read_save sizes copy_reads)

lemma last_save_wins: "state_of (save r s (save r' s' p)) = r"
  by (rule read_save)

end

interpretation ps: stable_storage Save ReadRaftState ReadSnapshot RaftStateSize SnapshotSize Persister_Copy
  by unfold_locales
    (simp_all add: Save_def ReadRaftState_def ReadSnapshot_def RaftStateSize_def SnapshotSize_def
      Persister_Copy_def MakePersister_def)

text \<open>
  Saved state survives a crash. After \<open>Save\<close>, the \<open>Copy\<close> that the tester hands to the restarted
  server reads exactly the Raft state and the snapshot that were saved together, with their sizes,
  whatever was saved before.
\<close>

lemma Save_survives_restart:
  "ReadRaftState (Persister_Copy (Save rs sn ps)) = rs \<and>
   ReadSnapshot (Persister_Copy (Save rs sn ps)) = sn \<and>
   RaftStateSize (Persister_Copy (Save rs sn ps)) = int (length rs) \<and>
   SnapshotSize (Persister_Copy (Save rs sn ps)) = int (length sn)"
  by (rule ps.survives_restart)

end
