(* ===== verification/Tester.thy ===== *)
theory Tester
  imports LabRpc Persister "HOL-Library.Multiset"
begin

text \<open>
  The test harness of \<open>tester1\<close>: the clerks' end points (\<open>clnts.go\<close>), one server with its end points
  and its persister (\<open>srv.go\<close>), groups of servers that are started, shut down, connected and
  partitioned (\<open>group.go\<close>), and the configuration that owns them (\<open>config.go\<close>), on the network of
  \<open>LabRpc\<close>. \<open>Randstring\<close> is a stream of names, an argument, with the number of names drawn so far in
  the state. Persisters, labrpc servers and clerks are addresses, since the code shares pointers to
  them. \<open>Kill\<close>, \<open>MakeService\<close> (reflection) and \<open>FstartServer\<close> belong to the program under test and are
  arguments too.
\<close>

section \<open>State\<close>

record Clnt =
  clnt_ends :: "(string, string) gomap"
  clnt_srvs :: "string list option"

record 'w Tester =
  tnet :: "'w Network"
  drawn :: nat
  pmem :: "nat \<Rightarrow> Persister"
  pnext :: nat
  snext :: nat
  cmem :: "nat \<Rightarrow> Clnt"
  cnext :: nat

definition Randstring :: "(nat \<Rightarrow> string) \<Rightarrow> 'w Tester \<Rightarrow> string \<times> 'w Tester" where
  "Randstring names t = (names (drawn t), t\<lparr>drawn := drawn t + 1\<rparr>)"

section \<open>Clerks\<close>

definition makeClntTo :: "string list option \<Rightarrow> Clnt" where
  "makeClntTo srvs = \<lparr>clnt_ends = [], clnt_srvs = srvs\<rparr>"

definition allowedL :: "string \<Rightarrow> Clnt \<Rightarrow> bool" where
  "allowedL server clnt = (case clnt_srvs clnt of None \<Rightarrow> True | Some srvs \<Rightarrow> (\<exists>n\<in>set srvs. n = server))"

definition Clnt_makeEnd :: "(nat \<Rightarrow> string) \<Rightarrow> string \<Rightarrow> Clnt \<Rightarrow> 'w Tester \<Rightarrow> (string \<times> Clnt \<times> 'w Tester) go" where
  "Clnt_makeEnd names server clnt t =
     (case map_of (clnt_ends clnt) server of
        Some e \<Rightarrow> Ret (e, clnt, t)
      | None \<Rightarrow> (case Randstring names t of (name, t) \<Rightarrow>
          go_bind (MakeEnd name (tnet t)) (\<lambda>rn.
            let rn = Connect name server rn;
                rn = (if allowedL server clnt then Enable name True rn else Enable name False rn)
            in Ret (name, clnt\<lparr>clnt_ends := AList.update server name (clnt_ends clnt)\<rparr>, t\<lparr>tnet := rn\<rparr>))))"

definition Clnt_Call ::
  "(nat \<Rightarrow> string) \<Rightarrow> ('a \<Rightarrow> bytes option) \<Rightarrow> (bytes \<Rightarrow> 'r option) \<Rightarrow> int \<Rightarrow> int \<Rightarrow> string \<Rightarrow> string \<Rightarrow> 'a \<Rightarrow>
   Clnt \<Rightarrow> 'w Tester \<Rightarrow> ('r option \<times> Clnt \<times> 'w Tester) go" where
  "Clnt_Call names enc dec rnd rnd' server meth a clnt t =
     go_bind (Clnt_makeEnd names server clnt t) (\<lambda>(e, clnt, t).
       go_bind (Call enc dec rnd rnd' e meth a (tnet t)) (\<lambda>(rn, ok).
         Ret (ok, clnt, t\<lparr>tnet := rn\<rparr>)))"

fun enable_ends :: "(string \<times> string) list \<Rightarrow> (string \<Rightarrow> bool) \<Rightarrow> bool \<Rightarrow> 'w Network \<Rightarrow> 'w Network" where
  "enable_ends [] P b rn = rn"
| "enable_ends ((srv, e) # es) P b rn = enable_ends es P b (if P srv then Enable e b rn else rn)"

definition Clnt_ConnectAll :: "Clnt \<Rightarrow> 'w Tester \<Rightarrow> Clnt \<times> 'w Tester" where
  "Clnt_ConnectAll clnt t =
     (clnt\<lparr>clnt_srvs := None\<rparr>, t\<lparr>tnet := enable_ends (clnt_ends clnt) (\<lambda>srv. True) True (tnet t)\<rparr>)"

definition ConnectTo :: "string list option \<Rightarrow> Clnt \<Rightarrow> 'w Tester \<Rightarrow> Clnt \<times> 'w Tester" where
  "ConnectTo srvs clnt t =
     (let clnt = clnt\<lparr>clnt_srvs := srvs\<rparr>
      in (clnt, t\<lparr>tnet := enable_ends (clnt_ends clnt) (\<lambda>srv. allowedL srv clnt) True (tnet t)\<rparr>))"

definition Clnt_Disconnect :: "string \<Rightarrow> Clnt \<Rightarrow> 'w Tester \<Rightarrow> Clnt \<times> 'w Tester" where
  "Clnt_Disconnect srv clnt t = (clnt, t\<lparr>tnet := enable_ends (clnt_ends clnt) (\<lambda>s. s = srv) False (tnet t)\<rparr>)"

definition Clnt_DisconnectAll :: "Clnt \<Rightarrow> 'w Tester \<Rightarrow> Clnt \<times> 'w Tester" where
  "Clnt_DisconnectAll clnt t =
     (clnt\<lparr>clnt_srvs := Some []\<rparr>, t\<lparr>tnet := enable_ends (clnt_ends clnt) (\<lambda>srv. True) False (tnet t)\<rparr>)"

fun delete_ends :: "(string \<times> string) list \<Rightarrow> 'w Network \<Rightarrow> 'w Network go" where
  "delete_ends [] rn = Ret rn"
| "delete_ends ((srv, e) # es) rn = go_bind (DeleteEnd e rn) (delete_ends es)"

definition remove :: "Clnt \<Rightarrow> 'w Tester \<Rightarrow> 'w Tester go" where
  "remove clnt t = go_bind (delete_ends (clnt_ends clnt) (tnet t)) (\<lambda>rn. Ret (t\<lparr>tnet := rn\<rparr>))"

text \<open>\<open>Clnts\<close>: the set \<open>clerks\<close> of clerk addresses, \<open>None\<close> once \<open>cleanup\<close> has set it to nil.\<close>

type_synonym Clnts = "(nat, unit) gomap option"

definition makeClnts :: Clnts where
  "makeClnts = Some []"

definition Clnts_makeEnd :: "(nat \<Rightarrow> string) \<Rightarrow> string \<Rightarrow> 'w Tester \<Rightarrow> (string \<times> 'w Tester) go" where
  "Clnts_makeEnd names servername t =
     (case Randstring names t of (name, t) \<Rightarrow>
        go_bind (MakeEnd name (tnet t)) (\<lambda>rn.
          Ret (name, t\<lparr>tnet := Enable name True (Connect name servername rn)\<rparr>)))"

definition MakeClientTo :: "string list option \<Rightarrow> Clnts \<Rightarrow> 'w Tester \<Rightarrow> (nat \<times> Clnts \<times> 'w Tester) go" where
  "MakeClientTo srvs clnts t =
     (let c = cnext t; t = t\<lparr>cmem := (cmem t)(c := makeClntTo srvs), cnext := c + 1\<rparr>
      in case clnts of
           None \<Rightarrow> Panic
         | Some cs \<Rightarrow> Ret (c, Some (AList.update c () cs), t))"

definition MakeClient :: "Clnts \<Rightarrow> 'w Tester \<Rightarrow> (nat \<times> Clnts \<times> 'w Tester) go" where
  "MakeClient = MakeClientTo None"

fun remove_all :: "(nat \<times> unit) list \<Rightarrow> 'w Tester \<Rightarrow> 'w Tester go" where
  "remove_all [] t = Ret t"
| "remove_all ((c, u) # cs) t = go_bind (remove (cmem t c) t) (remove_all cs)"

definition Clnts_cleanup :: "Clnts \<Rightarrow> 'w Tester \<Rightarrow> (Clnts \<times> 'w Tester) go" where
  "Clnts_cleanup clnts t = go_bind (remove_all (slice clnts) t) (\<lambda>t. Ret (None, t))"

definition DeleteClient :: "nat \<Rightarrow> Clnts \<Rightarrow> 'w Tester \<Rightarrow> (Clnts \<times> 'w Tester) go" where
  "DeleteClient c clnts t =
     (if map_of (slice clnts) c \<noteq> None
      then go_bind (remove (cmem t c) t) (\<lambda>t. Ret (map_option (AList.delete c) clnts, t))
      else Ret (clnts, t))"

section \<open>Servers\<close>

text \<open>A \<open>ClientEnd\<close> is known by its name, so \<open>clntEnds\<close> holds names as well.\<close>

record 's TServer =
  saved :: "nat option"
  svcs :: "'s option list"
  endNames :: "string list option"
  clntEnds :: "string list"

definition ServerName :: "int \<Rightarrow> int \<Rightarrow> string" where
  "ServerName gid i = ''server-'' @ Itoa gid @ ''-'' @ Itoa i"

fun makeServer_ends :: "(nat \<Rightarrow> string) \<Rightarrow> int \<Rightarrow> nat list \<Rightarrow> 'w Tester \<Rightarrow> (string list \<times> 'w Tester) go" where
  "makeServer_ends names gid [] t = Ret ([], t)"
| "makeServer_ends names gid (j # js) t =
     (case Randstring names t of (name, t) \<Rightarrow>
        go_bind (MakeEnd name (tnet t)) (\<lambda>rn.
          go_bind (makeServer_ends names gid js (t\<lparr>tnet := Connect name (ServerName gid (int j)) rn\<rparr>)) (\<lambda>(es, t).
            Ret (name # es, t))))"

definition makeServer :: "(nat \<Rightarrow> string) \<Rightarrow> int \<Rightarrow> nat \<Rightarrow> 'w Tester \<Rightarrow> ('s TServer \<times> 'w Tester) go" where
  "makeServer names gid nsrv t =
     go_bind (makeServer_ends names gid [0..<nsrv] t) (\<lambda>(es, t).
       Ret (\<lparr>saved = None, svcs = [], endNames = Some es, clntEnds = es\<rparr>, t))"

text \<open>\<open>new_persister\<close> allocates what \<open>MakePersister\<close> and \<open>Copy\<close> return a pointer to.\<close>

definition new_persister :: "Persister \<Rightarrow> 'w Tester \<Rightarrow> nat \<times> 'w Tester" where
  "new_persister ps t = (pnext t, t\<lparr>pmem := (pmem t)(pnext t := ps), pnext := pnext t + 1\<rparr>)"

definition startServer :: "(nat \<Rightarrow> string) \<Rightarrow> int \<Rightarrow> 's TServer \<Rightarrow> 'w Tester \<Rightarrow> ('s TServer \<times> 'w Tester) go" where
  "startServer names gid s t =
     go_bind (makeServer names gid (length (slice (endNames s))) t) (\<lambda>(srv, t).
       case (case saved s of
               Some p \<Rightarrow> new_persister (Persister_Copy (pmem t p)) t
             | None \<Rightarrow> new_persister MakePersister t) of
         (p, t) \<Rightarrow> Ret (srv\<lparr>saved := Some p\<rparr>, t))"

fun Server_connect :: "bool list \<Rightarrow> 's TServer \<Rightarrow> int list \<Rightarrow> 'w Network \<Rightarrow> 'w Network go" where
  "Server_connect conn s [] rn = Ret rn"
| "Server_connect conn s (j # to) rn =
     go_bind (idx conn j) (\<lambda>c.
       if c then go_bind (idx (slice (endNames s)) j) (\<lambda>e. Server_connect conn s to (Enable e True rn))
       else Server_connect conn s to rn)"

fun Server_disconnect_loop :: "string list \<Rightarrow> int list \<Rightarrow> 'w Network \<Rightarrow> 'w Network go" where
  "Server_disconnect_loop es [] rn = Ret rn"
| "Server_disconnect_loop es (j # from) rn =
     go_bind (idx es j) (\<lambda>e. Server_disconnect_loop es from (Enable e False rn))"

definition Server_disconnect :: "'s TServer \<Rightarrow> int list \<Rightarrow> 'w Network \<Rightarrow> 'w Network go" where
  "Server_disconnect s from rn =
     (case endNames s of None \<Rightarrow> Ret rn | Some es \<Rightarrow> Server_disconnect_loop es from rn)"

text \<open>\<open>kill\<close> is the service's own \<open>Kill\<close>, acting on the state of the receivers.\<close>

fun kill_all :: "('s \<Rightarrow> 'w \<Rightarrow> 'w) \<Rightarrow> 's option list \<Rightarrow> 'w \<Rightarrow> 'w" where
  "kill_all kill [] w = w"
| "kill_all kill (svc # ss) w = kill_all kill ss (case svc of Some s \<Rightarrow> kill s w | None \<Rightarrow> w)"

definition shutdownServer :: "('s \<Rightarrow> 'w \<Rightarrow> 'w) \<Rightarrow> 's TServer \<Rightarrow> 'w Tester \<Rightarrow> 's TServer \<times> 'w Tester" where
  "shutdownServer kill s t =
     (case (case saved s of
              Some p \<Rightarrow> (case new_persister (Persister_Copy (pmem t p)) t of (q, t) \<Rightarrow> (s\<lparr>saved := Some q\<rparr>, t))
            | None \<Rightarrow> (s, t)) of
        (s, t) \<Rightarrow>
          (s\<lparr>svcs := []\<rparr>, t\<lparr>tnet := (tnet t)\<lparr>world := kill_all kill (svcs s) (world (tnet t))\<rparr>\<rparr>))"

section \<open>Groups of servers\<close>

record 's ServerGrp =
  srvs :: "'s TServer list"
  servernames :: "string list"
  sg_gid :: int
  connected :: "bool list"

fun makeServers :: "(nat \<Rightarrow> string) \<Rightarrow> int \<Rightarrow> nat \<Rightarrow> nat \<Rightarrow> 'w Tester \<Rightarrow> ('s TServer list \<times> 'w Tester) go" where
  "makeServers names gid n 0 t = Ret ([], t)"
| "makeServers names gid n (Suc k) t =
     go_bind (makeServer names gid n t) (\<lambda>(s, t).
       go_bind (makeServers names gid n k t) (\<lambda>(ss, t). Ret (s # ss, t)))"

definition makeSrvGrp :: "(nat \<Rightarrow> string) \<Rightarrow> int \<Rightarrow> nat \<Rightarrow> 'w Tester \<Rightarrow> ('s ServerGrp \<times> 'w Tester) go" where
  "makeSrvGrp names gid n t =
     go_bind (makeServers names gid n n t) (\<lambda>(ss, t).
       Ret (\<lparr>srvs = ss, servernames = map (\<lambda>i. ServerName gid (int i)) [0..<n], sg_gid = gid,
             connected = replicate n False\<rparr>, t))"

definition sg_N :: "'s ServerGrp \<Rightarrow> int" where
  "sg_N sg = int (length (srvs sg))"

definition SrvNames :: "'s ServerGrp \<Rightarrow> string list" where
  "SrvNames sg = servernames sg"

definition SrvName :: "int \<Rightarrow> 's ServerGrp \<Rightarrow> string go" where
  "SrvName i sg = idx (servernames sg) i"

definition Services :: "'s ServerGrp \<Rightarrow> 's option list list" where
  "Services sg = foldl (\<lambda>ss s. ss @ [svcs s]) [] (srvs sg)"

fun SrvNamesTo :: "int list \<Rightarrow> 's ServerGrp \<Rightarrow> string list go" where
  "SrvNamesTo [] sg = Ret []"
| "SrvNamesTo (i # to) sg = go_bind (idx (servernames sg) i) (\<lambda>n. go_bind (SrvNamesTo to sg) (\<lambda>ns. Ret (n # ns)))"

definition sg_all :: "'s ServerGrp \<Rightarrow> int list" where
  "sg_all sg = map int [0..<length (srvs sg)]"

definition IsConnected :: "int \<Rightarrow> 's ServerGrp \<Rightarrow> bool go" where
  "IsConnected i sg = idx (connected sg) i"

definition GetConnected :: "'s ServerGrp \<Rightarrow> bool list" where
  "GetConnected sg = connected sg"

fun connect_incoming :: "'s ServerGrp \<Rightarrow> int \<Rightarrow> int list \<Rightarrow> 'w Network \<Rightarrow> 'w Network go" where
  "connect_incoming sg i [] rn = Ret rn"
| "connect_incoming sg i (j # to) rn =
     go_bind (IsConnected j sg) (\<lambda>c.
       if c then go_bind (idx (srvs sg) j) (\<lambda>s.
         go_bind (idx (slice (endNames s)) i) (\<lambda>e. connect_incoming sg i to (Enable e True rn)))
       else connect_incoming sg i to rn)"

definition sg_connect :: "int \<Rightarrow> int list \<Rightarrow> 's ServerGrp \<Rightarrow> 'w Tester \<Rightarrow> ('s ServerGrp \<times> 'w Tester) go" where
  "sg_connect i to sg t =
     go_bind (set_idx (connected sg) i True) (\<lambda>cs.
       let sg = sg\<lparr>connected := cs\<rparr>
       in go_bind (idx (srvs sg) i) (\<lambda>s.
            go_bind (Server_connect (connected sg) s to (tnet t)) (\<lambda>rn.
              go_bind (connect_incoming sg i to rn) (\<lambda>rn. Ret (sg, t\<lparr>tnet := rn\<rparr>)))))"

fun disconnect_incoming :: "'s ServerGrp \<Rightarrow> int \<Rightarrow> int list \<Rightarrow> 'w Network \<Rightarrow> 'w Network go" where
  "disconnect_incoming sg i [] rn = Ret rn"
| "disconnect_incoming sg i (j # from) rn =
     go_bind (idx (srvs sg) j) (\<lambda>s.
       case endNames s of
         Some es \<Rightarrow> go_bind (idx es i) (\<lambda>e. disconnect_incoming sg i from (Enable e False rn))
       | None \<Rightarrow> disconnect_incoming sg i from rn)"

definition sg_disconnect :: "int \<Rightarrow> int list \<Rightarrow> 's ServerGrp \<Rightarrow> 'w Tester \<Rightarrow> ('s ServerGrp \<times> 'w Tester) go" where
  "sg_disconnect i from sg t =
     go_bind (set_idx (connected sg) i False) (\<lambda>cs.
       let sg = sg\<lparr>connected := cs\<rparr>
       in go_bind (idx (srvs sg) i) (\<lambda>s.
            go_bind (Server_disconnect s from (tnet t)) (\<lambda>rn.
              go_bind (disconnect_incoming sg i from rn) (\<lambda>rn. Ret (sg, t\<lparr>tnet := rn\<rparr>)))))"

definition ConnectOne :: "int \<Rightarrow> 's ServerGrp \<Rightarrow> 'w Tester \<Rightarrow> ('s ServerGrp \<times> 'w Tester) go" where
  "ConnectOne i sg t = sg_connect i (sg_all sg) sg t"

fun each_server ::
  "(int \<Rightarrow> 'g \<Rightarrow> 't \<Rightarrow> ('g \<times> 't) go) \<Rightarrow> int list \<Rightarrow> 'g \<Rightarrow> 't \<Rightarrow> ('g \<times> 't) go" where
  "each_server f [] sg t = Ret (sg, t)"
| "each_server f (i # is) sg t = go_bind (f i sg t) (\<lambda>(sg, t). each_server f is sg t)"

definition sg_ConnectAll :: "'s ServerGrp \<Rightarrow> 'w Tester \<Rightarrow> ('s ServerGrp \<times> 'w Tester) go" where
  "sg_ConnectAll sg t = each_server ConnectOne (sg_all sg) sg t"

definition sg_DisconnectAll :: "int \<Rightarrow> 's ServerGrp \<Rightarrow> 'w Tester \<Rightarrow> ('s ServerGrp \<times> 'w Tester) go" where
  "sg_DisconnectAll i sg t = sg_disconnect i (sg_all sg) sg t"

text \<open>Calling \<open>Kill\<close> on a nil service, or reading the size of a nil persister, panics.\<close>

fun sg_kill :: "('s \<Rightarrow> 'w \<Rightarrow> 'w) \<Rightarrow> 's option list \<Rightarrow> 'w \<Rightarrow> 'w go" where
  "sg_kill kill [] w = Ret w"
| "sg_kill kill (svc # ss) w = (case svc of Some s \<Rightarrow> sg_kill kill ss (kill s w) | None \<Rightarrow> Panic)"

definition sg_cleanup :: "('s \<Rightarrow> 'w \<Rightarrow> 'w) \<Rightarrow> 's ServerGrp \<Rightarrow> 'w Tester \<Rightarrow> 'w Tester go" where
  "sg_cleanup kill sg t =
     go_bind (sg_kill kill (concat (map svcs (srvs sg))) (world (tnet t))) (\<lambda>w.
       Ret (t\<lparr>tnet := (tnet t)\<lparr>world := w\<rparr>\<rparr>))"

fun max_size :: "(Persister \<Rightarrow> int) \<Rightarrow> int \<Rightarrow> 's TServer list \<Rightarrow> 'w Tester \<Rightarrow> int go" where
  "max_size sz acc [] t = Ret acc"
| "max_size sz acc (s # ss) t =
     (case saved s of
        None \<Rightarrow> Panic
      | Some p \<Rightarrow> let n = sz (pmem t p) in max_size sz (if n > acc then n else acc) ss t)"

definition LogSize :: "'s ServerGrp \<Rightarrow> 'w Tester \<Rightarrow> int go" where
  "LogSize sg t = max_size RaftStateSize 0 (srvs sg) t"

definition sg_SnapshotSize :: "'s ServerGrp \<Rightarrow> 'w Tester \<Rightarrow> int go" where
  "sg_SnapshotSize sg t = max_size SnapshotSize 0 (srvs sg) t"

text \<open>
  The program under test: \<open>ps_Kill\<close> of a service, \<open>ps_MakeService\<close> and the \<open>FstartServer\<close> that makes the
  services of a server from its ends, its place and its persister; starting them may change the state
  of the receivers and the persisters.
\<close>

record ('w, 's) program =
  ps_Kill :: "'s \<Rightarrow> 'w \<Rightarrow> 'w"
  ps_MakeService :: "'s option \<Rightarrow> 'w Service go"
  ps_mks :: "string list \<Rightarrow> int \<Rightarrow> int \<Rightarrow> nat \<Rightarrow> 'w \<Rightarrow> (nat \<Rightarrow> Persister) \<Rightarrow> 's option list \<times> 'w \<times> (nat \<Rightarrow> Persister)"

fun AddServices :: "('w, 's) program \<Rightarrow> 's option list \<Rightarrow> 'w Server \<Rightarrow> 'w Server go" where
  "AddServices pr [] labsrv = Ret labsrv"
| "AddServices pr (svc # ss) labsrv =
     go_bind (ps_MakeService pr svc) (\<lambda>s. AddServices pr ss (AddService s labsrv))"

definition StartServer ::
  "(nat \<Rightarrow> string) \<Rightarrow> ('w, 's) program \<Rightarrow> int \<Rightarrow> 's ServerGrp \<Rightarrow> 'w Tester \<Rightarrow> ('s ServerGrp \<times> 'w Tester) go" where
  "StartServer names pr i sg t =
     go_bind (idx (srvs sg) i) (\<lambda>s.
       go_bind (startServer names (sg_gid sg) s t) (\<lambda>(srv, t).
         case saved srv of
           None \<Rightarrow> Panic
         | Some p \<Rightarrow>
             (case ps_mks pr (clntEnds srv) (sg_gid sg) i p (world (tnet t)) (pmem t) of (ss, w, pm) \<Rightarrow>
                go_bind (AddServices pr ss MakeServer) (\<lambda>labsrv.
                  let srv = srv\<lparr>svcs := ss\<rparr>; a = snext t;
                      rn = (tnet t)\<lparr>world := w, store := (store (tnet t))(a := labsrv)\<rparr>
                  in go_bind (set_idx (srvs sg) i srv) (\<lambda>ss'.
                       Ret (sg\<lparr>srvs := ss'\<rparr>,
                            t\<lparr>pmem := pm, snext := a + 1, tnet := AddServer (ServerName (sg_gid sg) i) a rn\<rparr>))))))"

definition sg_start ::
  "(nat \<Rightarrow> string) \<Rightarrow> ('w, 's) program \<Rightarrow> 's ServerGrp \<Rightarrow> 'w Tester \<Rightarrow> ('s ServerGrp \<times> 'w Tester) go" where
  "sg_start names pr sg t = each_server (StartServer names pr) (sg_all sg) sg t"

definition StartServers ::
  "(nat \<Rightarrow> string) \<Rightarrow> ('w, 's) program \<Rightarrow> 's ServerGrp \<Rightarrow> 'w Tester \<Rightarrow> ('s ServerGrp \<times> 'w Tester) go" where
  "StartServers names pr sg t = go_bind (sg_start names pr sg t) (\<lambda>(sg, t). sg_ConnectAll sg t)"

definition ShutdownServer ::
  "('w, 's) program \<Rightarrow> int \<Rightarrow> 's ServerGrp \<Rightarrow> 'w Tester \<Rightarrow> ('s ServerGrp \<times> 'w Tester) go" where
  "ShutdownServer pr i sg t =
     go_bind (sg_disconnect i (sg_all sg) sg t) (\<lambda>(sg, t).
       let t = t\<lparr>tnet := DeleteServer (ServerName (sg_gid sg) i) (tnet t)\<rparr>
       in go_bind (idx (srvs sg) i) (\<lambda>s.
            case shutdownServer (ps_Kill pr) s t of (s, t) \<Rightarrow>
              go_bind (set_idx (srvs sg) i s) (\<lambda>ss. Ret (sg\<lparr>srvs := ss\<rparr>, t))))"

definition Shutdown :: "('w, 's) program \<Rightarrow> 's ServerGrp \<Rightarrow> 'w Tester \<Rightarrow> ('s ServerGrp \<times> 'w Tester) go" where
  "Shutdown pr sg t = each_server (ShutdownServer pr) (sg_all sg) sg t"

text \<open>\<open>MakePartition\<close>: the loop writes the servers other than \<open>l\<close> into \<open>p1\<close>, then into \<open>p2\<close>.\<close>

fun MakePartition_loop :: "int \<Rightarrow> int list \<Rightarrow> int \<Rightarrow> int list \<Rightarrow> int list \<Rightarrow> (int list \<times> int list) go" where
  "MakePartition_loop l [] j p1 p2 = Ret (p1, p2)"
| "MakePartition_loop l (i # is) j p1 p2 =
     (if i \<noteq> l
      then if j < int (length p1)
        then go_bind (set_idx p1 j i) (\<lambda>p1. MakePartition_loop l is (j + 1) p1 p2)
        else go_bind (set_idx p2 (j - int (length p1)) i) (\<lambda>p2. MakePartition_loop l is (j + 1) p1 p2)
      else MakePartition_loop l is j p1 p2)"

definition MakePartition :: "int \<Rightarrow> 's ServerGrp \<Rightarrow> (int list \<times> int list) go" where
  "MakePartition l sg =
     (let n = length (srvs sg)
      in go_bind (MakePartition_loop l (map int [0..<n]) 0 (replicate (n div 2 + 1) 0) (replicate (n div 2) 0))
           (\<lambda>(p1, p2). go_bind (set_idx p2 (int (length p2) - 1) l) (\<lambda>p2. Ret (p1, p2))))"

definition isolate :: "int list \<Rightarrow> int list \<Rightarrow> int \<Rightarrow> 's ServerGrp \<Rightarrow> 'w Tester \<Rightarrow> ('s ServerGrp \<times> 'w Tester) go" where
  "isolate mine others i sg t =
     go_bind (sg_disconnect i others sg t) (\<lambda>(sg, t). sg_connect i mine sg t)"

definition Partition :: "int list \<Rightarrow> int list \<Rightarrow> 's ServerGrp \<Rightarrow> 'w Tester \<Rightarrow> ('s ServerGrp \<times> 'w Tester) go" where
  "Partition p1 p2 sg t =
     go_bind (each_server (isolate p1 p2) p1 sg t) (\<lambda>(sg, t). each_server (isolate p2 p1) p2 sg t)"

definition RpcCount :: "int \<Rightarrow> 's ServerGrp \<Rightarrow> 'w Tester \<Rightarrow> int go" where
  "RpcCount server sg t = GetCount (ServerName (sg_gid sg) server) (tnet t)"

section \<open>Groups and the configuration\<close>

text \<open>The groups by number; a missing one is a nil \<open>*ServerGrp\<close>.\<close>

type_synonym 's Groups = "(int, 's ServerGrp) gomap"

definition newGroups :: "'s Groups" where
  "newGroups = []"

definition MakeGroup ::
  "(nat \<Rightarrow> string) \<Rightarrow> int \<Rightarrow> nat \<Rightarrow> 's Groups \<Rightarrow> 'w Tester \<Rightarrow> ('s Groups \<times> 'w Tester) go" where
  "MakeGroup names gid nsrv gs t =
     go_bind (makeSrvGrp names gid nsrv t) (\<lambda>(sg, t). Ret (AList.update gid sg gs, t))"

definition lookupGroup :: "int \<Rightarrow> 's Groups \<Rightarrow> 's ServerGrp option" where
  "lookupGroup gid gs = map_of gs gid"

definition Groups_delete :: "int \<Rightarrow> 's Groups \<Rightarrow> 's Groups" where
  "Groups_delete gid gs = AList.delete gid gs"

fun Groups_cleanup :: "('w, 's) program \<Rightarrow> 's Groups \<Rightarrow> 'w Tester \<Rightarrow> 'w Tester go" where
  "Groups_cleanup pr [] t = Ret t"
| "Groups_cleanup pr ((gid, sg) # gs) t = go_bind (sg_cleanup (ps_Kill pr) sg t) (Groups_cleanup pr gs)"

record 's Config =
  Clnts :: Clnts
  Groups :: "'s Groups"
  rpcs0 :: int
  cfg_ops :: "32 word"

text \<open>A method of the group with number \<open>gid\<close>, called through the pointer in the map.\<close>

definition on_group ::
  "int \<Rightarrow> ('s ServerGrp \<Rightarrow> 'w Tester \<Rightarrow> ('s ServerGrp \<times> 'w Tester) go) \<Rightarrow> 's Config \<Rightarrow> 'w Tester \<Rightarrow>
   ('s Config \<times> 'w Tester) go" where
  "on_group gid f cfg t =
     (case lookupGroup gid (Groups cfg) of
        None \<Rightarrow> Panic
      | Some sg \<Rightarrow> go_bind (f sg t) (\<lambda>(sg, t). Ret (cfg\<lparr>Groups := AList.update gid sg (Groups cfg)\<rparr>, t)))"

definition MakeGroupStart ::
  "(nat \<Rightarrow> string) \<Rightarrow> ('w, 's) program \<Rightarrow> int \<Rightarrow> nat \<Rightarrow> 's Config \<Rightarrow> 'w Tester \<Rightarrow> ('s Config \<times> 'w Tester) go" where
  "MakeGroupStart names pr gid nsrv cfg t =
     go_bind (MakeGroup names gid nsrv (Groups cfg) t) (\<lambda>(gs, t).
       on_group gid (StartServers names pr) (cfg\<lparr>Groups := gs\<rparr>) t)"

definition GRP0 :: int where
  "GRP0 = 0"

definition MakeConfig ::
  "(nat \<Rightarrow> string) \<Rightarrow> ('w, 's) program \<Rightarrow> nat \<Rightarrow> bool \<Rightarrow> 'w Tester \<Rightarrow> ('s Config \<times> 'w Tester) go" where
  "MakeConfig names pr n rel t =
     (let t = t\<lparr>tnet := MakeNetwork (store (tnet t)) (world (tnet t))\<rparr>;
          cfg = \<lparr>Clnts = None, Groups = newGroups, rpcs0 = 0, cfg_ops = 0\<rparr>
      in go_bind (MakeGroupStart names pr GRP0 n cfg t) (\<lambda>(cfg, t).
           Ret (cfg\<lparr>Clnts := makeClnts\<rparr>, t\<lparr>tnet := Reliable rel (tnet t)\<rparr>)))"

definition SetReliable :: "bool \<Rightarrow> 'w Tester \<Rightarrow> 'w Tester" where
  "SetReliable rel t = t\<lparr>tnet := Reliable rel (tnet t)\<rparr>"

definition SetLongReordering :: "bool \<Rightarrow> 'w Tester \<Rightarrow> 'w Tester" where
  "SetLongReordering longrel t = t\<lparr>tnet := LongReordering longrel (tnet t)\<rparr>"

definition SetLongDelays :: "bool \<Rightarrow> 'w Tester \<Rightarrow> 'w Tester" where
  "SetLongDelays longdel t = t\<lparr>tnet := LongDelays longdel (tnet t)\<rparr>"

definition ExitGroup :: "('w, 's) program \<Rightarrow> int \<Rightarrow> 's Config \<Rightarrow> 'w Tester \<Rightarrow> ('s Config \<times> 'w Tester) go" where
  "ExitGroup pr gid cfg t =
     go_bind (on_group gid (Shutdown pr) cfg t) (\<lambda>(cfg, t).
       Ret (cfg\<lparr>Groups := Groups_delete gid (Groups cfg)\<rparr>, t))"

definition Config_Cleanup :: "('w, 's) program \<Rightarrow> 's Config \<Rightarrow> 'w Tester \<Rightarrow> ('s Config \<times> 'w Tester) go" where
  "Config_Cleanup pr cfg t =
     go_bind (Clnts_cleanup (Clnts cfg) t) (\<lambda>(cs, t).
       go_bind (Groups_cleanup pr (Groups cfg) t) (\<lambda>t.
         Ret (cfg\<lparr>Clnts := cs\<rparr>, t\<lparr>tnet := Cleanup (tnet t)\<rparr>)))"

definition Config_Begin :: "'s Config \<Rightarrow> 'w Tester \<Rightarrow> 's Config" where
  "Config_Begin cfg t = cfg\<lparr>rpcs0 := GetTotalCount (tnet t), cfg_ops := 0\<rparr>"

definition Config_Op :: "'s Config \<Rightarrow> 's Config" where
  "Config_Op cfg = cfg\<lparr>cfg_ops := cfg_ops cfg + 1\<rparr>"

text \<open>\<open>random_handles\<close>: \<open>rs\<close> are the results of \<open>rand.Intn (i + 1)\<close>, so the \<open>i\<close>-th is at most \<open>i\<close>.\<close>

fun shuffle :: "nat \<Rightarrow> nat list \<Rightarrow> 'a list \<Rightarrow> 'a list" where
  "shuffle i [] sa = sa"
| "shuffle i (j # rs) sa = shuffle (i + 1) rs (sa[i := sa ! j, j := sa ! i])"

definition random_handles :: "nat list \<Rightarrow> 'a list \<Rightarrow> 'a list" where
  "random_handles rs kvh = shuffle 0 rs kvh"

section \<open>Enabling end points\<close>

lemma is_enabled_Enable [simp]: "is_enabled x (Enable e b rn) = (if x = e then b else is_enabled x rn)"
  by (simp add: is_enabled_def Enable_def update_conv')

lemma enable_frame [simp]:
  "connection x (Enable e b rn) = connection x rn" "server_ptr s (Enable e b rn) = server_ptr s rn"
  "world (Enable e b rn) = world rn" "net_done (Enable e b rn) = net_done rn" "ends (Enable e b rn) = ends rn"
  by (simp_all add: Enable_def connection_def server_ptr_def)

lemma enable_ends_enabled:
  "is_enabled x (enable_ends es P b rn) = (if \<exists>s. (s, x) \<in> set es \<and> P s then b else is_enabled x rn)"
  by (induction es P b rn rule: enable_ends.induct) auto

lemma enable_ends_frame [simp]:
  "world (enable_ends es P b rn) = world rn" "net_done (enable_ends es P b rn) = net_done rn"
  "ends (enable_ends es P b rn) = ends rn"
  by (induction es P b rn rule: enable_ends.induct) auto

section \<open>Clerks cut off\<close>

text \<open>
  \<open>names_fresh\<close>: every end of the network carries a name drawn before. With distinct names \<open>MakeEnd\<close>
  then never finds its name taken.
\<close>

definition names_fresh :: "(nat \<Rightarrow> string) \<Rightarrow> 'w Tester \<Rightarrow> bool" where
  "names_fresh names t \<longleftrightarrow> inj names \<and> (\<forall>k \<ge> drawn t. map_of (ends (tnet t)) (names k) = None)"

definition cut_off :: "Clnt \<Rightarrow> 'w Tester \<Rightarrow> bool" where
  "cut_off clnt t \<longleftrightarrow> clnt_srvs clnt = Some [] \<and> (\<forall>(s, e) \<in> set (clnt_ends clnt). \<not> is_enabled e (tnet t))"

fun Clnt_Calls ::
  "(nat \<Rightarrow> string) \<Rightarrow> ('a \<Rightarrow> bytes option) \<Rightarrow> (bytes \<Rightarrow> 'r option) \<Rightarrow> (int \<times> int \<times> string \<times> string \<times> 'a) list \<Rightarrow>
   Clnt \<Rightarrow> 'w Tester \<Rightarrow> ('r option list \<times> Clnt \<times> 'w Tester) go" where
  "Clnt_Calls names enc dec [] clnt t = Ret ([], clnt, t)"
| "Clnt_Calls names enc dec ((r, r', server, meth, a) # cs) clnt t =
     go_bind (Clnt_Call names enc dec r r' server meth a clnt t) (\<lambda>(x, clnt, t).
       go_bind (Clnt_Calls names enc dec cs clnt t) (\<lambda>(xs, clnt, t). Ret (x # xs, clnt, t)))"

lemma makeEnd_cut_off:
  assumes "names_fresh names t" and "cut_off clnt t" and "\<not> net_done (tnet t)"
  shows "\<exists>e clnt' t'. Clnt_makeEnd names server clnt t = Ret (e, clnt', t') \<and> \<not> is_enabled e (tnet t') \<and>
    names_fresh names t' \<and> cut_off clnt' t' \<and> \<not> net_done (tnet t') \<and> world (tnet t') = world (tnet t)"
proof (cases "map_of (clnt_ends clnt) server")
  case (Some e)
  then have "(server, e) \<in> set (clnt_ends clnt)" by (rule map_of_SomeD)
  with Some assms show ?thesis by (auto simp: Clnt_makeEnd_def cut_off_def)
next
  case None
  let ?name = "names (drawn t)"
  let ?rn = "(tnet t)\<lparr>ends := AList.update ?name () (ends (tnet t)), enabled := AList.update ?name False (enabled (tnet t)),
    connections := AList.update ?name None (connections (tnet t))\<rparr>"
  let ?rn' = "Enable ?name False (Connect ?name server ?rn)"
  let ?clnt = "clnt\<lparr>clnt_ends := AList.update server ?name (clnt_ends clnt)\<rparr>"
  have "MakeEnd ?name (tnet t) = Ret ?rn"
    using assms(1) by (simp add: MakeEnd_def names_fresh_def)
  with None assms(2) have eq: "Clnt_makeEnd names server clnt t = Ret (?name, ?clnt, t\<lparr>drawn := drawn t + 1, tnet := ?rn'\<rparr>)"
    by (simp add: Clnt_makeEnd_def Randstring_def cut_off_def allowedL_def Let_def)
  have en: "is_enabled x ?rn' \<longleftrightarrow> x \<noteq> ?name \<and> is_enabled x (tnet t)" for x
    by (simp add: Connect_def is_enabled_def Enable_def update_conv')
  have "names_fresh names (t\<lparr>drawn := drawn t + 1, tnet := ?rn'\<rparr>)"
    using assms(1) by (auto simp: names_fresh_def Connect_def update_conv' inj_eq)
  moreover have "cut_off ?clnt (t\<lparr>drawn := drawn t + 1, tnet := ?rn'\<rparr>)"
    using assms(2) set_gm_put [of server ?name "clnt_ends clnt"] en by (auto simp: cut_off_def)
  ultimately show ?thesis
    using eq en assms(3) by (simp add: Connect_def)
qed

lemma Call_cut_off:
  assumes "names_fresh names t" and "cut_off clnt t" and "\<not> net_done (tnet t)" and "enc a \<noteq> None"
  shows "\<exists>clnt' t'. Clnt_Call names enc dec r r' server meth a clnt t = Ret (None, clnt', t') \<and>
    names_fresh names t' \<and> cut_off clnt' t' \<and> \<not> net_done (tnet t') \<and> world (tnet t') = world (tnet t)"
proof -
  obtain e clnt' t' where mk: "Clnt_makeEnd names server clnt t = Ret (e, clnt', t')"
    and off: "\<not> is_enabled e (tnet t')"
    and inv: "names_fresh names t'" "cut_off clnt' t'" "\<not> net_done (tnet t')" "world (tnet t') = world (tnet t)"
    using makeEnd_cut_off [OF assms(1-3), of server] by blast
  obtain qb where "enc a = Some qb" using assms(4) by auto
  then have "Call enc dec r r' e meth a (tnet t') =
      Ret (accept \<lparr>req_endname = e, req_svcMeth = meth, req_args = qb\<rparr> (tnet t'), None)"
    using inv(3) off by (blast intro: Call_refused_eq)
  moreover have "names_fresh names (t'\<lparr>tnet := accept req (tnet t')\<rparr>)"
    "cut_off clnt' (t'\<lparr>tnet := accept req (tnet t')\<rparr>)" "\<not> net_done (accept req (tnet t'))" for req
    using inv by (auto simp: names_fresh_def cut_off_def) (simp_all add: accept_def)
  ultimately show ?thesis
    using mk inv(4) by (simp add: Clnt_Call_def)
qed

lemma Calls_cut_off:
  assumes "\<forall>a. enc a \<noteq> None"
  shows "names_fresh names t \<Longrightarrow> cut_off clnt t \<Longrightarrow> \<not> net_done (tnet t) \<Longrightarrow>
    \<exists>clnt' t'. Clnt_Calls names enc dec cs clnt t = Ret (replicate (length cs) None, clnt', t') \<and>
      world (tnet t') = world (tnet t)"
proof (induction cs arbitrary: clnt t)
  case (Cons c cs)
  obtain r r' server meth a where c: "c = (r, r', server, meth, a)" by (cases c)
  from Cons.prems assms obtain clnt' t' where
    "Clnt_Call names enc dec r r' server meth a clnt t = Ret (None, clnt', t')" "world (tnet t') = world (tnet t)"
    and inv: "names_fresh names t'" "cut_off clnt' t'" "\<not> net_done (tnet t')"
    using Call_cut_off [of names t clnt enc a dec r r' server meth] by blast
  with Cons.IH [OF inv] c show ?case by auto
qed simp

section \<open>Properties\<close>

text \<open>
  C29: a clerk that was disconnected from all servers is cut off. After \<open>DisconnectAll\<close> every call of the
  clerk, to servers it already has an end to and to servers it has not talked to before, returns without
  a reply, for any number of calls, and none of them runs a handler.
\<close>

theorem DisconnectAll_cuts_off:
  assumes "names_fresh names t" and "\<not> net_done (tnet t)" and "\<forall>a. enc a \<noteq> None"
  shows "\<exists>clnt'' t''. (case Clnt_DisconnectAll clnt t of (clnt', t') \<Rightarrow> Clnt_Calls names enc dec cs clnt' t') =
      Ret (replicate (length cs) None, clnt'', t'') \<and> world (tnet t'') = world (tnet t)"
proof -
  obtain clnt' t' where d: "Clnt_DisconnectAll clnt t = (clnt', t')" by force
  then have "cut_off clnt' t'"
    by (auto simp: Clnt_DisconnectAll_def cut_off_def enable_ends_enabled split: if_splits)
  moreover from d assms(1,2) have "names_fresh names t'" "\<not> net_done (tnet t')" "world (tnet t') = world (tnet t)"
    by (auto simp: Clnt_DisconnectAll_def names_fresh_def)
  ultimately show ?thesis
    using Calls_cut_off [OF assms(3)] d by fastforce
qed

theorem DisconnectAll_cuts_off_witness:
  "\<exists>clnt'' (t'' :: nat Tester).
     (case Clnt_DisconnectAll \<lparr>clnt_ends = [(''s'', ''e'')], clnt_srvs = None\<rparr>
        \<lparr>tnet = Enable ''e'' True (MakeNetwork (\<lambda>p. MakeServer) (5 :: nat)), drawn = 0, pmem = (\<lambda>p. MakePersister), pnext = 0,
         snext = 0, cmem = (\<lambda>c. makeClntTo None), cnext = 0\<rparr> of
        (clnt', t') \<Rightarrow> Clnt_Calls (\<lambda>k. replicate k (CHR ''x'')) (\<lambda>b :: bytes. Some b) (\<lambda>b. Some b)
           [(0, 0, ''s'', ''S.m'', [1]), (0, 0, ''r'', ''S.m'', [2])] clnt' t') =
     Ret ([None, None], clnt'', t'') \<and> world (tnet t'') = 5"
proof -
  let ?names = "\<lambda>k. replicate k (CHR ''x'')"
  let ?t = "\<lparr>tnet = Enable ''e'' True (MakeNetwork (\<lambda>p. MakeServer) (5 :: nat)), drawn = 0, pmem = (\<lambda>p. MakePersister), pnext = 0,
         snext = 0, cmem = (\<lambda>c. makeClntTo None), cnext = 0\<rparr>"
  have "inj ?names" by (rule injI) (metis length_replicate)
  then have "names_fresh ?names ?t" "\<not> net_done (tnet ?t)" "world (tnet ?t) = 5"
    by (simp_all add: names_fresh_def MakeNetwork_def)
  then show ?thesis
    using DisconnectAll_cuts_off [of ?names ?t "\<lambda>b :: bytes. Some b" "\<lambda>b. Some b"
        "[(0, 0, ''s'', ''S.m'', [1]), (0, 0, ''r'', ''S.m'', [2])]" "\<lparr>clnt_ends = [(''s'', ''e'')], clnt_srvs = None\<rparr>"]
    by (simp add: eval_nat_numeral)
qed

text \<open>
  \<open>ConnectTo\<close> only ever enables: an end to a server that is not in the list stays as it was, so a clerk
  that has already talked to that server still can.
\<close>

lemma ConnectTo_enabled:
  "is_enabled e (tnet (snd (ConnectTo (Some ss) clnt t))) \<longleftrightarrow>
     is_enabled e (tnet t) \<or> (\<exists>s \<in> set ss. (s, e) \<in> set (clnt_ends clnt))"
  by (auto simp: ConnectTo_def enable_ends_enabled allowedL_def)

text \<open>The order in which a clerk tries its servers is a permutation of them.\<close>

lemma shuffle_mset:
  "length rs + i \<le> length sa \<Longrightarrow> \<forall>k < length rs. rs ! k \<le> i + k \<Longrightarrow> mset (shuffle i rs sa) = mset sa"
proof (induction i rs sa rule: shuffle.induct)
  case (2 i j rs sa)
  have "j \<le> i" and "\<forall>k < length rs. rs ! k \<le> Suc i + k" using "2.prems"(2) by (auto simp: All_less_Suc2)
  with 2 show ?case using mset_swap [of j sa i] by simp
qed simp

lemma random_handles_permutes:
  "length rs = length kvh \<Longrightarrow> \<forall>i < length rs. rs ! i \<le> i \<Longrightarrow> mset (random_handles rs kvh) = mset kvh"
  by (simp add: random_handles_def shuffle_mset)

end
