(* ===== verification/Topology.thy ===== *)
theory Topology
  imports Tester
begin

text \<open>
  Who can talk to whom in a group of servers (\<open>tester1/group.go\<close>): the operations that connect,
  disconnect and partition servers work on end points of the network; here they are related to a
  topology, the set of connected servers and the directed links between them, and \<open>Partition\<close> and
  \<open>MakePartition\<close> are shown to build the two sides that the tests ask for.
\<close>

section \<open>What connecting means\<close>

text \<open>
  What connecting and disconnecting means: which servers are connected (\<open>snd\<close>) and from which server to
  which messages pass (\<open>fst\<close>), as functions of server numbers. \<open>topo_of\<close> reads the topology off the
  group and the network; the operations on the end points implement \<open>topo_connect\<close> and
  \<open>topo_disconnect\<close>.
\<close>

type_synonym topo = "(int \<Rightarrow> int \<Rightarrow> bool) \<times> (int \<Rightarrow> bool)"

definition member :: "'s ServerGrp \<Rightarrow> int \<Rightarrow> bool" where
  "member sg i \<longleftrightarrow> 0 \<le> i \<and> i < int (length (srvs sg))"

definition endname :: "'s ServerGrp \<Rightarrow> int \<Rightarrow> int \<Rightarrow> string" where
  "endname sg i j = slice (endNames (srvs sg ! nat i)) ! nat j"

definition sg_wf :: "'s ServerGrp \<Rightarrow> bool" where
  "sg_wf sg \<longleftrightarrow> length (connected sg) = length (srvs sg) \<and>
     (\<forall>s\<in>set (srvs sg). endNames s \<noteq> None \<and> length (slice (endNames s)) = length (srvs sg)) \<and>
     (\<forall>i j i' j'. member sg i \<and> member sg j \<and> member sg i' \<and> member sg j' \<and> endname sg i j = endname sg i' j' \<longrightarrow>
        i = i' \<and> j = j')"

definition topo_of :: "'s ServerGrp \<Rightarrow> 'w Network \<Rightarrow> topo" where
  "topo_of sg rn = (\<lambda>i j. member sg i \<and> member sg j \<and> is_enabled (endname sg i j) rn,
                   \<lambda>i. member sg i \<and> connected sg ! nat i)"

definition topo_connect :: "int \<Rightarrow> int list \<Rightarrow> topo \<Rightarrow> topo" where
  "topo_connect i to T = (let C = (snd T)(i := True)
     in (\<lambda>x y. fst T x y \<or> x = i \<and> y \<in> set to \<and> C y \<or> y = i \<and> x \<in> set to \<and> C x, C))"

definition topo_disconnect :: "int \<Rightarrow> int list \<Rightarrow> topo \<Rightarrow> topo" where
  "topo_disconnect i from T =
     (\<lambda>x y. fst T x y \<and> \<not> (x = i \<and> y \<in> set from) \<and> \<not> (y = i \<and> x \<in> set from), (snd T)(i := False))"

lemma idx_member [simp]: "member sg i \<Longrightarrow> idx (srvs sg) i = Ret (srvs sg ! nat i)"
  by (simp add: member_def idx_def)

lemma wf_endNames:
  assumes "sg_wf sg" and "member sg i"
  obtains es where "endNames (srvs sg ! nat i) = Some es" "length es = length (srvs sg)"
proof -
  have "srvs sg ! nat i \<in> set (srvs sg)" using assms(2) by (auto simp: member_def)
  with assms(1) that show thesis by (force simp: sg_wf_def slice_def split: option.splits)
qed

lemma wf_idx_end:
  assumes "sg_wf sg" and "member sg i" and "member sg j"
  shows "idx (slice (endNames (srvs sg ! nat i))) j = Ret (endname sg i j)"
proof -
  obtain es where "endNames (srvs sg ! nat i) = Some es" "length es = length (srvs sg)"
    using wf_endNames [OF assms(1,2)] .
  then show ?thesis using assms(3) by (simp add: idx_def slice_def member_def endname_def)
qed

lemma wf_idx_connected: "sg_wf sg \<Longrightarrow> member sg i \<Longrightarrow> idx (connected sg) i = Ret (connected sg ! nat i)"
  by (simp add: sg_wf_def member_def idx_def)

lemma connected_frame [simp]:
  "member (sg\<lparr>connected := cs\<rparr>) = member sg" "endname (sg\<lparr>connected := cs\<rparr>) = endname sg"
  by (simp_all add: member_def endname_def fun_eq_iff)

lemma wf_set_connected [simp]: "sg_wf (sg\<lparr>connected := (connected sg)[k := b]\<rparr>) = sg_wf sg"
  unfolding sg_wf_def connected_frame by simp

lemma wf_end_inj:
  "sg_wf sg \<Longrightarrow> member sg i \<Longrightarrow> member sg j \<Longrightarrow> member sg i' \<Longrightarrow> member sg j' \<Longrightarrow>
   endname sg i j = endname sg i' j' \<longleftrightarrow> i = i' \<and> j = j'"
  unfolding sg_wf_def by blast

text \<open>What a loop over end points leaves alone: everything but the enabled flags.\<close>

definition only_enabled :: "'w Network \<Rightarrow> 'w Network \<Rightarrow> bool" where
  "only_enabled rn rn' \<longleftrightarrow> rn' = rn\<lparr>enabled := enabled rn'\<rparr>"

lemma only_enabled_refl [simp]: "only_enabled rn rn"
  by (simp add: only_enabled_def)

lemma only_enabled_trans: "only_enabled rn rn' \<Longrightarrow> only_enabled rn' rn'' \<Longrightarrow> only_enabled rn rn''"
  unfolding only_enabled_def by (cases rn; cases rn'; cases rn'') auto

lemma only_enabled_Enable: "only_enabled rn (Enable e b rn)"
  by (simp add: only_enabled_def Enable_def)

lemma Server_connect_spec:
  assumes "sg_wf sg" and "member sg i"
  shows "\<forall>j\<in>set to. member sg j \<Longrightarrow>
    \<exists>rn'. Server_connect (connected sg) (srvs sg ! nat i) to rn = Ret rn' \<and> only_enabled rn rn' \<and>
      (\<forall>x. is_enabled x rn' \<longleftrightarrow> is_enabled x rn \<or> (\<exists>j\<in>set to. connected sg ! nat j \<and> x = endname sg i j))"
proof (induction to arbitrary: rn)
  case (Cons j to)
  then have "member sg j" by simp
  note facts = wf_idx_end [OF assms this] wf_idx_connected [OF assms(1) this]
  show ?case
  proof (cases "connected sg ! nat j")
    case True
    from Cons.prems obtain rn' where "Server_connect (connected sg) (srvs sg ! nat i) to (Enable (endname sg i j) True rn) = Ret rn'"
      "only_enabled (Enable (endname sg i j) True rn) rn'"
      "\<forall>x. is_enabled x rn' \<longleftrightarrow> is_enabled x (Enable (endname sg i j) True rn) \<or>
        (\<exists>j\<in>set to. connected sg ! nat j \<and> x = endname sg i j)"
      using Cons.IH [of "Enable (endname sg i j) True rn"] by auto
    with True facts show ?thesis
      using only_enabled_trans [OF only_enabled_Enable] by auto
  next
    case False
    with Cons facts show ?thesis by simp
  qed
qed simp

lemma connect_incoming_spec:
  assumes "sg_wf sg" and "member sg i"
  shows "\<forall>j\<in>set to. member sg j \<Longrightarrow>
    \<exists>rn'. connect_incoming sg i to rn = Ret rn' \<and> only_enabled rn rn' \<and>
      (\<forall>x. is_enabled x rn' \<longleftrightarrow> is_enabled x rn \<or> (\<exists>j\<in>set to. connected sg ! nat j \<and> x = endname sg j i))"
proof (induction to arbitrary: rn)
  case (Cons j to)
  then have m: "member sg j" by simp
  note facts = wf_idx_end [OF assms(1) m assms(2)] wf_idx_connected [OF assms(1) m] idx_member [OF m]
  show ?case
  proof (cases "connected sg ! nat j")
    case True
    from Cons.prems obtain rn' where "connect_incoming sg i to (Enable (endname sg j i) True rn) = Ret rn'"
      "only_enabled (Enable (endname sg j i) True rn) rn'"
      "\<forall>x. is_enabled x rn' \<longleftrightarrow> is_enabled x (Enable (endname sg j i) True rn) \<or>
        (\<exists>j\<in>set to. connected sg ! nat j \<and> x = endname sg j i)"
      using Cons.IH [of "Enable (endname sg j i) True rn"] by auto
    with True facts show ?thesis
      using only_enabled_trans [OF only_enabled_Enable] by (auto simp: IsConnected_def)
  next
    case False
    with Cons facts show ?thesis by (simp add: IsConnected_def)
  qed
qed simp

lemma disconnect_loop_spec:
  "\<forall>j\<in>set fr. 0 \<le> j \<and> j < int (length es) \<Longrightarrow>
    \<exists>rn'. Server_disconnect_loop es fr rn = Ret rn' \<and> only_enabled rn rn' \<and>
      (\<forall>x. is_enabled x rn' \<longleftrightarrow> is_enabled x rn \<and> (\<forall>j\<in>set fr. x \<noteq> es ! nat j))"
proof (induction fr arbitrary: rn)
  case (Cons j fr)
  then obtain rn' where "Server_disconnect_loop es fr (Enable (es ! nat j) False rn) = Ret rn'"
    "only_enabled (Enable (es ! nat j) False rn) rn'"
    "\<forall>x. is_enabled x rn' \<longleftrightarrow> is_enabled x (Enable (es ! nat j) False rn) \<and> (\<forall>j\<in>set fr. x \<noteq> es ! nat j)"
    using Cons.IH [of "Enable (es ! nat j) False rn"] by auto
  with Cons.prems show ?case
    using only_enabled_trans [OF only_enabled_Enable] by (auto simp: idx_def)
qed simp

lemma Server_disconnect_spec:
  assumes "sg_wf sg" and "member sg i" and "\<forall>j\<in>set fr. member sg j"
  shows "\<exists>rn'. Server_disconnect (srvs sg ! nat i) fr rn = Ret rn' \<and> only_enabled rn rn' \<and>
      (\<forall>x. is_enabled x rn' \<longleftrightarrow> is_enabled x rn \<and> (\<forall>j\<in>set fr. x \<noteq> endname sg i j))"
proof -
  obtain es where es: "endNames (srvs sg ! nat i) = Some es" "length es = length (srvs sg)"
    using wf_endNames [OF assms(1,2)] .
  then have "endname sg i j = es ! nat j" for j by (simp add: endname_def slice_def)
  with disconnect_loop_spec [of fr es rn] es assms(3) show ?thesis
    by (simp add: Server_disconnect_def member_def)
qed

lemma disconnect_incoming_spec:
  assumes "sg_wf sg" and "member sg i"
  shows "\<forall>j\<in>set fr. member sg j \<Longrightarrow>
    \<exists>rn'. disconnect_incoming sg i fr rn = Ret rn' \<and> only_enabled rn rn' \<and>
      (\<forall>x. is_enabled x rn' \<longleftrightarrow> is_enabled x rn \<and> (\<forall>j\<in>set fr. x \<noteq> endname sg j i))"
proof (induction fr arbitrary: rn)
  case (Cons j fr)
  then have m: "member sg j" by simp
  obtain es where es: "endNames (srvs sg ! nat j) = Some es" using wf_endNames [OF assms(1) m] .
  from Cons.prems obtain rn' where "disconnect_incoming sg i fr (Enable (endname sg j i) False rn) = Ret rn'"
    "only_enabled (Enable (endname sg j i) False rn) rn'"
    "\<forall>x. is_enabled x rn' \<longleftrightarrow> is_enabled x (Enable (endname sg j i) False rn) \<and> (\<forall>j\<in>set fr. x \<noteq> endname sg j i)"
    using Cons.IH [of "Enable (endname sg j i) False rn"] by auto
  with es m wf_idx_end [OF assms(1) m assms(2)] show ?case
    using only_enabled_trans [OF only_enabled_Enable] by (auto simp: slice_def)
qed simp

section \<open>The operations implement the topology\<close>

text \<open>
  \<open>refines f g\<close>: on a well-formed group \<open>f\<close> returns, keeps the servers and everything of the network but
  the enabled flags, and changes the topology as \<open>g\<close> does.
\<close>

definition refines ::
  "('s ServerGrp \<Rightarrow> 'w Tester \<Rightarrow> ('s ServerGrp \<times> 'w Tester) go) \<Rightarrow> (topo \<Rightarrow> topo) \<Rightarrow> 's ServerGrp \<Rightarrow> 'w Tester \<Rightarrow> bool" where
  "refines f g sg t \<longleftrightarrow> (\<exists>sg' t'. f sg t = Ret (sg', t') \<and> sg_wf sg' \<and> srvs sg' = srvs sg \<and> sg_gid sg' = sg_gid sg \<and>
     only_enabled (tnet t) (tnet t') \<and> t' = t\<lparr>tnet := tnet t'\<rparr> \<and> topo_of sg' (tnet t') = g (topo_of sg (tnet t)))"

lemma set_idx_connected:
  "sg_wf sg \<Longrightarrow> member sg i \<Longrightarrow> set_idx (connected sg) i b = Ret ((connected sg)[nat i := b])"
  by (simp add: set_idx_def sg_wf_def member_def)

lemma connect_refines:
  assumes wf: "sg_wf sg" and i: "member sg i" and to: "\<forall>j\<in>set to. member sg j"
  shows "refines (sg_connect i to) (topo_connect i to) sg t"
proof -
  let ?sg = "sg\<lparr>connected := (connected sg)[nat i := True]\<rparr>"
  have wf': "sg_wf ?sg" using wf by simp
  obtain rn where rn: "Server_connect (connected ?sg) (srvs sg ! nat i) to (tnet t) = Ret rn" "only_enabled (tnet t) rn"
    "\<And>x. is_enabled x rn \<longleftrightarrow> is_enabled x (tnet t) \<or> (\<exists>j\<in>set to. connected ?sg ! nat j \<and> x = endname sg i j)"
    using Server_connect_spec [OF wf', of i to "tnet t"] i to by auto
  obtain rn' where rn': "connect_incoming ?sg i to rn = Ret rn'" "only_enabled rn rn'"
    "\<And>x. is_enabled x rn' \<longleftrightarrow> is_enabled x rn \<or> (\<exists>j\<in>set to. connected ?sg ! nat j \<and> x = endname sg j i)"
    using connect_incoming_spec [OF wf', of i to rn] i to by auto
  have run: "sg_connect i to sg t = Ret (?sg, t\<lparr>tnet := rn'\<rparr>)"
    using set_idx_connected [OF wf i] rn(1) rn'(1) i by (simp add: sg_connect_def Let_def)
  have C: "member sg x \<and> connected ?sg ! nat x \<longleftrightarrow> ((snd (topo_of sg (tnet t)))(i := True)) x" for x
    using wf i by (auto simp: topo_of_def sg_wf_def member_def nth_list_update)
  have E: "member sg x \<and> member sg y \<and> is_enabled (endname sg x y) rn' \<longleftrightarrow>
      member sg x \<and> member sg y \<and> (is_enabled (endname sg x y) (tnet t) \<or>
        x = i \<and> y \<in> set to \<and> connected ?sg ! nat y \<or> y = i \<and> x \<in> set to \<and> connected ?sg ! nat x)" for x y
    using wf_end_inj [OF wf] i to by (auto simp: rn(3) rn'(3))
  have "topo_of ?sg rn' = topo_connect i to (topo_of sg (tnet t))"
    unfolding topo_connect_def Let_def C [symmetric] using E i to
    by (auto simp: topo_of_def fun_eq_iff simp flip: C)
  with run wf' show ?thesis
    using only_enabled_trans [OF rn(2) rn'(2)] by (auto simp: refines_def)
qed

lemma disconnect_refines:
  assumes wf: "sg_wf sg" and i: "member sg i" and frm: "\<forall>j\<in>set fr. member sg j"
  shows "refines (sg_disconnect i fr) (topo_disconnect i fr) sg t"
proof -
  let ?sg = "sg\<lparr>connected := (connected sg)[nat i := False]\<rparr>"
  have wf': "sg_wf ?sg" using wf by simp
  obtain rn where rn: "Server_disconnect (srvs sg ! nat i) fr (tnet t) = Ret rn" "only_enabled (tnet t) rn"
    "\<And>x. is_enabled x rn \<longleftrightarrow> is_enabled x (tnet t) \<and> (\<forall>j\<in>set fr. x \<noteq> endname sg i j)"
    using Server_disconnect_spec [OF wf i frm, of "tnet t"] by auto
  obtain rn' where rn': "disconnect_incoming ?sg i fr rn = Ret rn'" "only_enabled rn rn'"
    "\<And>x. is_enabled x rn' \<longleftrightarrow> is_enabled x rn \<and> (\<forall>j\<in>set fr. x \<noteq> endname sg j i)"
    using disconnect_incoming_spec [OF wf', of i fr rn] i frm by auto
  have run: "sg_disconnect i fr sg t = Ret (?sg, t\<lparr>tnet := rn'\<rparr>)"
    using set_idx_connected [OF wf i] rn(1) rn'(1) i by (simp add: sg_disconnect_def Let_def)
  have "member sg x \<and> connected ?sg ! nat x \<longleftrightarrow> ((snd (topo_of sg (tnet t)))(i := False)) x" for x
    using wf i by (auto simp: topo_of_def sg_wf_def member_def nth_list_update)
  moreover have "member sg x \<and> member sg y \<and> is_enabled (endname sg x y) rn' \<longleftrightarrow>
      fst (topo_disconnect i fr (topo_of sg (tnet t))) x y" for x y
    using wf_end_inj [OF wf] i frm by (auto simp: rn(3) rn'(3) topo_disconnect_def topo_of_def)
  ultimately have "topo_of ?sg rn' = topo_disconnect i fr (topo_of sg (tnet t))"
    by (simp add: topo_of_def topo_disconnect_def fun_eq_iff)
  with run wf' show ?thesis
    using only_enabled_trans [OF rn(2) rn'(2)] by (auto simp: refines_def)
qed

lemma refines_seq:
  assumes "refines f g sg t"
    and "\<And>sg' t'. sg_wf sg' \<Longrightarrow> srvs sg' = srvs sg \<Longrightarrow> refines f' g' sg' t'"
  shows "refines (\<lambda>sg t. go_bind (f sg t) (\<lambda>(sg, t). f' sg t)) (g' \<circ> g) sg t"
proof -
  obtain sg1 t1 where 1: "f sg t = Ret (sg1, t1)" "sg_wf sg1" "srvs sg1 = srvs sg" "sg_gid sg1 = sg_gid sg"
    "only_enabled (tnet t) (tnet t1)" "t1 = t\<lparr>tnet := tnet t1\<rparr>" "topo_of sg1 (tnet t1) = g (topo_of sg (tnet t))"
    using assms(1) unfolding refines_def by blast
  obtain sg2 t2 where 2: "f' sg1 t1 = Ret (sg2, t2)" "sg_wf sg2" "srvs sg2 = srvs sg1" "sg_gid sg2 = sg_gid sg1"
    "only_enabled (tnet t1) (tnet t2)" "t2 = t1\<lparr>tnet := tnet t2\<rparr>" "topo_of sg2 (tnet t2) = g' (topo_of sg1 (tnet t1))"
    using assms(2) [OF 1(2,3), of t1] unfolding refines_def by blast
  have "t2 = t\<lparr>tnet := tnet t2\<rparr>"
    by (subst 2(6), subst 1(6)) simp
  with 1 2 show ?thesis
    using only_enabled_trans [OF 1(5) 2(5)] unfolding refines_def by auto
qed

lemma each_server_refines:
  assumes "\<And>i sg' t'. i \<in> set is \<Longrightarrow> sg_wf sg' \<Longrightarrow> srvs sg' = srvs sg \<Longrightarrow> refines (f i) (g i) sg' t'" and "sg_wf sg"
  shows "refines (each_server f is) (fold g is) sg t"
  using assms
proof (induction "is" arbitrary: sg t)
  case (Nil sg t)
  then show ?case by (simp add: refines_def)
next
  case (Cons i "is" sg t)
  have "refines (\<lambda>sg t. go_bind (f i sg t) (\<lambda>(sg, t). each_server f is sg t)) (fold g is \<circ> g i) sg t"
    using Cons by (intro refines_seq) auto
  then show ?case by (simp add: refines_def)
qed

definition topo_isolate :: "int list \<Rightarrow> int list \<Rightarrow> int \<Rightarrow> topo \<Rightarrow> topo" where
  "topo_isolate mine others i T = topo_connect i mine (topo_disconnect i others T)"

lemma isolate_refines:
  assumes "sg_wf sg" and "\<forall>j\<in>set mine \<union> set others. member sg j" and "member sg i"
  shows "refines (isolate mine others i) (topo_isolate mine others i) sg t"
proof -
  have "refines (\<lambda>sg t. go_bind (sg_disconnect i others sg t) (\<lambda>(sg, t). sg_connect i mine sg t))
      (topo_connect i mine \<circ> topo_disconnect i others) sg t"
    using assms by (intro refines_seq disconnect_refines connect_refines) (auto simp: member_def)
  then show ?thesis by (simp add: refines_def isolate_def topo_isolate_def)
qed

lemma Partition_refines:
  fixes t :: "'w Tester"
  assumes "sg_wf sg" and m: "\<forall>j\<in>set p1 \<union> set p2. member sg j"
  shows "refines (Partition p1 p2) (fold (topo_isolate p2 p1) p2 \<circ> fold (topo_isolate p1 p2) p1) sg t"
proof -
  have "refines (each_server (isolate mine others) mine) (fold (topo_isolate mine others) mine) sg' t'"
    if "sg_wf sg'" "srvs sg' = srvs sg" "set mine \<union> set others = set p1 \<union> set p2" for mine others sg' and t' :: "'w Tester"
    using that m by (intro each_server_refines isolate_refines) (auto simp: member_def)
  then have "refines (\<lambda>sg t. go_bind (each_server (isolate p1 p2) p1 sg t) (\<lambda>(sg, t). each_server (isolate p2 p1) p2 sg t))
      (fold (topo_isolate p2 p1) p2 \<circ> fold (topo_isolate p1 p2) p1) sg t"
    using assms(1) by (intro refines_seq) (auto simp: Un_commute)
  then show ?thesis by (simp add: refines_def Partition_def)
qed

section \<open>Partitions\<close>

text \<open>
  One side after the other: when the servers of \<open>done\<close> are connected to each other and cut off from
  \<open>others\<close>, isolating further servers of \<open>mine\<close> adds them; links among \<open>others\<close> and their connected flags
  are left alone.
\<close>

definition side :: "int set \<Rightarrow> int set \<Rightarrow> topo \<Rightarrow> bool" where
  "side D Q T \<longleftrightarrow> (\<forall>x\<in>D. snd T x) \<and> (\<forall>x\<in>D. \<forall>y\<in>D. fst T x y) \<and> (\<forall>x\<in>D. \<forall>y\<in>Q. \<not> fst T x y \<and> \<not> fst T y x)"

lemma topo_isolate_side:
  assumes "side D (set others) T" and "D \<subseteq> set mine" and "i \<in> set mine" and "set mine \<inter> set others = {}"
  shows "side (insert i D) (set others) (topo_isolate mine others i T)"
  using assms unfolding side_def topo_isolate_def topo_connect_def topo_disconnect_def Let_def by auto

lemma topo_isolate_frame:
  assumes "i \<notin> Q"
  shows "(\<forall>x\<in>Q. snd (topo_isolate mine others i T) x = snd T x) \<and>
    (\<forall>x\<in>Q. \<forall>y\<in>Q. fst (topo_isolate mine others i T) x y = fst T x y)"
  using assms unfolding topo_isolate_def topo_connect_def topo_disconnect_def Let_def by auto

lemma fold_isolate_side:
  assumes "set mine \<inter> set others = {}"
  shows "side D (set others) T \<Longrightarrow> D \<subseteq> set mine \<Longrightarrow> set is \<subseteq> set mine \<Longrightarrow>
    side (D \<union> set is) (set others) (fold (topo_isolate mine others) is T)"
proof (induction "is" arbitrary: D T)
  case (Cons i "is")
  then have "side (insert i D) (set others) (topo_isolate mine others i T)"
    using topo_isolate_side [OF _ _ _ assms] by auto
  with Cons.IH [of "insert i D" "topo_isolate mine others i T"] Cons.prems show ?case by simp
qed simp

lemma fold_isolate_frame:
  "set is \<inter> Q = {} \<Longrightarrow> (\<forall>x\<in>Q. snd (fold (topo_isolate mine others) is T) x = snd T x) \<and>
    (\<forall>x\<in>Q. \<forall>y\<in>Q. fst (fold (topo_isolate mine others) is T) x y = fst T x y)"
proof (induction "is" arbitrary: T)
  case (Cons i "is")
  then have "i \<notin> Q" and "set is \<inter> Q = {}" by auto
  with Cons.IH [of "topo_isolate mine others i T"] topo_isolate_frame [of i Q mine others T] show ?case by simp
qed simp

lemma partition_topology:
  fixes T :: topo
  assumes "set p1 \<inter> set p2 = {}"
  defines "T' \<equiv> fold (topo_isolate p2 p1) p2 (fold (topo_isolate p1 p2) p1 T)"
  shows "side (set p1) (set p2) T' \<and> side (set p2) (set p1) T'"
proof -
  let ?T = "fold (topo_isolate p1 p2) p1 T"
  have 1: "side (set p1) (set p2) ?T"
    using fold_isolate_side [OF assms(1), of "{}" T p1] by (simp add: side_def)
  have 2: "side (set p2) (set p1) T'"
    using fold_isolate_side [of p2 p1 "{}" ?T p2] assms(1) by (simp add: side_def T'_def Int_commute)
  have "(\<forall>x\<in>set p1. snd T' x = snd ?T x) \<and> (\<forall>x\<in>set p1. \<forall>y\<in>set p1. fst T' x y = fst ?T x y)"
    using fold_isolate_frame [of p2 "set p1" p2 p1 ?T] assms(1) by (auto simp: T'_def)
  with 1 2 show ?thesis by (simp add: side_def)
qed

text \<open>A group made by \<open>makeSrvGrp\<close> is well formed: its ends have consecutively drawn names.\<close>

lemma MakeEnd_fresh:
  assumes "names_fresh names t"
  shows "\<exists>rn. MakeEnd (names (drawn t)) (tnet t) = Ret rn \<and>
    names_fresh names (t\<lparr>drawn := drawn t + 1, tnet := Connect (names (drawn t)) s rn\<rparr>)"
  using assms by (auto simp: names_fresh_def MakeEnd_def Connect_def update_conv' inj_eq)

lemma makeServer_ends_eq:
  "names_fresh names t \<Longrightarrow> \<exists>t'. makeServer_ends names gid js t = Ret (map names [drawn t..<drawn t + length js], t') \<and>
     drawn t' = drawn t + length js \<and> names_fresh names t' \<and> pmem t' = pmem t \<and> pnext t' = pnext t"
proof (induction js arbitrary: t)
  case (Cons j js)
  obtain rn where rn: "MakeEnd (names (drawn t)) (tnet t) = Ret rn"
    "names_fresh names (t\<lparr>drawn := drawn t + 1, tnet := Connect (names (drawn t)) (ServerName gid (int j)) rn\<rparr>)"
    using MakeEnd_fresh [OF Cons.prems] by blast
  with Cons.IH [OF rn(2)] show ?case
    by (auto simp: Randstring_def upt_conv_Cons simp del: upt_Suc)
qed simp

definition fresh_server :: "(nat \<Rightarrow> string) \<Rightarrow> nat \<Rightarrow> nat \<Rightarrow> 's TServer" where
  "fresh_server names d n = \<lparr>saved = None, svcs = [], endNames = Some (map names [d..<d + n]), clntEnds = map names [d..<d + n]\<rparr>"

lemma makeServer_eq:
  assumes "names_fresh names t"
  shows "\<exists>t'. makeServer names gid n t = Ret (fresh_server names (drawn t) n, t') \<and> drawn t' = drawn t + n \<and>
    names_fresh names t' \<and> pmem t' = pmem t \<and> pnext t' = pnext t"
  using makeServer_ends_eq [OF assms, of gid "[0..<n]"] by (auto simp: makeServer_def fresh_server_def)

lemma makeServers_eq:
  fixes t :: "'w Tester"
  shows "names_fresh names t \<Longrightarrow> \<exists>t'. makeServers names gid n k t = Ret (map (\<lambda>i. fresh_server names (drawn t + i * n) n :: 's TServer) [0..<k], t') \<and>
     names_fresh names t' \<and> drawn t' = drawn t + k * n"
proof (induction k arbitrary: t)
  case (Suc k)
  obtain t1 where t1: "makeServer names gid n t = Ret (fresh_server names (drawn t) n :: 's TServer, t1)"
    "drawn t1 = drawn t + n" "names_fresh names t1"
    using makeServer_eq [OF Suc.prems] by blast
  obtain t2 where "makeServers names gid n k t1 = Ret (map (\<lambda>i. fresh_server names (drawn t1 + i * n) n :: 's TServer) [0..<k], t2)"
    "names_fresh names t2" "drawn t2 = drawn t1 + k * n"
    using Suc.IH [OF t1(3)] by blast
  with t1 show ?case
    by (simp add: map_upt_Suc add.assoc del: upt_Suc)
qed simp

lemma index_inj:
  fixes i j i' j' n :: nat
  assumes "j < n" and "j' < n" and "i * n + j = i' * n + j'"
  shows "i = i' \<and> j = j'"
proof -
  have "(i * n + j) div n = i" "(i' * n + j') div n = i'" using assms(1,2) by simp_all
  with assms(3) show ?thesis by simp
qed

lemma makeSrvGrp_wf:
  fixes t :: "'w Tester"
  assumes "names_fresh names t"
  shows "\<exists>(sg :: 's ServerGrp) t'. makeSrvGrp names gid n t = Ret (sg, t') \<and> sg_wf sg \<and> length (srvs sg) = n \<and> names_fresh names t' \<and>
    (\<forall>i j. member sg i \<and> member sg j \<longrightarrow> (\<exists>k < drawn t'. endname sg i j = names k))"
proof -
  obtain t' where mk: "makeServers names gid n n t =
      Ret (map (\<lambda>i. fresh_server names (drawn t + i * n) n :: 's TServer) [0..<n], t')" "names_fresh names t'" "drawn t' = drawn t + n * n"
    using makeServers_eq [OF assms] by blast
  define sg :: "'s ServerGrp" where
    "sg = \<lparr>srvs = map (\<lambda>i. fresh_server names (drawn t + i * n) n) [0..<n],
       servernames = map (\<lambda>i. ServerName gid (int i)) [0..<n], sg_gid = gid, connected = replicate n False\<rparr>"
  have e: "endname sg i j = names (drawn t + (nat i * n + nat j))" if "member sg i" "member sg j" for i j
    using that by (auto simp: endname_def member_def sg_def fresh_server_def slice_def add.assoc)
  have "i = i' \<and> j = j'"
    if "member sg i" "member sg j" "member sg i'" "member sg j'" "endname sg i j = endname sg i' j'" for i j i' j'
  proof -
    have "nat i * n + nat j = nat i' * n + nat j'"
      using that e assms by (auto simp: names_fresh_def inj_eq)
    then have "nat i = nat i' \<and> nat j = nat j'"
      using that by (intro index_inj) (auto simp: member_def sg_def)
    then show ?thesis using that(1-4) by (auto simp: member_def)
  qed
  then have "sg_wf sg"
    unfolding sg_wf_def by (auto simp: sg_def fresh_server_def slice_def)
  moreover have "makeSrvGrp names gid n t = Ret (sg, t')"
    using mk(1) by (simp add: makeSrvGrp_def sg_def)
  moreover have "\<exists>k < drawn t'. endname sg i j = names k" if m: "member sg i" "member sg j" for i j
  proof -
    have "nat i * n + nat j < Suc (nat i) * n" using m by (auto simp: member_def sg_def)
    also have "\<dots> \<le> n * n" using m by (intro mult_le_mono1) (auto simp: member_def sg_def)
    finally show ?thesis using e [OF m] mk(3) by (intro exI [of _ "drawn t + (nat i * n + nat j)"]) simp
  qed
  moreover have "length (srvs sg) = n" by (simp add: sg_def)
  ultimately show ?thesis using mk(2) by blast
qed

lemma Partition_sides:
  assumes "sg_wf sg" and "\<forall>x \<in> set p1 \<union> set p2. member sg x" and "set p1 \<inter> set p2 = {}"
  shows "\<exists>sg' t'. Partition p1 p2 sg t = Ret (sg', t') \<and> sg_wf sg' \<and> srvs sg' = srvs sg \<and>
    (\<forall>x \<in> set p1 \<union> set p2. IsConnected x sg' = Ret True) \<and>
    (\<forall>x \<in> set p1 \<union> set p2. \<forall>y \<in> set p1 \<union> set p2.
       is_enabled (endname sg' x y) (tnet t') \<longleftrightarrow> (x \<in> set p1 \<longleftrightarrow> y \<in> set p1)) \<and>
    tnet t' = (tnet t)\<lparr>enabled := enabled (tnet t')\<rparr>"
proof -
  let ?T = "fold (topo_isolate p2 p1) p2 (fold (topo_isolate p1 p2) p1 (topo_of sg (tnet t)))"
  obtain sg' t' where run: "Partition p1 p2 sg t = Ret (sg', t')" "sg_wf sg'" "srvs sg' = srvs sg"
    "only_enabled (tnet t) (tnet t')" "topo_of sg' (tnet t') = ?T"
    using Partition_refines [OF assms(1,2), of t] unfolding refines_def by auto
  have m: "\<forall>x \<in> set p1 \<union> set p2. member sg' x" using assms(2) run(3) by (simp add: member_def)
  have "side (set p1) (set p2) (topo_of sg' (tnet t')) \<and> side (set p2) (set p1) (topo_of sg' (tnet t'))"
    unfolding run(5) by (rule partition_topology [OF assms(3)])
  then have "\<forall>x \<in> set p1 \<union> set p2. connected sg' ! nat x"
    "\<forall>x \<in> set p1 \<union> set p2. \<forall>y \<in> set p1 \<union> set p2. is_enabled (endname sg' x y) (tnet t') \<longleftrightarrow> (x \<in> set p1 \<longleftrightarrow> y \<in> set p1)"
    using m assms(3) unfolding side_def topo_of_def by auto
  moreover have "\<forall>x \<in> set p1 \<union> set p2. IsConnected x sg' = Ret (connected sg' ! nat x)"
    using m wf_idx_connected [OF run(2)] by (simp add: IsConnected_def)
  ultimately show ?thesis
    using run unfolding only_enabled_def by auto
qed

section \<open>Choosing the two sides\<close>

lemma MakePartition_loop_eq:
  "0 \<le> j \<Longrightarrow> nat j + length (filter (\<lambda>i. i \<noteq> l) is) \<le> length p1 + length p2 \<Longrightarrow>
   \<exists>q1 q2. MakePartition_loop l is j p1 p2 = Ret (q1, q2) \<and> length q1 = length p1 \<and> length q2 = length p2 \<and>
     q1 @ q2 = take (nat j) (p1 @ p2) @ filter (\<lambda>i. i \<noteq> l) is @ drop (nat j + length (filter (\<lambda>i. i \<noteq> l) is)) (p1 @ p2)"
proof (induction "is" arbitrary: j p1 p2)
  case (Cons i "is")
  show ?case
  proof (cases "i = l")
    case False
    define k where "k = nat j"
    have j: "j = int k" and k: "k < length (p1 @ p2)" using Cons.prems False by (auto simp: k_def)
    obtain r1 r2 where r: "MakePartition_loop l (i # is) j p1 p2 = MakePartition_loop l is (j + 1) r1 r2"
      "length r1 = length p1" "length r2 = length p2" "r1 @ r2 = (p1 @ p2)[k := i]"
    proof (cases "k < length p1")
      case True
      then show ?thesis using that [of "p1[k := i]" p2] False j by (simp add: set_idx_def list_update_append)
    next
      case nlt: False
      with k have "0 \<le> j - int (length p1)" "j - int (length p1) < int (length p2)" "nat (j - int (length p1)) = k - length p1"
        by (auto simp: j)
      then show ?thesis using that [of p1 "p2[k - length p1 := i]"] False nlt j by (simp add: set_idx_def list_update_append)
    qed
    have s: "nat (j + 1) = Suc k" by (simp add: j)
    from Cons.prems False r(2,3) obtain q1 q2 where "MakePartition_loop l is (j + 1) r1 r2 = Ret (q1, q2)"
      "length q1 = length p1" "length q2 = length p2"
      "q1 @ q2 = take (Suc k) (r1 @ r2) @ filter (\<lambda>i. i \<noteq> l) is @ drop (Suc k + length (filter (\<lambda>i. i \<noteq> l) is)) (r1 @ r2)"
      using Cons.IH [of "j + 1" r1 r2] s by (auto simp: k_def)
    moreover have "take (Suc k) ((p1 @ p2)[k := i]) = take k (p1 @ p2) @ [i]"
      using k by (simp add: take_Suc_conv_app_nth del: append_take_drop_id)
    ultimately show ?thesis
      using r(1) False by (simp add: r(4) k_def [symmetric])
  qed (use Cons in simp)
qed (simp del: take_append drop_append)

lemma last_update: "xs \<noteq> [] \<Longrightarrow> xs[length xs - 1 := x] = butlast xs @ [x]"
  by (induction xs rule: rev_induct) simp_all

lemma MakePartition_odd:
  assumes "length (srvs sg) = 2 * h + 1" and "h > 0" and "0 \<le> l" and "l \<le> 2 * int h"
  defines "os \<equiv> filter (\<lambda>i. i \<noteq> l) (map int [0..<2 * h + 1])"
  shows "MakePartition l sg = Ret (take (h + 1) os, drop (h + 1) os @ [l])"
proof -
  have "set os = {0..<2 * int h + 1} - {l}" and "distinct os"
    by (auto simp: os_def image_int_atLeastLessThan distinct_map simp del: upt_Suc)
  then have os: "length os = 2 * h"
    using assms(3,4) distinct_card [of os] by simp
  let ?p1 = "replicate (h + 1) (0 :: int)" and ?p2 = "replicate h (0 :: int)"
  obtain q1 q2 where q: "MakePartition_loop l (map int [0..<2 * h + 1]) 0 ?p1 ?p2 = Ret (q1, q2)"
    "length q1 = h + 1" "length q2 = h" "q1 @ q2 = os @ drop (2 * h) (?p1 @ ?p2)"
    using MakePartition_loop_eq [of 0 l "map int [0..<2 * h + 1]" ?p1 ?p2] os unfolding os_def by auto
  have "q1 = take (h + 1) (q1 @ q2)" "q2 = drop (h + 1) (q1 @ q2)" using q(2) by simp_all
  then have q1: "q1 = take (h + 1) os" and q2: "q2 = drop (h + 1) os @ drop (2 * h) (?p1 @ ?p2)"
    unfolding q(4) using os assms(2) by simp_all
  have "length (drop (2 * h) (?p1 @ ?p2)) = 1" by simp
  then obtain z where "drop (2 * h) (?p1 @ ?p2) = [z]" by (auto simp: length_Suc_conv simp del: length_drop)
  with q2 have "butlast q2 = drop (h + 1) os" by simp
  moreover have "set_idx q2 (int (length q2) - 1) l = Ret (butlast q2 @ [l])"
    using q(3) assms(2) last_update [of q2 l] by (auto simp: set_idx_def nat_diff_distrib')
  ultimately show ?thesis
    using q(1) q1 assms(1) by (simp add: MakePartition_def Let_def)
qed

section \<open>Properties\<close>

text \<open>
  C18: \<open>Partition\<close> splits a group. For disjoint lists of servers of a group in any state of connection,
  \<open>Partition\<close> returns (no index out of range), marks every listed server as connected, and leaves the
  end from server \<open>x\<close> to server \<open>y\<close> enabled exactly when both are on the same side; no server is
  restarted and nothing else of the network changes.
\<close>

theorem Partition_separates:
  assumes "sg_wf sg" and "\<forall>x \<in> set p1 \<union> set p2. member sg x" and "set p1 \<inter> set p2 = {}"
  shows "\<exists>sg' t'. Partition p1 p2 sg t = Ret (sg', t') \<and> sg_wf sg' \<and> srvs sg' = srvs sg \<and>
    (\<forall>x \<in> set p1 \<union> set p2. IsConnected x sg' = Ret True) \<and>
    (\<forall>x \<in> set p1 \<union> set p2. \<forall>y \<in> set p1 \<union> set p2.
       is_enabled (endname sg' x y) (tnet t') \<longleftrightarrow> (x \<in> set p1 \<longleftrightarrow> y \<in> set p1)) \<and>
    tnet t' = (tnet t)\<lparr>enabled := enabled (tnet t')\<rparr>"
  using assms by (rule Partition_sides)

theorem Partition_separates_witness:
  "\<exists>(sg :: nat ServerGrp) (t :: nat Tester) sg' t'. length (srvs sg) = 3 \<and> Partition [0, 2] [1] sg t = Ret (sg', t') \<and>
     is_enabled (endname sg' 0 2) (tnet t') \<and> \<not> is_enabled (endname sg' 0 1) (tnet t')"
proof -
  let ?names = "\<lambda>k. replicate k (CHR ''x'')"
  let ?t = "\<lparr>tnet = MakeNetwork (\<lambda>p. MakeServer) (0 :: nat), drawn = 0, pmem = (\<lambda>p. MakePersister), pnext = 0,
     snext = 0, cmem = (\<lambda>c. makeClntTo None), cnext = 0\<rparr>"
  have "inj ?names" by (rule injI) (metis length_replicate)
  then have "names_fresh ?names ?t" by (simp add: names_fresh_def MakeNetwork_def)
  then obtain sg :: "nat ServerGrp" and t' where wf: "sg_wf sg" and n: "length (srvs sg) = 3"
    using makeSrvGrp_wf [of ?names ?t 0 3] by blast
  from n have "\<forall>x \<in> set [0, 2] \<union> set [1]. member sg x" and "set [0, 2 :: int] \<inter> set [1] = {}"
    by (auto simp: member_def)
  from Partition_separates [OF wf this, of ?t] n show ?thesis by auto
qed

text \<open>
  \<open>MakePartition\<close> puts the given leader in the minority. For a group of an odd number of at least
  three servers and a server \<open>l\<close> of it, the two lists name every server exactly once, the first has one
  more than the second, and \<open>l\<close> is in the second.
\<close>

lemma MakePartition_splits:
  assumes "odd (length (srvs sg))" and "length (srvs sg) \<ge> 3" and "member sg l"
  shows "\<exists>p1 p2. MakePartition l sg = Ret (p1, p2) \<and> distinct (p1 @ p2) \<and>
    (\<forall>x. x \<in> set p1 \<union> set p2 \<longleftrightarrow> member sg x) \<and> l \<in> set p2 \<and> length p1 = length p2 + 1"
proof -
  obtain h where h: "length (srvs sg) = 2 * h + 1" using assms(1) by (auto elim: oddE)
  define os where "os = filter (\<lambda>i. i \<noteq> l) (map int [0..<2 * h + 1])"
  have "h > 0" using h assms(2) by simp
  have l: "0 \<le> l" "l \<le> 2 * int h" using assms(3) h by (auto simp: member_def)
  have set: "set os = {0..<2 * int h + 1} - {l}" and dist: "distinct os"
    by (auto simp: os_def image_int_atLeastLessThan distinct_map simp del: upt_Suc)
  then have len: "length os = 2 * h" using l distinct_card [of os] by simp
  have eq: "MakePartition l sg = Ret (take (h + 1) os, drop (h + 1) os @ [l])"
    using MakePartition_odd [OF h \<open>h > 0\<close> l] by (simp add: os_def)
  have "set (take (h + 1) os) \<union> set (drop (h + 1) os @ [l]) = insert l (set os)"
    using set_append [of "take (h + 1) os" "drop (h + 1) os"] by simp
  moreover have "x \<in> insert l (set os) \<longleftrightarrow> member sg x" for x
    unfolding set member_def h using l by auto
  ultimately have "x \<in> set (take (h + 1) os) \<union> set (drop (h + 1) os @ [l]) \<longleftrightarrow> member sg x" for x
    by (simp only:)
  moreover have "distinct ((take (h + 1) os @ drop (h + 1) os) @ [l])"
    using set dist by simp
  moreover have "length (take (h + 1) os) = length (drop (h + 1) os @ [l]) + 1"
    using len \<open>h > 0\<close> by simp
  ultimately show ?thesis
    by (intro exI [of _ "take (h + 1) os"] exI [of _ "drop (h + 1) os @ [l]"] conjI allI) (simp_all only: eq append_assoc, simp)
qed

text \<open>
  With an even number of servers the slices are one too long: a slot of \<open>p2\<close> keeps its zero, so server 0
  is on both sides.
\<close>

lemma MakePartition_even:
  "MakePartition 1 \<lparr>srvs = replicate 4 (fresh_server (\<lambda>k. []) 0 4 :: nat TServer), servernames = [], sg_gid = 0, connected = []\<rparr> =
     Ret ([0, 2, 3], [0, 1])"
  by code_simp

end
