(* ===== verification/KvTest.thy ===== *)
theory KvTest
  imports KvClerk KvModel Topology
begin

text \<open>
  The helpers of the key/value tests (\<open>kvtest1/kvtest.go\<close> and the logging of \<open>kvtest1/porcupine.go\<close>): clients
  that put and append under version control, and the checks made on what they did. A clerk is given by
  its two operations on a world \<open>'w\<close>, which may hold the network and all other clients, so a world that
  changes between two calls is interference. The JSON codec and the clock are arguments. A loop without
  a bound takes fuel, and \<open>None\<close> says that it is still running.
\<close>

section \<open>Clerks and the log of operations\<close>

record 'w IKVClerk =
  ck_Get :: "string \<Rightarrow> 'w \<Rightarrow> (string \<times> Tversion \<times> Err) \<times> 'w"
  ck_Put :: "string \<Rightarrow> string \<Rightarrow> Tversion \<Rightarrow> 'w \<Rightarrow> Err \<times> 'w"

text \<open>
  The state of a test: the world, the log (\<open>None\<close> for a nil \<open>*OpLog\<close>), the counter of operations, and how
  often the clock was read.
\<close>

record 'w kv_test =
  kt_world :: 'w
  kt_oplog :: "Operation list option"
  kt_ops :: "32 word"
  kt_reads :: nat

definition OpLog_Append :: "Operation \<Rightarrow> Operation list option \<Rightarrow> Operation list option" where
  "OpLog_Append oper log = map_option (\<lambda>ops. ops @ [oper]) log"

definition OpLog_Len :: "Operation list \<Rightarrow> int" where
  "OpLog_Len log = int (length log)"

definition OpLog_Read :: "Operation list \<Rightarrow> Operation list" where
  "OpLog_Read log = take (length log) log"

text \<open>
  \<open>Test.Get\<close> and \<open>Test.Put\<close>. The functions \<open>Get\<close> and \<open>Put\<close> of the package do the same on the configuration and
  the log they are given, which are always those of the test. The annotations made on the way have their
  own state, in theory \<open>Annotation\<close>.
\<close>

definition test_Get ::
  "(nat \<Rightarrow> int) \<Rightarrow> 'w IKVClerk \<Rightarrow> string \<Rightarrow> int \<Rightarrow> 'w kv_test \<Rightarrow> (string \<times> Tversion \<times> Err) \<times> 'w kv_test" where
  "test_Get time ck key cli ts =
     (case ck_Get ck key (kt_world ts) of ((val, ver, err), w) \<Rightarrow>
        ((val, ver, err),
         ts\<lparr>kt_world := w, kt_ops := kt_ops ts + 1, kt_reads := kt_reads ts + 2,
            kt_oplog := OpLog_Append
              \<lparr>op_Input = \<lparr>in_Op = 0, in_Key = key, in_Value = [], in_Version = 0\<rparr>,
               op_Output = \<lparr>out_Value = val, out_Version = ver, out_Err = err_string err\<rparr>,
               op_Call = time (kt_reads ts), op_Return = time (kt_reads ts + 1), op_ClientId = cli\<rparr> (kt_oplog ts)\<rparr>))"

definition test_Put ::
  "(nat \<Rightarrow> int) \<Rightarrow> 'w IKVClerk \<Rightarrow> string \<Rightarrow> string \<Rightarrow> Tversion \<Rightarrow> int \<Rightarrow> 'w kv_test \<Rightarrow> Err \<times> 'w kv_test" where
  "test_Put time ck key value version cli ts =
     (case ck_Put ck key value version (kt_world ts) of (err, w) \<Rightarrow>
        (err,
         ts\<lparr>kt_world := w, kt_ops := kt_ops ts + 1, kt_reads := kt_reads ts + 2,
            kt_oplog := OpLog_Append
              \<lparr>op_Input = \<lparr>in_Op = 1, in_Key = key, in_Value = value, in_Version = version\<rparr>,
               op_Output = \<lparr>out_Value = [], out_Version = 0, out_Err = err_string err\<rparr>,
               op_Call = time (kt_reads ts), op_Return = time (kt_reads ts + 1), op_ClientId = cli\<rparr> (kt_oplog ts)\<rparr>))"

section \<open>Puts and their checks\<close>

fun PutAtLeastOnce ::
  "nat \<Rightarrow> (nat \<Rightarrow> int) \<Rightarrow> 'w IKVClerk \<Rightarrow> string \<Rightarrow> string \<Rightarrow> Tversion \<Rightarrow> int \<Rightarrow> 'w kv_test \<Rightarrow> (Tversion \<times> 'w kv_test) go option" where
  "PutAtLeastOnce 0 time ck key value ver i ts = None"
| "PutAtLeastOnce (Suc fuel) time ck key value ver i ts =
     (case test_Put time ck key value ver i ts of (err, ts) \<Rightarrow>
        if err = OK then Some (Ret (ver + 1, ts))
        else if err = ErrMaybe \<or> err = ErrVersion then PutAtLeastOnce fuel time ck key value (ver + 1) i ts
        else if ver \<noteq> 0 then Some Fatal
        else PutAtLeastOnce fuel time ck key value ver i ts)"

definition CheckGet ::
  "(nat \<Rightarrow> int) \<Rightarrow> 'w IKVClerk \<Rightarrow> string \<Rightarrow> string \<Rightarrow> Tversion \<Rightarrow> 'w kv_test \<Rightarrow> 'w kv_test go" where
  "CheckGet time ck key value version ts =
     (case test_Get time ck key 0 ts of ((val, ver, err), ts) \<Rightarrow>
        if err \<noteq> OK then Fatal
        else if val \<noteq> value \<or> ver \<noteq> version then Fatal
        else Ret ts)"

record ClntRes =
  Nok :: int
  Nmaybe :: int

record EntryV =
  ev_Id :: int
  ev_V :: Tversion

definition GetJson ::
  "(nat \<Rightarrow> int) \<Rightarrow> (string \<Rightarrow> 'v option) \<Rightarrow> 'w IKVClerk \<Rightarrow> string \<Rightarrow> int \<Rightarrow> 'w kv_test \<Rightarrow> (Tversion \<times> 'v \<times> 'w kv_test) go" where
  "GetJson time unmarshal ck key i ts =
     (case test_Get time ck key i ts of ((val, ver, err), ts) \<Rightarrow>
        if err = OK then (case unmarshal val of None \<Rightarrow> Fatal | Some v \<Rightarrow> Ret (ver, v, ts)) else Fatal)"

definition PutJson ::
  "(nat \<Rightarrow> int) \<Rightarrow> ('v \<Rightarrow> string option) \<Rightarrow> 'w IKVClerk \<Rightarrow> string \<Rightarrow> 'v \<Rightarrow> Tversion \<Rightarrow> int \<Rightarrow> 'w kv_test \<Rightarrow> (Err \<times> 'w kv_test) go" where
  "PutJson time marshal ck key v ver i ts =
     (case marshal v of None \<Rightarrow> Fatal | Some b \<Rightarrow> Ret (test_Put time ck key b ver i ts))"

text \<open>The version of each put is 0, whatever \<open>ver\<close> is.\<close>

fun PutAtLeastOnceJson ::
  "nat \<Rightarrow> (nat \<Rightarrow> int) \<Rightarrow> ('v \<Rightarrow> string option) \<Rightarrow> 'w IKVClerk \<Rightarrow> string \<Rightarrow> 'v \<Rightarrow> Tversion \<Rightarrow> int \<Rightarrow> 'w kv_test \<Rightarrow>
   (Tversion \<times> 'w kv_test) go option" where
  "PutAtLeastOnceJson 0 time marshal ck key value ver i ts = None"
| "PutAtLeastOnceJson (Suc fuel) time marshal ck key value ver i ts =
     (case PutJson time marshal ck key value 0 i ts of
        Ret (err, ts) \<Rightarrow>
          if err \<noteq> ErrMaybe then Some (Ret (ver, ts))
          else PutAtLeastOnceJson fuel time marshal ck key value (ver + 1) i ts
      | Panic \<Rightarrow> Some Panic | Fatal \<Rightarrow> Some Fatal | Block \<Rightarrow> Some Block)"

definition sum_results :: "ClntRes list \<Rightarrow> ClntRes \<Rightarrow> ClntRes" where
  "sum_results rs res = foldl (\<lambda>res r. res\<lparr>Nok := Nok res + Nok r, Nmaybe := Nmaybe res + Nmaybe r\<rparr>) res rs"

definition CheckPutConcurrent ::
  "(nat \<Rightarrow> int) \<Rightarrow> (string \<Rightarrow> EntryV option) \<Rightarrow> 'w IKVClerk \<Rightarrow> string \<Rightarrow> ClntRes list \<Rightarrow> ClntRes \<Rightarrow> bool \<Rightarrow> 'w kv_test \<Rightarrow>
   (ClntRes \<times> 'w kv_test) go" where
  "CheckPutConcurrent time unmarshal ck key rs res rel ts =
     go_bind (GetJson time unmarshal ck key (-1) ts) (\<lambda>(ver0, e, ts).
       let res = sum_results rs res
       in if rel then (if ver0 \<noteq> word_of_int (Nok res) then Fatal else Ret (res, ts))
          else if ver0 > word_of_int (Nok res + Nmaybe res) then Fatal else Ret (res, ts))"

fun OnePut ::
  "nat \<Rightarrow> (nat \<Rightarrow> int) \<Rightarrow> (EntryV \<Rightarrow> string option) \<Rightarrow> (string \<Rightarrow> EntryV option) \<Rightarrow> int \<Rightarrow> 'w IKVClerk \<Rightarrow> string \<Rightarrow> Tversion \<Rightarrow>
   'w kv_test \<Rightarrow> ((Tversion \<times> bool) \<times> 'w kv_test) go option" where
  "OnePut 0 time marshal unmarshal i ck key ver ts = None"
| "OnePut (Suc fuel) time marshal unmarshal i ck key ver ts =
     (case PutJson time marshal ck key \<lparr>ev_Id = i, ev_V = ver\<rparr> ver i ts of
        Ret (err, ts) \<Rightarrow>
          if \<not> (err = OK \<or> err = ErrVersion \<or> err = ErrMaybe) then Some Fatal
          else (case GetJson time unmarshal ck key i ts of
                  Ret (ver0, e, ts) \<Rightarrow>
                    if err = OK \<and> ver0 = ver + 1 \<and> ev_Id e \<noteq> i \<and> ev_V e \<noteq> ver then Some Fatal
                    else if err = OK \<or> err = ErrMaybe then Some (Ret ((ver0, err = OK), ts))
                    else OnePut fuel time marshal unmarshal i ck key ver0 ts
                | Panic \<Rightarrow> Some Panic | Fatal \<Rightarrow> Some Fatal | Block \<Rightarrow> Some Block)
      | Panic \<Rightarrow> Some Panic | Fatal \<Rightarrow> Some Fatal | Block \<Rightarrow> Some Block)"

text \<open>
  \<open>OneClientPut\<close> goes on until it finds the \<open>done\<close> signal; \<open>rnds\<close> are the random numbers of the iterations
  made before that. A missing key of \<open>verm\<close> reads 0.
\<close>

fun OneClientPut_loop ::
  "nat \<Rightarrow> (nat \<Rightarrow> int) \<Rightarrow> (EntryV \<Rightarrow> string option) \<Rightarrow> (string \<Rightarrow> EntryV option) \<Rightarrow> bool \<Rightarrow> int \<Rightarrow> 'w IKVClerk \<Rightarrow> string list \<Rightarrow>
   nat list \<Rightarrow> (string, Tversion) gomap \<Rightarrow> ClntRes \<Rightarrow> 'w kv_test \<Rightarrow> (ClntRes \<times> 'w kv_test) go option" where
  "OneClientPut_loop fuel time marshal unmarshal randomkeys cli ck ka [] verm res ts = Some (Ret (res, ts))"
| "OneClientPut_loop fuel time marshal unmarshal randomkeys cli ck ka (r # rnds) verm res ts =
     (if ka = [] then Some Panic
      else let k = (if randomkeys then ka ! (r mod length ka) else ka ! 0);
               ver = (case map_of verm k of Some v \<Rightarrow> v | None \<Rightarrow> 0)
           in case OnePut fuel time marshal unmarshal cli ck k ver ts of
                Some (Ret ((ver', ok), ts)) \<Rightarrow>
                  OneClientPut_loop fuel time marshal unmarshal randomkeys cli ck ka rnds (AList.update k ver' verm)
                    (if ok then res\<lparr>Nok := Nok res + 1\<rparr> else res\<lparr>Nmaybe := Nmaybe res + 1\<rparr>) ts
              | Some Panic \<Rightarrow> Some Panic | Some Fatal \<Rightarrow> Some Fatal | Some Block \<Rightarrow> Some Block | None \<Rightarrow> None)"

definition OneClientPut ::
  "nat \<Rightarrow> (nat \<Rightarrow> int) \<Rightarrow> (EntryV \<Rightarrow> string option) \<Rightarrow> (string \<Rightarrow> EntryV option) \<Rightarrow> bool \<Rightarrow> int \<Rightarrow> 'w IKVClerk \<Rightarrow> string list \<Rightarrow>
   nat list \<Rightarrow> 'w kv_test \<Rightarrow> (ClntRes \<times> 'w kv_test) go option" where
  "OneClientPut fuel time marshal unmarshal randomkeys cli ck ka rnds ts =
     OneClientPut_loop fuel time marshal unmarshal randomkeys cli ck ka rnds
       (foldl (\<lambda>verm k. AList.update k 0 verm) [] ka) \<lparr>Nok = 0, Nmaybe = 0\<rparr> ts"

definition letterBytes :: string where
  "letterBytes = ''abcdefghijklmnopqrstuvwxyzABCDEFGHIJKLMNOPQRSTUVWXYZ''"

definition RandValue :: "(nat \<Rightarrow> nat) \<Rightarrow> nat \<Rightarrow> string" where
  "RandValue rnd n = map (\<lambda>i. letterBytes ! (rnd i mod length letterBytes)) [0..<n]"

definition MakeKeys :: "nat \<Rightarrow> string list" where
  "MakeKeys n = map (\<lambda>i. ''k'' @ Itoa (int i)) [0..<n]"

fun spread_puts :: "'w IKVClerk \<Rightarrow> (string \<times> string) list \<Rightarrow> 'w kv_test \<Rightarrow> 'w kv_test" where
  "spread_puts ck [] ts = ts"
| "spread_puts ck ((k, v) # kvs) ts = spread_puts ck kvs (ts\<lparr>kt_world := snd (ck_Put ck k v 0 (kt_world ts))\<rparr>)"

fun check_gets :: "(nat \<Rightarrow> int) \<Rightarrow> 'w IKVClerk \<Rightarrow> (string \<times> string) list \<Rightarrow> 'w kv_test \<Rightarrow> 'w kv_test go" where
  "check_gets time ck [] ts = Ret ts"
| "check_gets time ck ((k, v) # kvs) ts = go_bind (CheckGet time ck k v 1 ts) (check_gets time ck kvs)"

text \<open>\<open>va\<close> are the random values.\<close>

definition SpreadPutsSize ::
  "(nat \<Rightarrow> int) \<Rightarrow> 'w IKVClerk \<Rightarrow> nat \<Rightarrow> (nat \<Rightarrow> string) \<Rightarrow> 'w kv_test \<Rightarrow> ((string list \<times> string list) \<times> 'w kv_test) go" where
  "SpreadPutsSize time ck n rnd ts =
     (let ka = MakeKeys n; va = map rnd [0..<n]
      in go_bind (check_gets time ck (zip ka va) (spread_puts ck (zip ka va) ts)) (\<lambda>ts. Ret ((ka, va), ts)))"

section \<open>Partitions\<close>

text \<open>One round of \<open>Partitioner\<close>: \<open>rnd j\<close> is the random number that puts server \<open>j\<close> on a side.\<close>

definition Partitioner_side :: "(nat \<Rightarrow> nat) \<Rightarrow> nat \<Rightarrow> nat \<Rightarrow> int list" where
  "Partitioner_side rnd n i = map int (filter (\<lambda>j. rnd j mod 2 = i) [0..<n])"

definition Partitioner_round :: "(nat \<Rightarrow> nat) \<Rightarrow> 's ServerGrp \<Rightarrow> 'w Tester \<Rightarrow> ('s ServerGrp \<times> 'w Tester) go" where
  "Partitioner_round rnd sg t =
     (let n = nat (sg_N sg) in Tester.Partition (Partitioner_side rnd n 0) (Partitioner_side rnd n 1) sg t)"

section \<open>Appends and their check\<close>

record EntryN =
  en_Id :: int
  en_N :: int

text \<open>One append of client \<open>i\<close>: retried while another client was faster. \<open>True\<close> counts as ok, \<open>False\<close> as maybe.\<close>

fun append_entry_loop ::
  "nat \<Rightarrow> (nat \<Rightarrow> int) \<Rightarrow> (EntryN list \<Rightarrow> string option) \<Rightarrow> (string \<Rightarrow> EntryN list option) \<Rightarrow> int \<Rightarrow> 'w IKVClerk \<Rightarrow> int \<Rightarrow>
   'w kv_test \<Rightarrow> (bool \<times> 'w kv_test) go option" where
  "append_entry_loop 0 time marshal unmarshal i ck n ts = None"
| "append_entry_loop (Suc fuel) time marshal unmarshal i ck n ts =
     (case GetJson time unmarshal ck ''k'' i ts of
        Ret (ver, es, ts) \<Rightarrow>
          (case PutJson time marshal ck ''k'' (es @ [\<lparr>en_Id = i, en_N = n\<rparr>]) ver i ts of
             Ret (err, ts) \<Rightarrow>
               if err = OK then Some (Ret (True, ts))
               else if err = ErrMaybe then Some (Ret (False, ts))
               else append_entry_loop fuel time marshal unmarshal i ck n ts
           | Panic \<Rightarrow> Some Panic | Fatal \<Rightarrow> Some Fatal | Block \<Rightarrow> Some Block)
      | Panic \<Rightarrow> Some Panic | Fatal \<Rightarrow> Some Fatal | Block \<Rightarrow> Some Block)"

text \<open>\<open>OneClientAppend\<close> with \<open>m\<close> iterations before the \<open>done\<close> signal, the first of them number \<open>n\<close>.\<close>

fun OneClientAppend_loop ::
  "nat \<Rightarrow> (nat \<Rightarrow> int) \<Rightarrow> (EntryN list \<Rightarrow> string option) \<Rightarrow> (string \<Rightarrow> EntryN list option) \<Rightarrow> int \<Rightarrow> 'w IKVClerk \<Rightarrow> nat \<Rightarrow> int \<Rightarrow>
   ClntRes \<Rightarrow> 'w kv_test \<Rightarrow> (ClntRes \<times> 'w kv_test) go option" where
  "OneClientAppend_loop fuel time marshal unmarshal i ck 0 n res ts = Some (Ret (res, ts))"
| "OneClientAppend_loop fuel time marshal unmarshal i ck (Suc m) n res ts =
     (case append_entry_loop fuel time marshal unmarshal i ck n ts of
        Some (Ret (ok, ts)) \<Rightarrow>
          OneClientAppend_loop fuel time marshal unmarshal i ck m (n + 1)
            (if ok then res\<lparr>Nok := Nok res + 1\<rparr> else res\<lparr>Nmaybe := Nmaybe res + 1\<rparr>) ts
      | Some Panic \<Rightarrow> Some Panic | Some Fatal \<Rightarrow> Some Fatal | Some Block \<Rightarrow> Some Block | None \<Rightarrow> None)"

definition OneClientAppend ::
  "nat \<Rightarrow> (nat \<Rightarrow> int) \<Rightarrow> (EntryN list \<Rightarrow> string option) \<Rightarrow> (string \<Rightarrow> EntryN list option) \<Rightarrow> int \<Rightarrow> 'w IKVClerk \<Rightarrow> nat \<Rightarrow>
   'w kv_test \<Rightarrow> (ClntRes \<times> 'w kv_test) go option" where
  "OneClientAppend fuel time marshal unmarshal i ck m ts =
     OneClientAppend_loop fuel time marshal unmarshal i ck m 0 \<lparr>Nok = 0, Nmaybe = 0\<rparr> ts"

definition get0 :: "(int, int) gomap \<Rightarrow> int \<Rightarrow> int" where
  "get0 m c = (case map_of m c of Some n \<Rightarrow> n | None \<Rightarrow> 0)"

fun appends_loop :: "EntryN list \<Rightarrow> (int, int) gomap \<Rightarrow> (int, int) gomap \<Rightarrow> ((int, int) gomap \<times> (int, int) gomap) go" where
  "appends_loop [] expect skipped = Ret (expect, skipped)"
| "appends_loop (e # es) expect skipped =
     (let x = get0 expect (en_Id e)
      in if x > en_N e then Fatal
         else if x = en_N e then appends_loop es (AList.update (en_Id e) (x + 1) expect) skipped
         else appends_loop es (AList.update (en_Id e) (en_N e + 1) expect)
                (AList.update (en_Id e) (get0 skipped (en_Id e) + (en_N e - x)) skipped))"

fun clients_loop :: "(int \<times> int) list \<Rightarrow> (int, int) gomap \<Rightarrow> ClntRes list \<Rightarrow> unit go" where
  "clients_loop [] skipped rs = Ret ()"
| "clients_loop ((c, n) # cs) skipped rs =
     go_bind (idx rs c) (\<lambda>r.
       if get0 skipped c > Nmaybe r then Fatal
       else if n > Nok r + Nmaybe r then Fatal
       else clients_loop cs skipped rs)"

definition CheckAppends :: "EntryN list \<Rightarrow> nat \<Rightarrow> ClntRes list \<Rightarrow> Tversion \<Rightarrow> unit go" where
  "CheckAppends es nclnt rs ver =
     (let zeros = foldl (\<lambda>m i. AList.update (int i) 0 m) [] [0..<nclnt]
      in go_bind (appends_loop es zeros zeros) (\<lambda>(expect, skipped).
           if int (length es) + 1 \<noteq> sint ver then Fatal
           else clients_loop expect skipped rs))"

section \<open>What the append check accepts\<close>

definition numbers_of :: "int \<Rightarrow> EntryN list \<Rightarrow> int list" where
  "numbers_of c es = map en_N (filter (\<lambda>e. en_Id e = c) es)"

fun grows :: "int \<Rightarrow> int list \<Rightarrow> bool" where
  "grows x [] = True"
| "grows x (n # ns) = (x \<le> n \<and> grows (n + 1) ns)"

definition next_number :: "int \<Rightarrow> int list \<Rightarrow> int" where
  "next_number x ns = (if ns = [] then x else last ns + 1)"

lemma grows_iff: "grows x ns \<longleftrightarrow> sorted_wrt (<) ns \<and> (\<forall>n\<in>set ns. x \<le> n)"
proof (induction ns arbitrary: x)
  case (Cons n ns)
  have "x \<le> n \<and> (\<forall>k\<in>set ns. n + 1 \<le> k) \<longleftrightarrow> (\<forall>k\<in>set ns. n < k) \<and> x \<le> n \<and> (\<forall>k\<in>set ns. x \<le> k)"
    by force
  with Cons.IH [of "n + 1"] show ?case by auto
qed simp

lemma numbers_of_Cons [simp]:
  "numbers_of c [] = []"
  "numbers_of c (e # es) = (if en_Id e = c then en_N e # numbers_of c es else numbers_of c es)"
  by (simp_all add: numbers_of_def)

lemma get0_update [simp]: "get0 (AList.update c n m) c' = (if c' = c then n else get0 m c')"
  by (simp add: get0_def update_conv')

lemma next_number_Cons: "next_number x (n # ns) = next_number (n + 1) ns"
  by (simp add: next_number_def)

lemma appends_loop_rejects:
  "\<not> grows (get0 expect c) (numbers_of c es) \<Longrightarrow> appends_loop es expect skipped = Fatal"
  by (induction es expect skipped rule: appends_loop.induct) (auto simp: Let_def split: if_splits)

lemma appends_loop_accepts:
  "\<forall>c. grows (get0 expect c) (numbers_of c es) \<Longrightarrow> gm_wf expect \<Longrightarrow>
   \<exists>expect' skipped'. appends_loop es expect skipped = Ret (expect', skipped') \<and> gm_wf expect' \<and>
     fst ` set expect' = fst ` set expect \<union> en_Id ` set es \<and>
     (\<forall>c. get0 expect' c = next_number (get0 expect c) (numbers_of c es)) \<and>
     (\<forall>c. get0 skipped' c = get0 skipped c + get0 expect' c - get0 expect c - int (length (numbers_of c es)))"
proof (induction es arbitrary: expect skipped)
  case (Cons e es)
  let ?i = "en_Id e" and ?x = "get0 expect (en_Id e)"
  let ?E = "AList.update ?i (en_N e + 1) expect"
  let ?S = "if ?x = en_N e then skipped else AList.update ?i (get0 skipped ?i + (en_N e - ?x)) skipped"
  have le: "?x \<le> en_N e" using Cons.prems(1) by (auto dest: spec [of _ ?i])
  have g: "\<forall>c. grows (get0 ?E c) (numbers_of c es)"
    using Cons.prems(1) by (auto split: if_splits)
  have wf: "gm_wf ?E" using Cons.prems(2) by (simp add: gm.wf_put)
  have keys: "fst ` set ?E = insert ?i (fst ` set expect)"
    by (simp add: dom_update)
  have step: "appends_loop (e # es) expect skipped = appends_loop es ?E ?S"
    using le by (auto simp: Let_def)
  obtain E' S' where "appends_loop es ?E ?S = Ret (E', S')" "gm_wf E'" "fst ` set E' = fst ` set ?E \<union> en_Id ` set es"
    and E': "\<forall>c. get0 E' c = next_number (get0 ?E c) (numbers_of c es)"
    and S': "\<forall>c. get0 S' c = get0 ?S c + get0 E' c - get0 ?E c - int (length (numbers_of c es))"
    using Cons.IH [OF g wf, of ?S] by blast
  moreover have "get0 E' c = next_number (get0 expect c) (numbers_of c (e # es))" for c
    using E' by (simp add: next_number_Cons)
  moreover have "get0 S' c = get0 skipped c + get0 E' c - get0 expect c - int (length (numbers_of c (e # es)))" for c
    using S' by auto
  ultimately show ?case using step keys by auto
qed (simp add: next_number_def)

lemma clients_loop_iff:
  "clients_loop cs skipped rs = Ret () \<longleftrightarrow> (\<forall>(c, n)\<in>set cs. 0 \<le> c \<and> c < int (length rs) \<and>
     get0 skipped c \<le> Nmaybe (rs ! nat c) \<and> n \<le> Nok (rs ! nat c) + Nmaybe (rs ! nat c))"
  by (induction cs skipped rs rule: clients_loop.induct) (auto simp: idx_def)

definition zeros :: "nat \<Rightarrow> (int, int) gomap" where
  "zeros n = foldl (\<lambda>m i. AList.update (int i) 0 m) [] [0..<n]"

lemma zeros_spec: "gm_wf (zeros n) \<and> fst ` set (zeros n) = int ` {0..<n} \<and> (\<forall>c. get0 (zeros n) c = 0)"
proof (induction n)
  case (Suc n)
  have "zeros (Suc n) = AList.update (int n) 0 (zeros n)" by (simp add: zeros_def)
  with Suc show ?case by (auto simp: gm.wf_put dom_update less_Suc_eq image_iff)
qed (simp add: zeros_def gm_wf_def get0_def)

lemma CheckAppends_eq:
  "CheckAppends es n rs ver = go_bind (appends_loop es (zeros n) (zeros n)) (\<lambda>(expect, skipped).
     if int (length es) + 1 \<noteq> sint ver then Fatal else clients_loop expect skipped rs)"
  by (simp add: CheckAppends_def zeros_def Let_def)

lemma get0_wf: "gm_wf m \<Longrightarrow> (c, n) \<in> set m \<Longrightarrow> n = get0 m c"
  by (simp add: get0_def gm_wf_def)

lemma ids_numbers: "c \<in> en_Id ` set es \<longleftrightarrow> numbers_of c es \<noteq> []"
  by (auto simp: numbers_of_def filter_empty_conv)

section \<open>The clerk of a reliable network\<close>

text \<open>
  What the tests rely on when nothing interferes and no message is lost: the interface of a clerk whose
  calls all get through. \<open>lookup\<close> is what the service holds.
\<close>

locale reliable_clerk =
  fixes lookup :: "'w \<Rightarrow> string \<Rightarrow> (string \<times> Tversion) option"
    and ck :: "'w IKVClerk"
  assumes get_present: "lookup w k = Some (v, n) \<Longrightarrow> ck_Get ck k w = ((v, n, OK), w)"
    and put_new: "lookup w k = None \<Longrightarrow> \<exists>w'. ck_Put ck k v 0 w = (OK, w') \<and> lookup w' = (lookup w)(k \<mapsto> (v, 1))"
    and put_current: "lookup w k = Some (u, n) \<Longrightarrow> \<exists>w'. ck_Put ck k v n w = (OK, w') \<and> lookup w' = (lookup w)(k \<mapsto> (v, n + 1))"
    and put_stale: "lookup w k = Some (u, m) \<Longrightarrow> n \<noteq> m \<Longrightarrow> ck_Put ck k v n w = (ErrVersion, w)"
begin

lemma PutAtLeastOnce_catches_up:
  assumes "unat m + d < 2 ^ 64"
  shows "lookup (kt_world ts) k = Some (u, m + of_nat d) \<Longrightarrow> d < fuel \<Longrightarrow>
    \<exists>ts'. PutAtLeastOnce fuel time ck k v m i ts = Some (Ret (m + of_nat d + 1, ts')) \<and>
      lookup (kt_world ts') = (lookup (kt_world ts))(k \<mapsto> (v, m + of_nat d + 1))"
  using assms
proof (induction d arbitrary: m ts fuel)
  case 0
  from 0 obtain f where f: "fuel = Suc f" by (cases fuel) auto
  from put_current [OF 0(1), of v] f show ?case by (auto simp: test_Put_def)
next
  case (Suc d)
  from Suc obtain f where f: "fuel = Suc f" "d < f" by (cases fuel) auto
  have "m \<noteq> m + of_nat (Suc d)"
  proof
    assume "m = m + of_nat (Suc d)"
    then have "(of_nat (Suc d) :: Tversion) = 0" by simp
    then have "2 ^ 64 dvd Suc d" by (simp only: word_of_nat_eq_0_iff) simp
    then show False using Suc.prems(3) by (auto dest: dvd_imp_le)
  qed
  from put_stale [OF Suc.prems(1) this, of v]
  obtain ts1 where p: "test_Put time ck k v m i ts = (ErrVersion, ts1)" "kt_world ts1 = kt_world ts"
    by (auto simp: test_Put_def)
  have u: "unat (m + 1) = Suc (unat m)"
    using Suc.prems(3) by (intro unat_Suc_no_wrap) simp
  have s: "m + 1 + of_nat d = m + of_nat (Suc d)" by simp
  have pre: "lookup (kt_world ts1) k = Some (u, m + 1 + of_nat d)" "unat (m + 1) + d < 2 ^ 64"
    using Suc.prems(1,3) u by (simp_all add: p(2) s)
  from Suc.IH [OF pre(1) f(2) pre(2)]
  obtain ts' where "PutAtLeastOnce f time ck k v (m + 1) i ts1 = Some (Ret (m + of_nat (Suc d) + 1, ts'))"
    "lookup (kt_world ts') = (lookup (kt_world ts))(k \<mapsto> (v, m + of_nat (Suc d) + 1))"
    unfolding s p(2) by blast
  with f p show ?case by auto
qed

lemma PutAtLeastOnce_new:
  assumes "lookup (kt_world ts) k = None"
  shows "\<exists>ts'. PutAtLeastOnce (Suc fuel) time ck k v 0 i ts = Some (Ret (1, ts')) \<and>
    lookup (kt_world ts') = (lookup (kt_world ts))(k \<mapsto> (v, 1))"
  using put_new [OF assms, of v] by (auto simp: test_Put_def)

lemma spread_puts_stores:
  "distinct (map fst kvs) \<Longrightarrow> \<forall>k\<in>fst ` set kvs. lookup (kt_world ts) k = None \<Longrightarrow>
   lookup (kt_world (spread_puts ck kvs ts)) k =
     (case map_of kvs k of Some v \<Rightarrow> Some (v, 1) | None \<Rightarrow> lookup (kt_world ts) k)"
proof (induction kvs arbitrary: ts)
  case (Cons p kvs)
  obtain k' v where p: "p = (k', v)" by (cases p)
  from Cons.prems p obtain w where w: "ck_Put ck k' v 0 (kt_world ts) = (OK, w)" "lookup w = (lookup (kt_world ts))(k' \<mapsto> (v, 1))"
    using put_new [of "kt_world ts" k' v] by auto
  from Cons.prems p have "k' \<notin> fst ` set kvs" by auto
  then have "map_of kvs k' = None" by (simp add: map_of_eq_None_iff)
  moreover have "\<forall>k\<in>fst ` set kvs. lookup (kt_world (ts\<lparr>kt_world := w\<rparr>)) k = None"
    using Cons.prems(2) p w(2) \<open>k' \<notin> fst ` set kvs\<close> by auto
  ultimately show ?case using Cons.IH [of "ts\<lparr>kt_world := w\<rparr>"] Cons.prems(1) p w by (auto split: option.splits)
qed simp

lemma check_gets_pass:
  "\<forall>(k, v)\<in>set kvs. lookup (kt_world ts) k = Some (v, 1) \<Longrightarrow>
   \<exists>ts'. check_gets time ck kvs ts = Ret ts' \<and> kt_world ts' = kt_world ts"
proof (induction kvs arbitrary: ts)
  case (Cons p kvs)
  obtain k v where p: "p = (k, v)" by (cases p)
  with Cons.prems have "ck_Get ck k (kt_world ts) = ((v, 1, OK), kt_world ts)" using get_present by auto
  then obtain ts1 where "CheckGet time ck k v 1 ts = Ret ts1" "kt_world ts1 = kt_world ts"
    by (auto simp: CheckGet_def test_Get_def)
  with Cons.IH [of ts1] Cons.prems p show ?case by simp
qed auto

end

text \<open>The clerk of \<open>kvsrv1/client.go\<close> on a network that loses nothing: its first call is answered by the server.\<close>

definition kv_lookup :: "KVServer \<Rightarrow> string \<Rightarrow> (string \<times> Tversion) option" where
  "kv_lookup kv k = map_option (\<lambda>d. (kv_Value d, kv_Version d)) (data kv k)"

definition direct_clerk :: "KVServer IKVClerk" where
  "direct_clerk = \<lparr>
     ck_Get = (\<lambda>k kv. case KVServer_Get kv \<lparr>ga_Key = k\<rparr> of (kv, r) \<Rightarrow> (the (Clerk_Get [CallOk r]), kv)),
     ck_Put = (\<lambda>k v n kv. case KVServer_Put kv \<lparr>pa_Key = k, pa_Value = v, pa_Version = n\<rparr> of
        (kv, r) \<Rightarrow> (the (Clerk_Put [CallOk r]), kv))\<rparr>"

interpretation direct: reliable_clerk kv_lookup direct_clerk
  by unfold_locales
    (auto simp: kv_lookup_def direct_clerk_def KVServer_Get_def KVServer_Put_def Clerk_Get_iter_def Clerk_Put_def
      Clerk_Put_iter_def fun_eq_iff)

text \<open>Every round of the partitioner leaves each server connected to exactly the servers on its side.\<close>

lemma Partitioner_separates:
  assumes "sg_wf sg"
  shows "\<exists>sg' t'. Partitioner_round rnd sg t = Ret (sg', t') \<and> sg_wf sg' \<and> srvs sg' = srvs sg \<and>
    (\<forall>x y. member sg x \<and> member sg y \<longrightarrow>
       is_enabled (endname sg' x y) (tnet t') = (rnd (nat x) mod 2 = rnd (nat y) mod 2))"
proof -
  let ?n = "nat (sg_N sg)"
  let ?p = "Partitioner_side rnd ?n"
  have n: "?n = length (srvs sg)" by (simp add: sg_N_def)
  have sides: "x \<in> set (?p i) \<longleftrightarrow> member sg x \<and> rnd (nat x) mod 2 = i" for x i
    unfolding n by (auto simp: Partitioner_side_def member_def image_iff intro!: exI [of _ "nat x"])
  have "\<forall>x\<in>set (?p 0) \<union> set (?p 1). member sg x" "set (?p 0) \<inter> set (?p 1) = {}"
    using sides by auto
  from Partition_sides [OF assms this, of t] obtain sg' t' where
    run: "Tester.Partition (?p 0) (?p 1) sg t = Ret (sg', t')" "sg_wf sg'" "srvs sg' = srvs sg"
    and en: "\<forall>x\<in>set (?p 0) \<union> set (?p 1). \<forall>y\<in>set (?p 0) \<union> set (?p 1).
       is_enabled (endname sg' x y) (tnet t') = (x \<in> set (?p 0) \<longleftrightarrow> y \<in> set (?p 0))"
    by blast
  have "is_enabled (endname sg' x y) (tnet t') = (rnd (nat x) mod 2 = rnd (nat y) mod 2)"
    if "member sg x" "member sg y" for x y
  proof -
    have "rnd (nat x) mod 2 = 0 \<or> rnd (nat x) mod 2 = 1" "rnd (nat y) mod 2 = 0 \<or> rnd (nat y) mod 2 = 1" by auto
    with en sides that show ?thesis by (metis UnCI zero_neq_one)
  qed
  with run show ?thesis by (simp add: Partitioner_round_def Let_def)
qed

lemma MakeKeys_distinct: "distinct (MakeKeys n)"
  by (auto simp: MakeKeys_def distinct_map inj_on_def)

text \<open>On a fresh key/value server the spread of puts passes its own checks.\<close>

lemma SpreadPuts_pass:
  assumes "kv_lookup (kt_world ts) = Map.empty"
  shows "\<exists>ts'. SpreadPutsSize time direct_clerk n rnd ts = Ret ((MakeKeys n, map rnd [0..<n]), ts')"
proof -
  let ?kvs = "zip (MakeKeys n) (map rnd [0..<n])" and ?ts = "spread_puts direct_clerk (zip (MakeKeys n) (map rnd [0..<n])) ts"
  have d: "distinct (map fst ?kvs)" using MakeKeys_distinct by (simp add: MakeKeys_def)
  have "kv_lookup (kt_world ?ts) k = Some (v, 1)" if "(k, v) \<in> set ?kvs" for k v
    using direct.spread_puts_stores [OF d, of ts k] that d assms by simp
  then obtain ts' where "check_gets time direct_clerk ?kvs ?ts = Ret ts'"
    using direct.check_gets_pass [of ?kvs ?ts time] by auto
  then show ?thesis by (simp add: SpreadPutsSize_def Let_def)
qed

section \<open>Properties\<close>

text \<open>
  C32: what the check of concurrent appends accepts. \<open>CheckAppends\<close> passes exactly when every client's
  entries carry strictly increasing numbers from 0 on, the version is the number of entries plus one,
  every client that appears or was started has a result, and for each of them the numbers it skipped are
  at most its ErrMaybe results and its last number is covered by its puts; it fails or panics otherwise.
\<close>

theorem CheckAppends_accepts:
  "CheckAppends es nclnt rs ver = Ret () \<longleftrightarrow>
    (\<forall>c. sorted_wrt (<) (numbers_of c es) \<and> (\<forall>n\<in>set (numbers_of c es). 0 \<le> n)) \<and>
    int (length es) + 1 = sint ver \<and>
    (\<forall>c. (0 \<le> c \<and> c < int nclnt) \<or> numbers_of c es \<noteq> [] \<longrightarrow>
       0 \<le> c \<and> c < int (length rs) \<and>
       next_number 0 (numbers_of c es) - int (length (numbers_of c es)) \<le> Nmaybe (rs ! nat c) \<and>
       next_number 0 (numbers_of c es) \<le> Nok (rs ! nat c) + Nmaybe (rs ! nat c))"
proof (cases "\<forall>c. grows 0 (numbers_of c es)")
  case False
  then obtain c where "\<not> grows (get0 (zeros nclnt) c) (numbers_of c es)" using zeros_spec by auto
  then have "CheckAppends es nclnt rs ver = Fatal" by (simp add: CheckAppends_eq appends_loop_rejects)
  with False show ?thesis by (simp add: grows_iff)
next
  case True
  then have "\<forall>c. grows (get0 (zeros nclnt) c) (numbers_of c es)" using zeros_spec by simp
  from appends_loop_accepts [OF this, of "zeros nclnt"] zeros_spec [of nclnt]
  obtain E S where run: "appends_loop es (zeros nclnt) (zeros nclnt) = Ret (E, S)" and wf: "gm_wf E"
    and keys: "fst ` set E = int ` {0..<nclnt} \<union> en_Id ` set es"
    and E: "\<And>c. get0 E c = next_number 0 (numbers_of c es)"
    and S: "\<And>c. get0 S c = next_number 0 (numbers_of c es) - int (length (numbers_of c es))"
    by auto
  have dom: "c \<in> fst ` set E \<longleftrightarrow> (0 \<le> c \<and> c < int nclnt) \<or> numbers_of c es \<noteq> []" for c
    unfolding keys Un_iff ids_numbers by (auto simp: image_iff intro!: bexI [of _ "nat c"])
  have "clients_loop E S rs = Ret () \<longleftrightarrow> (\<forall>c \<in> fst ` set E. 0 \<le> c \<and> c < int (length rs) \<and>
      get0 S c \<le> Nmaybe (rs ! nat c) \<and> get0 E c \<le> Nok (rs ! nat c) + Nmaybe (rs ! nat c))"
    unfolding clients_loop_iff using get0_wf [OF wf] by force
  with run True show ?thesis
    unfolding Ball_def dom E S by (auto simp: CheckAppends_eq grows_iff)
qed

theorem CheckAppends_accepts_witness:
  "CheckAppends [\<lparr>en_Id = 0, en_N = 0\<rparr>, \<lparr>en_Id = 1, en_N = 0\<rparr>, \<lparr>en_Id = 0, en_N = 2\<rparr>] 2
     [\<lparr>Nok = 2, Nmaybe = 1\<rparr>, \<lparr>Nok = 1, Nmaybe = 0\<rparr>] 4 = Ret ()"
  unfolding CheckAppends_accepts
proof (intro conjI allI impI, goal_cases)
  case (6 c)
  then have "c = 0 \<or> c = 1" by (auto split: if_splits)
  then show ?case by (auto simp: next_number_def)
next
  case (7 c)
  then have "c = 0 \<or> c = 1" by (auto split: if_splits)
  then show ?case by (auto simp: next_number_def)
qed (auto split: if_splits)

text \<open>
  C33: \<open>PutAtLeastOnce\<close> comes to an end and stores the value. On the versioned server, over a network that
  loses nothing, for a key whose version is at or past the given one, the loop ends after one attempt per
  version it is behind, never stops the test, returns the version after the key's, and the server then
  holds the value at that version and all other keys unchanged.
\<close>

theorem PutAtLeastOnce_stores:
  assumes "kv_lookup (kt_world ts) k = Some (u, n)" and "m \<le> n" and "unat n - unat m < fuel"
  shows "\<exists>ts'. PutAtLeastOnce fuel time direct_clerk k v m i ts = Some (Ret (n + 1, ts')) \<and>
    kv_lookup (kt_world ts') = (kv_lookup (kt_world ts))(k \<mapsto> (v, n + 1))"
proof -
  let ?d = "unat n - unat m"
  have "unat m \<le> unat n" using assms(2) by (simp add: word_le_nat_alt)
  then have sum: "unat m + ?d = unat n" by simp
  have "m + of_nat ?d = of_nat (unat m + ?d)" by simp
  then have "m + of_nat ?d = n" unfolding sum by simp
  moreover have "unat m + ?d < 2 ^ 64" unfolding sum using unsigned_less [of n] by simp
  ultimately show ?thesis
    using direct.PutAtLeastOnce_catches_up [of m ?d ts k u fuel time v i] assms(1,3) by simp
qed

theorem PutAtLeastOnce_stores_witness:
  "\<exists>ts'. PutAtLeastOnce 3 (\<lambda>t. int t) direct_clerk ''k'' ''new'' 3 7
     \<lparr>kt_world = \<lparr>data = [''k'' \<mapsto> \<lparr>kv_Value = ''old'', kv_Version = 5\<rparr>]\<rparr>, kt_oplog = Some [], kt_ops = 0, kt_reads = 0\<rparr> =
     Some (Ret (6, ts')) \<and> kv_lookup (kt_world ts') ''k'' = Some (''new'', 6)"
proof -
  let ?ts = "\<lparr>kt_world = \<lparr>data = [''k'' \<mapsto> \<lparr>kv_Value = ''old'', kv_Version = 5\<rparr>]\<rparr>, kt_oplog = Some [], kt_ops = 0, kt_reads = 0\<rparr>"
  have "kv_lookup (kt_world ?ts) ''k'' = Some (''old'', 5)" by (simp add: kv_lookup_def)
  moreover have "(3 :: Tversion) \<le> 5" "unat (5 :: Tversion) - unat (3 :: Tversion) < 3" by simp_all
  ultimately show ?thesis
    using PutAtLeastOnce_stores [of ?ts "''k''" "''old''" 5 3 3 "\<lambda>t. int t" "''new''" 7] by auto
qed

end
