(* ===== verification/LockNet.thy ===== *)
theory LockNet
  imports KvLock KvNet KvTest
begin

text \<open>
  The lock of \<open>kvsrv1/lock/lock.go\<close> over the simulated network: clients that acquire and release through end points of
  \<open>labrpc\<close>. \<open>MakeLock\<close> gives a client its identifier, eight random letters.
\<close>

record 'k Lock =
  lk_ck :: 'k
  lk_l :: string
  lk_clientId :: string

definition MakeLock :: "(nat \<Rightarrow> nat) \<Rightarrow> 'k \<Rightarrow> string \<Rightarrow> 'k Lock" where
  "MakeLock rnd ck l = \<lparr>lk_ck = ck, lk_l = l, lk_clientId = RandValue rnd 8\<rparr>"

lemma MakeLock_id: "length (lk_clientId (MakeLock rnd ck l)) = 8"
  by (simp add: MakeLock_def RandValue_def)

text \<open>What holds of the lock in the abstract system holds over any network that is ready.\<close>

abbreviation lock_net_reach where
  "lock_net_reach cd ep rn l ids \<equiv> knet_reach cd ep (lock_request l ids) (lock_resume ids) lock_act rn (\<lambda>c. LIdle)"

lemma lock_net_abstract:
  assumes "codec_inverse cd" and "kv_ready cd rn" and "lock_net_reach cd ep rn l ids n s"
  shows "\<exists>m a. m \<le> 2 * n \<and> lock_reach l ids m a \<and> loc a = kn_loc s \<and> srv a = world (net (kn_net s))"
  using knet_reach_simulated [OF assms] unfolding simulates_def by blast

lemma lock_net_exclusion:
  assumes "codec_inverse cd" and "kv_ready cd rn" and "lock_net_reach cd ep rn l ids n s" and "2 * n < 2 ^ 64"
    and "inj ids" and "\<And>c. ids c \<noteq> ''''" and "kn_loc s c = LHeld"
  shows "fst (kv_cur (world (net (kn_net s))) l) = ids c \<and> (\<forall>d. kn_loc s d = LHeld \<longrightarrow> d = c)"
proof -
  obtain m a where a: "m \<le> 2 * n" "lock_reach l ids m a" "loc a = kn_loc s" "srv a = world (net (kn_net s))"
    using lock_net_abstract [OF assms(1-3)] by blast
  have inv: "lock_inv l ids a" using lock_reach_inv [OF a(2) _ assms(5,6)] a(1) assms(4) by simp
  have held: "val a l = ids d" if "kn_loc s d = LHeld" for d
    using inv that a(3) by (auto simp: lock_inv_def KvLock.client_ok_def lock_pc_ok_def dest: spec [of _ d])
  from held [OF assms(7)] held show ?thesis using assms(5) a(4) by (auto simp: val_def inj_eq)
qed

end
