(* ===== verification/Annotation.thy ===== *)
theory Annotation
  imports Prelude
begin

text \<open>
  The annotations of a test run (\<open>tester1/annotation.go\<close>): points and intervals on the time line that the
  visualizer shows, continuous annotations that last until the next one with the same tag, and the
  framework's record of which servers are connected or crashed, which drives the annotation of faults.
  A timestamp is an argument; so is the value of the environment variable \<open>VIS_ENABLE\<close>, and the file that
  \<open>cleanup\<close> writes is a value, the list of annotations in it. The state is the two global variables.
\<close>

section \<open>State\<close>

record porcupine_Annotation =
  Tag :: string
  Start_time :: int
  End_time :: int
  Description :: string
  Details :: string
  BackgroundColor :: string

record Continuous =
  ct_start :: int
  ct_desp :: string
  ct_details :: string
  ct_bgcolor :: string

record Annotation =
  annotations :: "porcupine_Annotation list"
  continuous :: "(string, Continuous) gomap"
  finalized :: bool

record CheckerBegin =
  cb_ts :: int
  cb_details :: string

record FrameworkInfo =
  nservers :: nat
  fi_connected :: "bool list"
  fi_crashed :: "bool list"
  ckbegin :: CheckerBegin

record globals =
  annotation :: Annotation
  finfo :: "FrameworkInfo option"

definition COLOR_INFO :: string where "COLOR_INFO = ''#FAFAFA''"
definition COLOR_NEUTRAL :: string where "COLOR_NEUTRAL = ''#FFECB3''"
definition COLOR_SUCCESS :: string where "COLOR_SUCCESS = ''#C8E6C9''"
definition COLOR_FAILURE :: string where "COLOR_FAILURE = ''#FFCDD2''"
definition COLOR_FAULT :: string where "COLOR_FAULT = ''#B3E5FC''"
definition COLOR_USER :: string where "COLOR_USER = ''#FFF176''"
definition TAG_CHECKER :: string where "TAG_CHECKER = ''$ Checker''"
definition TAG_PARTITION :: string where "TAG_PARTITION = ''$ Failure''"
definition TAG_INFO :: string where "TAG_INFO = ''$ Test Info''"

section \<open>Annotations\<close>

definition mkAnnotation :: Annotation where
  "mkAnnotation = \<lparr>annotations = [], continuous = [], finalized = False\<rparr>"

definition clear :: "Annotation \<Rightarrow> Annotation" where
  "clear an = an\<lparr>annotations := [], continuous := [], finalized := False\<rparr>"

definition concretize :: "string \<Rightarrow> int \<Rightarrow> Continuous \<Rightarrow> porcupine_Annotation" where
  "concretize tag t cont = \<lparr>Tag = tag, Start_time = ct_start cont, End_time = t, Description = ct_desp cont,
     Details = ct_details cont, BackgroundColor = ct_bgcolor cont\<rparr>"

definition finalize :: "int \<Rightarrow> Annotation \<Rightarrow> porcupine_Annotation list \<times> Annotation" where
  "finalize t an = (annotations an @ map (\<lambda>(tag, cont). concretize tag t cont) (continuous an), an\<lparr>finalized := True\<rparr>)"

definition annotatePointColor :: "int \<Rightarrow> string \<Rightarrow> string \<Rightarrow> string \<Rightarrow> string \<Rightarrow> Annotation \<Rightarrow> Annotation" where
  "annotatePointColor t tag desp details bgcolor an =
     an\<lparr>annotations := annotations an @ [\<lparr>Tag = tag, Start_time = t, End_time = 0, Description = desp,
       Details = details, BackgroundColor = bgcolor\<rparr>]\<rparr>"

definition annotateIntervalColor :: "int \<Rightarrow> string \<Rightarrow> int \<Rightarrow> string \<Rightarrow> string \<Rightarrow> string \<Rightarrow> Annotation \<Rightarrow> Annotation" where
  "annotateIntervalColor t tag start desp details bgcolor an =
     an\<lparr>annotations := annotations an @ [\<lparr>Tag = tag, Start_time = start, End_time = t, Description = desp,
       Details = details, BackgroundColor = bgcolor\<rparr>]\<rparr>"

definition annotateContinuousColor :: "int \<Rightarrow> string \<Rightarrow> string \<Rightarrow> string \<Rightarrow> string \<Rightarrow> Annotation \<Rightarrow> Annotation" where
  "annotateContinuousColor t tag desp details bgcolor an =
     (let new = \<lparr>ct_start = t, ct_desp = desp, ct_details = details, ct_bgcolor = bgcolor\<rparr>
      in case map_of (continuous an) tag of
           None \<Rightarrow> an\<lparr>continuous := AList.update tag new (continuous an)\<rparr>
         | Some cont \<Rightarrow> an\<lparr>annotations := annotations an @ [concretize tag t cont],
                           continuous := AList.update tag new (continuous an)\<rparr>)"

text \<open>Without an ongoing annotation \<open>cont\<close> is the zero value, and the code goes on with it.\<close>

definition zero_Continuous :: Continuous where
  "zero_Continuous = \<lparr>ct_start = 0, ct_desp = [], ct_details = [], ct_bgcolor = []\<rparr>"

definition annotateContinuousEnd :: "int \<Rightarrow> string \<Rightarrow> Annotation \<Rightarrow> Annotation" where
  "annotateContinuousEnd t tag an =
     (let cont = (case map_of (continuous an) tag of Some c \<Rightarrow> c | None \<Rightarrow> zero_Continuous)
      in an\<lparr>annotations := annotations an @ [concretize tag t cont], continuous := AList.delete tag (continuous an)\<rparr>)"

definition end_annotation :: "int \<Rightarrow> string \<Rightarrow> porcupine_Annotation" where
  "end_annotation t fin = \<lparr>Tag = TAG_INFO, Start_time = t, End_time = 0, Description = fin, Details = fin,
     BackgroundColor = COLOR_INFO\<rparr>"

definition isFinalized :: "Annotation \<Rightarrow> bool" where
  "isFinalized an = finalized an"

definition cleanup :: "string \<Rightarrow> int \<Rightarrow> int \<Rightarrow> bool \<Rightarrow> string \<Rightarrow> Annotation \<Rightarrow> porcupine_Annotation list option \<times> Annotation" where
  "cleanup visEnable t t' failed fin an =
     (if visEnable = ''never'' \<or> (\<not> failed \<and> visEnable \<noteq> ''always'') \<or> isFinalized an
      then (None, clear an)
      else case finalize t an of (as, an) \<Rightarrow>
        if length as = 0 then (None, an) else (Some (as @ [end_annotation t' fin]), an))"

section \<open>The public interface\<close>

definition on_annotation :: "(Annotation \<Rightarrow> Annotation) \<Rightarrow> globals \<Rightarrow> globals" where
  "on_annotation f g = g\<lparr>annotation := f (annotation g)\<rparr>"

definition FinalizeAnnotations :: "int \<Rightarrow> int \<Rightarrow> string \<Rightarrow> globals \<Rightarrow> porcupine_Annotation list \<times> globals" where
  "FinalizeAnnotations t t' fin g =
     (case finalize t (annotation g) of (as, an) \<Rightarrow> (as @ [end_annotation t' fin], g\<lparr>annotation := an\<rparr>))"

definition AnnotatePointColor :: "int \<Rightarrow> string \<Rightarrow> string \<Rightarrow> string \<Rightarrow> string \<Rightarrow> globals \<Rightarrow> globals" where
  "AnnotatePointColor t tag desp details bgcolor = on_annotation (annotatePointColor t tag desp details bgcolor)"

definition AnnotateIntervalColor :: "int \<Rightarrow> string \<Rightarrow> int \<Rightarrow> string \<Rightarrow> string \<Rightarrow> string \<Rightarrow> globals \<Rightarrow> globals" where
  "AnnotateIntervalColor t tag start desp details bgcolor = on_annotation (annotateIntervalColor t tag start desp details bgcolor)"

definition AnnotateContinuousColor :: "int \<Rightarrow> string \<Rightarrow> string \<Rightarrow> string \<Rightarrow> string \<Rightarrow> globals \<Rightarrow> globals" where
  "AnnotateContinuousColor t tag desp details bgcolor = on_annotation (annotateContinuousColor t tag desp details bgcolor)"

definition AnnotateContinuousEnd :: "int \<Rightarrow> string \<Rightarrow> globals \<Rightarrow> globals" where
  "AnnotateContinuousEnd t tag = on_annotation (annotateContinuousEnd t tag)"

definition Annotate :: "int \<Rightarrow> string \<Rightarrow> string \<Rightarrow> string \<Rightarrow> globals \<Rightarrow> globals" where
  "Annotate t tag desp details = on_annotation (annotatePointColor t tag desp details COLOR_USER)"

definition AnnotateInterval :: "int \<Rightarrow> string \<Rightarrow> int \<Rightarrow> string \<Rightarrow> string \<Rightarrow> globals \<Rightarrow> globals" where
  "AnnotateInterval t tag start desp details = on_annotation (annotateIntervalColor t tag start desp details COLOR_USER)"

definition AnnotateContinuous :: "int \<Rightarrow> string \<Rightarrow> string \<Rightarrow> string \<Rightarrow> globals \<Rightarrow> globals" where
  "AnnotateContinuous t tag desp details = on_annotation (annotateContinuousColor t tag desp details COLOR_USER)"

definition AnnotateInfo :: "int \<Rightarrow> string \<Rightarrow> string \<Rightarrow> globals \<Rightarrow> globals" where
  "AnnotateInfo t desp details = AnnotatePointColor t TAG_INFO desp details COLOR_INFO"

definition AnnotateInfoInterval :: "int \<Rightarrow> int \<Rightarrow> string \<Rightarrow> string \<Rightarrow> globals \<Rightarrow> globals" where
  "AnnotateInfoInterval t start desp details = AnnotateIntervalColor t TAG_INFO start desp details COLOR_INFO"

definition mkFrameworkInfo :: "nat \<Rightarrow> FrameworkInfo" where
  "mkFrameworkInfo n = \<lparr>nservers = n, fi_connected = replicate n True, fi_crashed = replicate n False,
     ckbegin = \<lparr>cb_ts = 0, cb_details = []\<rparr>\<rparr>"

definition AnnotateTest :: "int \<Rightarrow> string \<Rightarrow> nat \<Rightarrow> globals \<Rightarrow> globals" where
  "AnnotateTest t desp n g =
     (let details = desp @ '' ('' @ Itoa (int n) @ '' servers)'';
          g = g\<lparr>finfo := Some (mkFrameworkInfo n)\<rparr>
      in AnnotateInfo t details details (on_annotation clear g))"

text \<open>A nil \<open>finfo\<close> makes every function that locks its mutex panic.\<close>

definition with_finfo :: "(FrameworkInfo \<Rightarrow> globals \<Rightarrow> globals go) \<Rightarrow> globals \<Rightarrow> globals go" where
  "with_finfo f g = (case finfo g of None \<Rightarrow> Panic | Some fi \<Rightarrow> f fi g)"

definition AnnotateCheckerBegin :: "int \<Rightarrow> string \<Rightarrow> globals \<Rightarrow> globals go" where
  "AnnotateCheckerBegin t details =
     with_finfo (\<lambda>fi g. Ret (g\<lparr>finfo := Some (fi\<lparr>ckbegin := \<lparr>cb_ts = t, cb_details = details\<rparr>\<rparr>)\<rparr>))"

text \<open>\<open>ckbegin\<close> is a copy, so the reset at the end of the function does not reach \<open>finfo\<close>.\<close>

definition AnnotateCheckerEnd :: "int \<Rightarrow> string \<Rightarrow> string \<Rightarrow> string \<Rightarrow> globals \<Rightarrow> globals go" where
  "AnnotateCheckerEnd t desp details color =
     with_finfo (\<lambda>fi g.
       let cb = ckbegin fi
       in if cb_ts cb = 0 then Ret (AnnotatePointColor t TAG_CHECKER desp details color g)
          else let g = AnnotateIntervalColor t TAG_CHECKER (cb_ts cb) desp (cb_details cb @ '': '' @ details) color g;
                   cb = cb\<lparr>cb_ts := 0\<rparr>
               in Ret g)"

definition AnnotateCheckerSuccess :: "int \<Rightarrow> string \<Rightarrow> string \<Rightarrow> globals \<Rightarrow> globals go" where
  "AnnotateCheckerSuccess t desp details = AnnotateCheckerEnd t desp details COLOR_SUCCESS"

definition AnnotateCheckerFailure :: "int \<Rightarrow> string \<Rightarrow> string \<Rightarrow> globals \<Rightarrow> globals go" where
  "AnnotateCheckerFailure t desp details = AnnotateCheckerEnd t desp details COLOR_FAILURE"

definition AnnotateCheckerNeutral :: "int \<Rightarrow> string \<Rightarrow> string \<Rightarrow> globals \<Rightarrow> globals go" where
  "AnnotateCheckerNeutral t desp details = AnnotateCheckerEnd t desp details COLOR_NEUTRAL"

definition SetAnnotationFinalized :: "globals \<Rightarrow> globals" where
  "SetAnnotationFinalized = on_annotation (\<lambda>an. an\<lparr>finalized := True\<rparr>)"

definition GetAnnotationFinalized :: "globals \<Rightarrow> bool" where
  "GetAnnotationFinalized g = isFinalized (annotation g)"

definition AnnotateCheckerFailureBeforeExit ::
  "string \<Rightarrow> int \<Rightarrow> int \<Rightarrow> int \<Rightarrow> string \<Rightarrow> string \<Rightarrow> globals \<Rightarrow> (porcupine_Annotation list option \<times> globals) go" where
  "AnnotateCheckerFailureBeforeExit visEnable t t' t'' desp details g =
     go_bind (AnnotateCheckerFailure t desp details g) (\<lambda>g.
       case cleanup visEnable t' t'' True ''test failed'' (annotation g) of (out, an) \<Rightarrow> Ret (out, g\<lparr>annotation := an\<rparr>))"

section \<open>Faults\<close>

text \<open>\<open>fmt.Sprintf("%v", sids)\<close> of a slice of ints: the numbers in brackets, separated by blanks.\<close>

fun join_ints :: "int list \<Rightarrow> string" where
  "join_ints [] = []"
| "join_ints [i] = Itoa i"
| "join_ints (i # is) = Itoa i @ '' '' @ join_ints is"

definition show_ints :: "int list \<Rightarrow> string" where
  "show_ints is = ''['' @ join_ints is @ '']''"

fun fault_scan :: "bool list \<Rightarrow> int \<Rightarrow> bool list \<Rightarrow> string \<Rightarrow> int list \<Rightarrow> int list \<Rightarrow> (string \<times> int list \<times> int list) go" where
  "fault_scan crashed sid [] text conn crashes = Ret (text, conn, crashes)"
| "fault_scan crashed sid (c # cs) text conn crashes =
     go_bind (idx crashed sid) (\<lambda>down.
       if down then fault_scan crashed (sid + 1) cs text conn (crashes @ [sid])
       else if c then fault_scan crashed (sid + 1) cs text (conn @ [sid]) crashes
       else fault_scan crashed (sid + 1) cs (text @ ''['' @ Itoa sid @ ''] '') conn crashes)"

definition fault_text :: "FrameworkInfo \<Rightarrow> string go" where
  "fault_text fi =
     go_bind (fault_scan (fi_crashed fi) 0 (fi_connected fi) ''partition = '' [] []) (\<lambda>(text, conn, crashes).
       let text = (if length conn > 0 then text @ show_ints conn else text);
           text = (if length crashes > 0 then text @ '' / crash = '' @ show_ints crashes else text)
       in Ret text)"

definition annotateFault :: "int \<Rightarrow> FrameworkInfo \<Rightarrow> globals \<Rightarrow> globals go" where
  "annotateFault t fi g =
     (let trues = replicate (nservers fi) True; falses = replicate (nservers fi) False
      in if trues = fi_connected fi \<and> falses = fi_crashed fi then Ret (AnnotateContinuousEnd t TAG_PARTITION g)
         else go_bind (fault_text fi) (\<lambda>text. Ret (AnnotateContinuousColor t TAG_PARTITION text text COLOR_FAULT g)))"

text \<open>\<open>copy(dst, src)\<close> overwrites a prefix of \<open>dst\<close>, as long as the shorter of the two.\<close>

definition go_copy :: "'a list \<Rightarrow> 'a list \<Rightarrow> 'a list" where
  "go_copy dst src = take (length dst) src @ drop (length src) dst"

definition AnnotateConnection :: "int \<Rightarrow> bool list \<Rightarrow> globals \<Rightarrow> globals go" where
  "AnnotateConnection t connection =
     with_finfo (\<lambda>fi g.
       if fi_connected fi = connection then Ret g
       else let fi = fi\<lparr>fi_connected := go_copy (fi_connected fi) connection\<rparr>
            in annotateFault t fi (g\<lparr>finfo := Some fi\<rparr>))"

definition AnnotateTwoPartitions :: "int \<Rightarrow> int list \<Rightarrow> int list \<Rightarrow> globals \<Rightarrow> globals" where
  "AnnotateTwoPartitions t p1 p2 =
     (let text = ''partition = '' @ show_ints p1 @ '' '' @ show_ints p2
      in AnnotateContinuousColor t TAG_PARTITION text text COLOR_FAULT)"

definition AnnotateClearFailure :: "int \<Rightarrow> globals \<Rightarrow> globals go" where
  "AnnotateClearFailure t =
     with_finfo (\<lambda>fi g.
       let fi = fi\<lparr>fi_crashed := map (\<lambda>c. False) (fi_crashed fi), fi_connected := map (\<lambda>c. True) (fi_connected fi)\<rparr>
       in Ret (AnnotateContinuousEnd t TAG_PARTITION (g\<lparr>finfo := Some fi\<rparr>)))"

fun mark_crashed :: "bool \<Rightarrow> int list \<Rightarrow> bool list \<Rightarrow> bool \<Rightarrow> (bool list \<times> bool) go" where
  "mark_crashed b [] crashed changed = Ret (crashed, changed)"
| "mark_crashed b (sid # sids) crashed changed =
     go_bind (idx crashed sid) (\<lambda>c.
       go_bind (set_idx crashed sid b) (\<lambda>crashed. mark_crashed b sids crashed (if c \<noteq> b then True else changed)))"

definition annotate_crashes :: "bool \<Rightarrow> int \<Rightarrow> int list \<Rightarrow> globals \<Rightarrow> globals go" where
  "annotate_crashes b t servers =
     with_finfo (\<lambda>fi g.
       go_bind (mark_crashed b servers (fi_crashed fi) False) (\<lambda>(crashed, changed).
         let fi = fi\<lparr>fi_crashed := crashed\<rparr>; g = g\<lparr>finfo := Some fi\<rparr>
         in if \<not> changed then Ret g else annotateFault t fi g))"

definition AnnotateShutdown :: "int \<Rightarrow> int list \<Rightarrow> globals \<Rightarrow> globals go" where
  "AnnotateShutdown = annotate_crashes True"

definition AnnotateRestart :: "int \<Rightarrow> int list \<Rightarrow> globals \<Rightarrow> globals go" where
  "AnnotateRestart = annotate_crashes False"

definition AnnotateShutdownAll :: "int \<Rightarrow> globals \<Rightarrow> globals go" where
  "AnnotateShutdownAll t = with_finfo (\<lambda>fi g. AnnotateShutdown t (map int [0..<nservers fi]) g)"

definition AnnotateRestartAll :: "int \<Rightarrow> globals \<Rightarrow> globals go" where
  "AnnotateRestartAll t = with_finfo (\<lambda>fi g. AnnotateRestart t (map int [0..<nservers fi]) g)"

section \<open>The fault on display\<close>

text \<open>
  The operations of the tests that change the fault annotation, and a run of them. What a history of them means is
  said apart from the code: the servers it leaves disconnected and crashed, the text for a fault (every
  disconnected server is a partition of its own, the connected ones are another, crashed ones come last),
  and the text on display after it, which is that of the last operation that changed anything.
\<close>

datatype fault_op = Connection "bool list" | TwoPartitions "int list" "int list" | ClearFailure
  | Shut "int list" | Back "int list" | ShutAll | BackAll

fun fault_step :: "int \<Rightarrow> fault_op \<Rightarrow> globals \<Rightarrow> globals go" where
  "fault_step t (Connection c) g = AnnotateConnection t c g"
| "fault_step t (TwoPartitions p1 p2) g = Ret (AnnotateTwoPartitions t p1 p2 g)"
| "fault_step t ClearFailure g = AnnotateClearFailure t g"
| "fault_step t (Shut is) g = AnnotateShutdown t is g"
| "fault_step t (Back is) g = AnnotateRestart t is g"
| "fault_step t ShutAll g = AnnotateShutdownAll t g"
| "fault_step t BackAll g = AnnotateRestartAll t g"

fun fault_run :: "(int \<times> fault_op) list \<Rightarrow> globals \<Rightarrow> globals go" where
  "fault_run [] g = Ret g"
| "fault_run ((t, oper) # ops) g = go_bind (fault_step t oper g) (fault_run ops)"

fun op_ok :: "nat \<Rightarrow> fault_op \<Rightarrow> bool" where
  "op_ok n (Connection c) = (length c = n)"
| "op_ok n (Shut is) = (\<forall>i\<in>set is. 0 \<le> i \<and> i < int n)"
| "op_ok n (Back is) = (\<forall>i\<in>set is. 0 \<le> i \<and> i < int n)"
| "op_ok n _ = True"

fun disconnects :: "fault_op \<Rightarrow> nat set \<Rightarrow> nat set" where
  "disconnects (Connection c) D = {i. i < length c \<and> \<not> c ! i}"
| "disconnects ClearFailure D = {}"
| "disconnects _ D = D"

fun crashes :: "nat \<Rightarrow> fault_op \<Rightarrow> nat set \<Rightarrow> nat set" where
  "crashes n (Shut is) C = C \<union> nat ` set is"
| "crashes n (Back is) C = C - nat ` set is"
| "crashes n ShutAll C = {..<n}"
| "crashes n BackAll C = {}"
| "crashes n ClearFailure C = {}"
| "crashes n _ C = C"

definition servers_in :: "nat \<Rightarrow> nat set \<Rightarrow> int list" where
  "servers_in n S = map int (filter (\<lambda>i. i \<in> S) [0..<n])"

definition fault_description :: "nat \<Rightarrow> nat set \<Rightarrow> nat set \<Rightarrow> string option" where
  "fault_description n D C =
     (if D = {} \<and> C = {} then None
      else Some (''partition = '' @ concat (map (\<lambda>i. ''['' @ Itoa i @ ''] '') (servers_in n (D - C))) @
        (if {..<n} \<subseteq> D \<union> C then '''' else show_ints (servers_in n (- (D \<union> C)))) @
        (if C = {} then '''' else '' / crash = '' @ show_ints (servers_in n C))))"

lemma no_fault_description [simp]: "fault_description n {} {} = None"
  by (simp add: fault_description_def)

text \<open>The state of a history: the disconnected and the crashed servers, and the text on display.\<close>

fun display :: "nat \<Rightarrow> fault_op \<Rightarrow> nat set \<times> nat set \<times> string option \<Rightarrow> nat set \<times> nat set \<times> string option" where
  "display n oper (D, C, text) =
     (let D' = disconnects oper D; C' = crashes n oper C in
      (D', C',
       case oper of
         TwoPartitions p1 p2 \<Rightarrow> Some (''partition = '' @ show_ints p1 @ '' '' @ show_ints p2)
       | ClearFailure \<Rightarrow> None
       | _ \<Rightarrow> if (D', C') = (D, C) then text else fault_description n D' C'))"

fun displayed :: "nat \<Rightarrow> fault_op list \<Rightarrow> nat set \<times> nat set \<times> string option \<Rightarrow> nat set \<times> nat set \<times> string option" where
  "displayed n [] d = d"
| "displayed n (oper # ops) d = displayed n ops (display n oper d)"

text \<open>Without partitions into two named sides the text on display is always that of the present fault.\<close>

lemma displayed_current:
  "displayed n ops (D, C, fault_description n D C) = (D', C', text) \<Longrightarrow> \<forall>p1 p2. TwoPartitions p1 p2 \<notin> set ops \<Longrightarrow>
   text = fault_description n D' C'"
proof (induction ops arbitrary: D C)
  case (Cons oper ops)
  have "display n oper (D, C, fault_description n D C) =
      (disconnects oper D, crashes n oper C, fault_description n (disconnects oper D) (crashes n oper C))"
    using Cons.prems(2) by (cases oper) (auto simp: Let_def no_fault_description)
  with Cons show ?case by auto
qed simp

section \<open>The code keeps to it\<close>

text \<open>\<open>shows n g d\<close>: the framework's record and the ongoing annotation with the fault tag are those of \<open>d\<close>.\<close>

definition fi_shows :: "nat \<Rightarrow> FrameworkInfo \<Rightarrow> nat set \<Rightarrow> nat set \<Rightarrow> bool" where
  "fi_shows n fi D C \<longleftrightarrow> nservers fi = n \<and> D \<subseteq> {..<n} \<and> C \<subseteq> {..<n} \<and>
     fi_connected fi = map (\<lambda>i. i \<notin> D) [0..<n] \<and> fi_crashed fi = map (\<lambda>i. i \<in> C) [0..<n]"

definition shows_fault :: "nat \<Rightarrow> globals \<Rightarrow> nat set \<times> nat set \<times> string option \<Rightarrow> bool" where
  "shows_fault n g d \<longleftrightarrow> (case d of (D, C, text) \<Rightarrow>
     (\<exists>fi. finfo g = Some fi \<and> fi_shows n fi D C) \<and>
     map_option ct_desp (map_of (continuous (annotation g)) TAG_PARTITION) = text)"

lemma fault_scan_eq:
  "k \<le> n \<Longrightarrow> fault_scan (map (\<lambda>i. i \<in> C) [0..<n]) (int k) (map (\<lambda>i. i \<notin> D) [k..<n]) str conn cr =
     Ret (str @ concat (map (\<lambda>i. ''['' @ Itoa i @ ''] '') (map int (filter (\<lambda>i. i \<in> D - C) [k..<n]))),
          conn @ map int (filter (\<lambda>i. i \<in> - (D \<union> C)) [k..<n]), cr @ map int (filter (\<lambda>i. i \<in> C) [k..<n]))"
proof (induction "n - k" arbitrary: k str conn cr)
  case (Suc m)
  then have k: "k < n" "[k..<n] = k # [Suc k..<n]" "m = n - Suc k" by (auto simp: upt_conv_Cons)
  have suc: "int (Suc k) = int k + 1" by simp
  from Suc.hyps(1) [OF k(3), unfolded suc] k(1) show ?case
    unfolding k(2) by (auto simp: idx_def)
qed simp

lemma fault_text_eq:
  assumes "fi_shows n fi D C" and "\<not> (D = {} \<and> C = {})"
  shows "\<exists>text. fault_text fi = Ret text \<and> fault_description n D C = Some text"
proof -
  have "servers_in n (- (D \<union> C)) = [] \<longleftrightarrow> {..<n} \<subseteq> D \<union> C" "servers_in n C = [] \<longleftrightarrow> C = {}"
    using assms(1) by (auto simp: servers_in_def filter_empty_conv fi_shows_def)
  moreover have "fault_scan (fi_crashed fi) 0 (fi_connected fi) ''partition = '' [] [] =
      Ret (''partition = '' @ concat (map (\<lambda>i. ''['' @ Itoa i @ ''] '') (servers_in n (D - C))), servers_in n (- (D \<union> C)), servers_in n C)"
    using fault_scan_eq [of 0 n C D] assms(1) by (simp add: fi_shows_def servers_in_def)
  ultimately show ?thesis using assms(2) by (simp add: fault_text_def fault_description_def)
qed

lemmas interface_defs = AnnotateContinuousEnd_def AnnotateContinuousColor_def on_annotation_def
  annotateContinuousEnd_def annotateContinuousColor_def Let_def

lemma map_replicate_eq: "map f [0..<n] = replicate n c \<longleftrightarrow> (\<forall>i < n. f i = c)"
  by (auto simp: list_eq_iff_nth_eq)

lemma annotateFault_shows:
  assumes "fi_shows n fi D C"
  shows "\<exists>g'. annotateFault t fi (g\<lparr>finfo := Some fi\<rparr>) = Ret g' \<and> shows_fault n g' (D, C, fault_description n D C)"
proof -
  have none: "replicate (nservers fi) True = fi_connected fi \<and> replicate (nservers fi) False = fi_crashed fi \<longleftrightarrow> D = {} \<and> C = {}"
    using assms by (auto simp: fi_shows_def map_replicate_eq eq_commute [of "replicate n x" for x])
  show ?thesis
  proof (cases "D = {} \<and> C = {}")
    case True
    with none assms show ?thesis
      by (simp add: annotateFault_def shows_fault_def fault_description_def interface_defs delete_conv')
  next
    case False
    obtain str where "fault_text fi = Ret str" "fault_description n D C = Some str" using fault_text_eq [OF assms False] by blast
    then have "annotateFault t fi (g\<lparr>finfo := Some fi\<rparr>) = Ret (AnnotateContinuousColor t TAG_PARTITION str str COLOR_FAULT (g\<lparr>finfo := Some fi\<rparr>))"
      unfolding annotateFault_def Let_def none if_not_P [OF False] by simp
    with \<open>fault_description n D C = Some str\<close> assms show ?thesis
      by (simp add: shows_fault_def interface_defs update_conv' split: option.splits)
  qed
qed

lemma mark_crashed_eq:
  "\<forall>i\<in>set is. 0 \<le> i \<and> i < int n \<Longrightarrow>
   \<exists>changed'. mark_crashed b is (map (\<lambda>i. i \<in> C) [0..<n]) changed =
       Ret (map (\<lambda>i. i \<in> (if b then C \<union> nat ` set is else C - nat ` set is)) [0..<n], changed') \<and>
     (changed' \<longleftrightarrow> changed \<or> (if b then \<not> nat ` set is \<subseteq> C else nat ` set is \<inter> C \<noteq> {}))"
proof (induction "is" arbitrary: C changed)
  case (Cons i "is")
  let ?C = "if b then insert (nat i) C else C - {nat i}"
  have i: "0 \<le> i" "nat i < n" "i < int n" using Cons.prems by auto
  have "(map (\<lambda>i. i \<in> C) [0..<n])[nat i := b] = map (\<lambda>i. i \<in> ?C) [0..<n]"
    using i(2) by (intro nth_equalityI) (auto simp: nth_list_update)
  with i have step: "mark_crashed b (i # is) (map (\<lambda>i. i \<in> C) [0..<n]) changed =
      mark_crashed b is (map (\<lambda>i. i \<in> ?C) [0..<n]) (if (nat i \<in> C) \<noteq> b then True else changed)"
    by (simp add: idx_def set_idx_def)
  have "\<forall>i\<in>set is. 0 \<le> i \<and> i < int n" using Cons.prems by simp
  from Cons.IH [OF this, of ?C "if (nat i \<in> C) \<noteq> b then True else changed"] obtain changed' where
    ih: "mark_crashed b is (map (\<lambda>i. i \<in> ?C) [0..<n]) (if (nat i \<in> C) \<noteq> b then True else changed) =
       Ret (map (\<lambda>i. i \<in> (if b then ?C \<union> nat ` set is else ?C - nat ` set is)) [0..<n], changed')"
     "changed' \<longleftrightarrow> (if (nat i \<in> C) \<noteq> b then True else changed) \<or> (if b then \<not> nat ` set is \<subseteq> ?C else nat ` set is \<inter> ?C \<noteq> {})" by blast
  have "(if b then ?C \<union> nat ` set is else ?C - nat ` set is) = (if b then C \<union> nat ` set (i # is) else C - nat ` set (i # is))" by auto
  then show ?case using ih step by (cases b) (auto split: if_splits)
qed auto

lemma crashes_show:
  fixes b :: bool
  assumes "shows_fault n g (D, C, text)" and "\<forall>i\<in>set is. 0 \<le> i \<and> i < int n"
  defines "C' \<equiv> if b then C \<union> nat ` set is else C - nat ` set is"
  shows "\<exists>g'. annotate_crashes b t is g = Ret g' \<and> shows_fault n g' (D, C', if C' = C then text else fault_description n D C')"
proof -
  obtain fi where fi: "finfo g = Some fi" "fi_shows n fi D C"
    using assms(1) by (auto simp: shows_fault_def)
  obtain changed where m: "mark_crashed b is (fi_crashed fi) False = Ret (map (\<lambda>i. i \<in> C') [0..<n], changed)"
    "changed \<longleftrightarrow> (if b then \<not> nat ` set is \<subseteq> C else nat ` set is \<inter> C \<noteq> {})"
    using mark_crashed_eq [OF assms(2), of b C False] fi(2) by (auto simp: fi_shows_def C'_def)
  have ch: "changed \<longleftrightarrow> C' \<noteq> C" unfolding m(2) C'_def by auto
  let ?fi = "fi\<lparr>fi_crashed := map (\<lambda>i. i \<in> C') [0..<n]\<rparr>"
  have "C' \<subseteq> {..<n}" using fi(2) assms(2) by (auto simp: C'_def fi_shows_def)
  then have wf: "fi_shows n ?fi D C'" using fi(2) by (simp add: fi_shows_def)
  show ?thesis
  proof (cases changed)
    case True
    with annotateFault_shows [OF wf, of t g] m(1) ch fi(1) show ?thesis
      by (simp add: annotate_crashes_def with_finfo_def Let_def)
  next
    case False
    with ch have "C' = C" by simp
    have "shows_fault n (g\<lparr>finfo := Some ?fi\<rparr>) (D, C', text)" using assms(1) wf by (simp add: shows_fault_def)
    moreover have "annotate_crashes b t is g = Ret (g\<lparr>finfo := Some ?fi\<rparr>)"
      using False m(1) fi(1) by (simp add: annotate_crashes_def with_finfo_def Let_def)
    ultimately show ?thesis using \<open>C' = C\<close> by simp
  qed
qed

lemma connection_shows:
  assumes "shows_fault n g (D, C, text)" and "length c = n"
  shows "\<exists>g'. AnnotateConnection t c g = Ret g' \<and> shows_fault n g' (display n (Connection c) (D, C, text))"
proof -
  obtain fi where fi: "finfo g = Some fi" "fi_shows n fi D C"
    using assms(1) by (auto simp: shows_fault_def)
  let ?D = "{i. i < length c \<and> \<not> c ! i}"
  have c: "map (\<lambda>i. i \<notin> ?D) [0..<n] = c" using assms(2) by (intro nth_equalityI) auto
  have fc: "fi_connected fi = map (\<lambda>i. i \<notin> D) [0..<n]" "D \<subseteq> {..<n}" using fi(2) by (simp_all add: fi_shows_def)
  have eq: "fi_connected fi = c \<longleftrightarrow> ?D = D"
  proof
    assume "fi_connected fi = c"
    then have ci: "c ! i = map (\<lambda>i. i \<notin> D) [0..<n] ! i" for i using fc(1) by simp
    have "i \<notin> D \<longleftrightarrow> c ! i" if "i < n" for i using that unfolding ci by simp
    then show "?D = D" using fc(2) assms(2) by blast
  next
    assume "?D = D"
    with c show "fi_connected fi = c" unfolding fc(1) by blast
  qed
  have "go_copy (fi_connected fi) c = c" using fi(2) assms(2) by (simp add: go_copy_def fi_shows_def)
  moreover have "fi_shows n (fi\<lparr>fi_connected := c\<rparr>) ?D C"
    using fi(2) assms(2) unfolding fi_shows_def c by auto
  ultimately show ?thesis
    using annotateFault_shows [of n "fi\<lparr>fi_connected := c\<rparr>" ?D C t g] fi(1) eq assms(1)
    by (auto simp: AnnotateConnection_def with_finfo_def Let_def)
qed

lemma fault_step_shows:
  assumes "shows_fault n g d" and "op_ok n oper"
  shows "\<exists>g'. fault_step t oper g = Ret g' \<and> shows_fault n g' (display n oper d)"
proof -
  obtain D C str where d: "d = (D, C, str)" by (cases d)
  with assms(1) obtain fi where fi: "finfo g = Some fi" "fi_shows n fi D C" "shows_fault n g (D, C, str)"
    by (auto simp: shows_fault_def)
  have all: "\<forall>i\<in>set (map int [0..<n]). 0 \<le> i \<and> i < int n" "nat ` set (map int [0..<n]) = {..<n}" "C \<union> {..<n} = {..<n}" "C - {..<n} = {}"
    using fi(2) by (auto simp: fi_shows_def image_image)
  show ?thesis
  proof (cases oper)
    case (Connection c)
    then show ?thesis using connection_shows [OF fi(3)] assms(2) d by simp
  next
    case (TwoPartitions p1 p2)
    then show ?thesis
      using fi d by (auto simp: AnnotateTwoPartitions_def shows_fault_def interface_defs update_conv' split: option.splits)
  next
    case ClearFailure
    have "fi_shows n (fi\<lparr>fi_crashed := map (\<lambda>c. False) (fi_crashed fi), fi_connected := map (\<lambda>c. True) (fi_connected fi)\<rparr>) {} {}"
      using fi(2) by (auto simp: fi_shows_def)
    then show ?thesis
      using fi d ClearFailure by (auto simp: AnnotateClearFailure_def with_finfo_def shows_fault_def interface_defs delete_conv')
  next
    case (Shut "is")
    then show ?thesis using crashes_show [OF fi(3), of "is" True t, unfolded if_True if_False] assms(2) d by (auto simp: AnnotateShutdown_def Let_def)
  next
    case (Back "is")
    then show ?thesis using crashes_show [OF fi(3), of "is" False t, unfolded if_True if_False] assms(2) d by (auto simp: AnnotateRestart_def Let_def)
  next
    case ShutAll
    then show ?thesis
      using crashes_show [OF fi(3) all(1), of True t, unfolded if_True if_False all] fi d
      by (auto simp: Let_def AnnotateShutdownAll_def AnnotateShutdown_def with_finfo_def fi_shows_def)
  next
    case BackAll
    then show ?thesis
      using crashes_show [OF fi(3) all(1), of False t, unfolded if_True if_False all] fi d
      by (auto simp: Let_def AnnotateRestartAll_def AnnotateRestart_def with_finfo_def fi_shows_def)
  qed
qed

lemma AnnotateTest_shows: "shows_fault n (AnnotateTest t desp n g) ({}, {}, None)"
  by (simp add: AnnotateTest_def AnnotateInfo_def AnnotatePointColor_def on_annotation_def clear_def
      annotatePointColor_def shows_fault_def mkFrameworkInfo_def fi_shows_def map_replicate_const Let_def)

lemma fault_run_shows:
  "shows_fault n g d \<Longrightarrow> \<forall>(t, oper)\<in>set ops. op_ok n oper \<Longrightarrow>
   \<exists>g'. fault_run ops g = Ret g' \<and> shows_fault n g' (displayed n (map snd ops) d)"
proof (induction ops arbitrary: g d)
  case (Cons p ops)
  obtain t oper where p: "p = (t, oper)" by (cases p)
  from Cons.prems obtain g1 where "fault_step t oper g = Ret g1" "shows_fault n g1 (display n oper d)"
    using fault_step_shows [of n g d oper t] p by auto
  with Cons.IH [of g1 "display n oper d"] Cons.prems p show ?case by auto
qed simp

section \<open>Properties\<close>

text \<open>
  C31: the fault annotation tells the truth. After \<open>AnnotateTest\<close> for \<open>n\<close> servers and any sequence of
  connection changes, partitions into two named sides, shutdowns, restarts and clearings that name servers of the test, nothing panics;
  the framework's record marks as disconnected and crashed exactly the servers that the sequence leaves so; and
  the ongoing fault annotation is the one of the last operation that changed anything: the two sides if
  that was \<open>AnnotateTwoPartitions\<close>, else the text that lists every server with its present state, or none when there is no
  fault. So in a sequence without \<open>AnnotateTwoPartitions\<close> it always describes the present.
\<close>

theorem fault_annotation_current:
  assumes "\<forall>(t, oper) \<in> set ops. op_ok n oper"
  defines "d \<equiv> displayed n (map snd ops) ({}, {}, None)"
  shows "\<exists>g' fi. fault_run ops (AnnotateTest t desp n g) = Ret g' \<and> finfo g' = Some fi \<and>
    fi_connected fi = map (\<lambda>i. i \<notin> fst d) [0..<n] \<and> fi_crashed fi = map (\<lambda>i. i \<in> fst (snd d)) [0..<n] \<and>
    map_option ct_desp (map_of (continuous (annotation g')) TAG_PARTITION) = snd (snd d) \<and>
    ((\<forall>p1 p2. TwoPartitions p1 p2 \<notin> snd ` set ops) \<longrightarrow> snd (snd d) = fault_description n (fst d) (fst (snd d)))"
proof -
  obtain D C str where d: "d = (D, C, str)" by (cases d)
  have "displayed n (map snd ops) ({}, {}, None) = (D, C, str)" using d by (simp add: d_def)
  from fault_run_shows [OF AnnotateTest_shows assms(1), unfolded this] obtain g' where
    g': "fault_run ops (AnnotateTest t desp n g) = Ret g'" "shows_fault n g' (D, C, str)" by blast
  moreover have "str = fault_description n D C" if "\<forall>p1 p2. TwoPartitions p1 p2 \<notin> snd ` set ops"
    using displayed_current [of n "map snd ops" "{}" "{}" D C str] d that by (simp add: d_def fault_description_def)
  ultimately show ?thesis unfolding d by (auto simp: shows_fault_def fi_shows_def)
qed

theorem fault_annotation_current_witness:
  "\<exists>g' fi. fault_run [(5, Connection [True, False, True]), (6, Shut [2]), (7, Back [0])]
       (AnnotateTest 4 ''t'' 3 \<lparr>annotation = mkAnnotation, finfo = None\<rparr>) = Ret g' \<and> finfo g' = Some fi \<and>
     fi_crashed fi = [False, False, True] \<and>
     map_option ct_desp (map_of (continuous (annotation g')) TAG_PARTITION) = Some ''partition = [1] [0] / crash = [2]''"
proof -
  let ?ops = "[(5 :: int, Connection [True, False, True]), (6, Shut [2]), (7, Back [0])]"
  have ok: "\<forall>(t, oper) \<in> set ?ops. op_ok 3 oper" by simp
  have three: "[0..<3] = [0, 1, 2 :: nat]" by (simp add: upt_rec)
  have D: "{i. i < length [True, False, True] \<and> \<not> [True, False, True] ! i} = {1}"
    by (auto simp: less_Suc_eq nth_Cons' split: if_splits)
  have all: "\<not> {..<3} \<subseteq> {2, Suc 0}" by (auto dest: subsetD [of _ _ 0])
  have dig: "Itoa 0 = ''0''" "Itoa 1 = ''1''" "Itoa 2 = ''2''" by code_simp+
  have d: "displayed 3 (map snd ?ops) ({}, {}, None) = ({1}, {2}, Some ''partition = [1] [0] / crash = [2]'')"
    unfolding list.map snd_conv displayed.simps display.simps disconnects.simps crashes.simps D
    using all by (simp add: Let_def fault_description_def servers_in_def three show_ints_def dig)
  from fault_annotation_current [OF ok, of 4 "''t''" "\<lparr>annotation = mkAnnotation, finfo = None\<rparr>"]
  show ?thesis unfolding d three by auto
qed

text \<open>
  Ending an annotation that was never begun adds an empty one that starts at time 0, and after a check
  that has begun and ended, the next end without a begin is again drawn as an interval from the old
  begin.
\<close>

lemma end_without_begin:
  "annotations (annotateContinuousEnd 9 TAG_PARTITION mkAnnotation) =
     [\<lparr>Tag = TAG_PARTITION, Start_time = 0, End_time = 9, Description = [], Details = [], BackgroundColor = []\<rparr>]"
  by (simp add: annotateContinuousEnd_def mkAnnotation_def concretize_def zero_Continuous_def)

lemma checker_begin_kept: "AnnotateCheckerEnd t desp details color g = Ret g' \<Longrightarrow> finfo g' = finfo g"
  by (auto simp: AnnotateCheckerEnd_def with_finfo_def AnnotatePointColor_def AnnotateIntervalColor_def
      on_annotation_def Let_def split: option.splits if_splits)

end
