(* ===== verification/KvChecked.thy ===== *)
theory KvChecked
  imports KvNet KvTest Annotation
begin

text \<open>
  The check of the recorded operations (\<open>checkPorcupine\<close> of \<open>kvtest1/porcupine.go\<close>). The checker itself is the library
  \<open>porcupine\<close> and an argument; the model it is given is the one of \<open>models1/kv.go\<close>. A check that finds the
  history illegal fails the test; with the clerk of \<open>kvsrv1\<close> that does not happen. The file with the visualisation
  is opened and written through \<open>opened\<close> and \<open>visualized\<close>, which say whether that works.
\<close>

datatype CheckResult = Unknown | Legal | Illegal

text \<open>The files written so far, with the annotations in them.\<close>

type_synonym vis_files = "(string \<times> porcupine_Annotation list) list"

definition write_vis ::
  "(string \<Rightarrow> bool) \<Rightarrow> bool \<Rightarrow> int \<Rightarrow> int \<Rightarrow> bool \<Rightarrow> string \<Rightarrow> string \<Rightarrow> globals \<times> vis_files \<Rightarrow> globals \<times> vis_files" where
  "write_vis opened visualized t t' vis fpath fin st =
     (case st of (g, files) \<Rightarrow>
        if \<not> opened fpath then (g, files)
        else if vis
        then (case FinalizeAnnotations t t' fin g of (as, g) \<Rightarrow>
                (g, if visualized then files @ [(fpath, as)] else files))
        else (g, files))"

definition checkPorcupine ::
  "(Operation list \<Rightarrow> CheckResult) \<Rightarrow> (string \<Rightarrow> bool) \<Rightarrow> bool \<Rightarrow> int \<Rightarrow> int \<Rightarrow> string \<Rightarrow> string \<Rightarrow> Operation list \<Rightarrow> globals \<times> vis_files \<Rightarrow>
   unit go \<times> globals \<times> vis_files" where
  "checkPorcupine check opened visualized t t' vis fpath opLog st =
     (let res = check (OpLog_Read opLog)
      in if res = Illegal
         then (Fatal, write_vis opened visualized t t' (vis \<noteq> ''never'') fpath ''test failed'' st)
         else if vis = ''always'' \<and> GetAnnotationFinalized (fst st)
         then (Ret (), write_vis opened visualized t t' True fpath ''test passed'' st)
         else (Ret (), st))"

text \<open>\<open>CheckPorcupine\<close> on the log of the test; a nil log would be a nil pointer.\<close>

definition CheckPorcupineT ::
  "(Operation list \<Rightarrow> CheckResult) \<Rightarrow> (string \<Rightarrow> bool) \<Rightarrow> bool \<Rightarrow> int \<Rightarrow> int \<Rightarrow> string \<Rightarrow> string \<Rightarrow> 'w kv_test \<Rightarrow> globals \<times> vis_files \<Rightarrow>
   unit go \<times> globals \<times> vis_files" where
  "CheckPorcupineT check opened visualized t t' vis fpath ts st =
     (case kt_oplog ts of
        None \<Rightarrow> (Panic, st)
      | Some opLog \<Rightarrow> checkPorcupine check opened visualized t t' vis fpath opLog st)"

text \<open>What the documentation of the checker says of its verdicts: both are right, and a search that ran out of time is \<open>Unknown\<close>.\<close>

definition checker_right :: "(Operation list \<Rightarrow> CheckResult) \<Rightarrow> bool" where
  "checker_right check \<longleftrightarrow> (\<forall>h. (check h = Illegal \<longrightarrow> \<not> linearizable h) \<and> (check h = Legal \<longrightarrow> linearizable h))"

lemma checkPorcupine_fails: "fst (checkPorcupine check opened visualized t t' vis fpath opLog st) = Fatal \<longleftrightarrow> check opLog = Illegal"
  by (simp add: checkPorcupine_def OpLog_Read_def Let_def)

text \<open>
  A check that passes writes no file as long as the annotations are not finalized, whatever \<open>VIS_ENABLE\<close> is; so the
  file that \<open>cleanup\<close> writes later, without the operations, is the only one.
\<close>

lemma passed_not_written:
  assumes "check opLog \<noteq> Illegal" and "\<not> GetAnnotationFinalized g"
  shows "checkPorcupine check opened visualized t t' vis fpath opLog (g, files) = (Ret (), g, files)"
  using assms by (simp add: checkPorcupine_def OpLog_Read_def Let_def)

lemma failed_written:
  assumes "check opLog = Illegal" and "opened fpath" and visualized and "vis \<noteq> ''never''"
  shows "\<exists>as g'. checkPorcupine check opened visualized t t' vis fpath opLog (g, files) = (Fatal, g', files @ [(fpath, as)]) \<and>
    GetAnnotationFinalized g'"
  using assms
  by (simp add: checkPorcupine_def OpLog_Read_def write_vis_def FinalizeAnnotations_def GetAnnotationFinalized_def isFinalized_def
      finalize_def)

text \<open>The model has no step for a put that is answered \<open>ErrNoKey\<close>.\<close>

lemma model_accepts_each: "model_accepts st ops \<Longrightarrow> oper \<in> set ops \<Longrightarrow> \<exists>st. fst (KvModel_Step st (op_Input oper) (op_Output oper))"
  by (induction st ops rule: model_accepts.induct) (auto split: prod.splits option.splits, metis fst_conv)

lemma ErrNoKey_not_linearizable:
  assumes "oper \<in> set h" and "in_Op (op_Input oper) = 1" and "out_Err (op_Output oper) = ''ErrNoKey''"
  shows "\<not> linearizable h"
proof
  assume "linearizable h"
  then obtain ls where ls: "mset ls = mset h" "model_accepts KvModel_Init (for_key (in_Key (op_Input oper)) ls)"
    unfolding linearizable_def by blast
  have "oper \<in> set ls" using assms(1) ls(1) by (metis set_mset_mset)
  then have "oper \<in> set (for_key (in_Key (op_Input oper)) ls)" by (simp add: for_key_def)
  from model_accepts_each [OF ls(2) this] assms(2,3) show False by (auto simp: KvModel_Step_def split: if_splits)
qed

section \<open>Properties\<close>



end
