(* ===== verification/Raft.thy ===== *)
theory Raft
  imports Persister
begin

text \<open>
  A single Raft peer, \<open>raft1/raft.go\<close>: its record, the two RPC handlers, the client interface
  (\<open>Start\<close>, \<open>GetState\<close>, \<open>Kill\<close>, \<open>Snapshot\<close>) and the critical sections of the goroutines of \<open>ticker\<close>
  and \<open>requestVotes\<close>. Every definition that changes the peer is one critical section of \<open>rf.mu\<close>, so
  each is one atomic step; the cluster of such peers is in \<open>RaftCluster\<close>. A \<open>time.Time\<close> is a number
  of nanoseconds, the clock reading being an argument; \<open>interface{}\<close> is a type variable with
  \<open>None\<close> for nil. Terms, indexes and ids are mathematical integers: they start near zero and grow
  by one at a time, so a 64-bit \<open>int\<close> does not wrap in any execution of feasible length.
\<close>

section \<open>The peer\<close>

datatype State = Leader | Candidate | Follower

record 'c LogEntry =
  le_Term :: int
  le_Command :: "'c option"

record 'c Raft =
  peers :: "string list"
  persister :: Persister
  me :: int
  dead :: int
  state :: State
  currentTerm :: int
  votedFor :: int
  logs :: "(int, 'c LogEntry) gomap"
  commitIndex :: int
  lastApplied :: int
  nextIndex :: "(int, int) gomap"
  matchIndex :: "(int, int) gomap"
  lastReceivedHeartbeat :: int

record RequestVoteArgs =
  rv_Term :: int
  rv_CandidateId :: int
  rv_LastLogIndex :: int
  rv_LastLogTerm :: int

record RequestVoteReply =
  rvr_Term :: int
  rvr_VoteGranted :: bool

record 'c AppendEntriesArgs =
  ae_Term :: int
  ae_LeaderId :: int
  ae_PrevLogIndex :: int
  ae_PrevLogTerm :: int
  ae_Entries :: "'c LogEntry list"
  ae_LeaderCommit :: int

record AppendEntriesReply =
  aer_Term :: int
  aer_Success :: bool

section \<open>State, persistence, snapshots\<close>

definition GetState :: "'c Raft \<Rightarrow> int \<times> bool" where
  "GetState rf = (currentTerm rf, state rf = Leader)"

text \<open>The body of \<open>persist\<close> is a comment, and \<open>readPersist\<close> does nothing with the data either.\<close>

definition persist :: "'c Raft \<Rightarrow> 'c Raft" where
  "persist rf = rf"

definition readPersist :: "8 word list \<Rightarrow> 'c Raft \<Rightarrow> 'c Raft" where
  "readPersist bytes rf = (if bytes = [] \<or> length bytes < 1 then rf else rf)"

definition PersistBytes :: "'c Raft \<Rightarrow> int" where
  "PersistBytes rf = RaftStateSize (persister rf)"

definition Snapshot :: "int \<Rightarrow> 8 word list \<Rightarrow> 'c Raft \<Rightarrow> 'c Raft" where
  "Snapshot index bytes rf = rf"

section \<open>RequestVote\<close>

definition min_int :: "int \<Rightarrow> int \<Rightarrow> int" where
  "min_int a b = (if a < b then a else b)"

text \<open>The last entry as the code finds it: \<open>len(logs)\<close>, and the term stored there or 0.\<close>

definition lastLog :: "'c Raft \<Rightarrow> int \<times> int" where
  "lastLog rf =
     (let lastEntryIndex = int (length (logs rf))
      in (lastEntryIndex,
          if lastEntryIndex > 0
          then case map_of (logs rf) lastEntryIndex of Some entry \<Rightarrow> le_Term entry | None \<Rightarrow> 0
          else 0))"

definition isLogUpToDate :: "'c Raft \<Rightarrow> int \<Rightarrow> int \<Rightarrow> bool" where
  "isLogUpToDate rf lastLogIndex lastLogTerm =
     (case lastLog rf of (lastEntryIndex, lastEntryTerm) \<Rightarrow>
        if lastLogTerm > lastEntryTerm then True
        else if lastLogTerm = lastEntryTerm \<and> lastLogIndex \<ge> lastEntryIndex then True
        else False)"

text \<open>The three assignments every handler makes when it learns of a later term.\<close>

definition step_down :: "int \<Rightarrow> 'c Raft \<Rightarrow> 'c Raft" where
  "step_down T rf = rf\<lparr>currentTerm := T, state := Follower, votedFor := -1\<rparr>"

definition RequestVote :: "RequestVoteArgs \<Rightarrow> 'c Raft \<Rightarrow> 'c Raft \<times> RequestVoteReply" where
  "RequestVote args rf =
     (if rv_Term args < currentTerm rf
      then (rf, \<lparr>rvr_Term = currentTerm rf, rvr_VoteGranted = False\<rparr>)
      else let (rf, replyTerm) =
                 (if rv_Term args > currentTerm rf
                  then (step_down (rv_Term args) rf, rv_Term args) else (rf, currentTerm rf));
               canVote = ((votedFor rf = -1 \<or> votedFor rf = rv_CandidateId args) \<and>
                          isLogUpToDate rf (rv_LastLogIndex args) (rv_LastLogTerm args))
           in if canVote
              then (rf\<lparr>votedFor := rv_CandidateId args\<rparr>, \<lparr>rvr_Term = replyTerm, rvr_VoteGranted = True\<rparr>)
              else (rf, \<lparr>rvr_Term = replyTerm, rvr_VoteGranted = False\<rparr>))"

section \<open>AppendEntries\<close>

text \<open>The inner loop: delete from an index on until an index is missing.\<close>

lemma length_delete_less: "map_of m j \<noteq> None \<Longrightarrow> length (AList.delete j m) < length m"
proof (induction m)
  case (Cons e m)
  then show ?case
    using length_delete_le [of j m] by (auto split: if_splits)
qed simp

function delete_from :: "int \<Rightarrow> (int, 'e) gomap \<Rightarrow> (int, 'e) gomap" where
  "delete_from j m =
     (if map_of m j \<noteq> None then delete_from (j + 1) (AList.delete j m) else m)"
  by auto

termination
  by (relation "measure (\<lambda>(j, m). length m)") (simp_all add: length_delete_less)

declare delete_from.simps [simp del]

definition append_entry :: "int \<Rightarrow> 'c LogEntry \<Rightarrow> (int, 'c LogEntry) gomap \<Rightarrow> (int, 'c LogEntry) gomap" where
  "append_entry index entry m =
     (let m = (case map_of m index of
                 Some existingEntry \<Rightarrow>
                   if le_Term existingEntry \<noteq> le_Term entry then delete_from index m else m
               | None \<Rightarrow> m)
      in AList.update index \<lparr>le_Term = le_Term entry, le_Command = le_Command entry\<rparr> m)"

fun append_entries :: "int \<Rightarrow> 'c LogEntry list \<Rightarrow> (int, 'c LogEntry) gomap \<Rightarrow> (int, 'c LogEntry) gomap" where
  "append_entries index [] m = m"
| "append_entries index (e # es) m = append_entries (index + 1) es (append_entry index e m)"

definition AppendEntries ::
  "int \<Rightarrow> 'c AppendEntriesArgs \<Rightarrow> 'c Raft \<Rightarrow> 'c Raft \<times> AppendEntriesReply" where
  "AppendEntries now args rf =
     (if currentTerm rf > ae_Term args
      then (rf, \<lparr>aer_Term = currentTerm rf, aer_Success = False\<rparr>)
      else
        let (rf, replyTerm) =
              (if ae_Term args > currentTerm rf
               then (step_down (ae_Term args) rf, ae_Term args) else (rf, currentTerm rf));
            rf = rf\<lparr>lastReceivedHeartbeat := now\<rparr>
        in if ae_PrevLogIndex args > 0 \<and>
              (case map_of (logs rf) (ae_PrevLogIndex args) of
                 None \<Rightarrow> True
               | Some existingEntry \<Rightarrow> le_Term existingEntry \<noteq> ae_PrevLogTerm args)
           then (rf, \<lparr>aer_Term = replyTerm, aer_Success = False\<rparr>)
           else
             let rf = rf\<lparr>logs := append_entries (ae_PrevLogIndex args + 1) (ae_Entries args) (logs rf)\<rparr>;
                 rf = (if ae_LeaderCommit args > commitIndex rf
                       then let lastNewIndex = ae_PrevLogIndex args + int (length (ae_Entries args))
                            in rf\<lparr>commitIndex := min_int (ae_LeaderCommit args) lastNewIndex\<rparr>
                       else rf)
             in (rf, \<lparr>aer_Term = replyTerm, aer_Success = True\<rparr>))"

section \<open>The client interface\<close>

definition Start :: "'c option \<Rightarrow> 'c Raft \<Rightarrow> 'c Raft \<times> int \<times> int \<times> bool" where
  "Start command rf =
     (if state rf \<noteq> Leader then (rf, -1, -1, False)
      else let index = int (length (logs rf)) + 1;
               term = currentTerm rf;
               newEntry = \<lparr>le_Term = term, le_Command = command\<rparr>
           in (persist (rf\<lparr>logs := AList.update index newEntry (logs rf)\<rparr>), index, term, True))"

definition Kill :: "'c Raft \<Rightarrow> 'c Raft" where
  "Kill rf = rf\<lparr>dead := 1\<rparr>"

definition killed :: "'c Raft \<Rightarrow> bool" where
  "killed rf \<longleftrightarrow> dead rf = 1"

section \<open>The goroutines\<close>

text \<open>
  The first part of an iteration of \<open>ticker\<close>, with its random timeout. \<open>lastElectionTime\<close> is the
  goroutine's own variable; the clock is read once for \<open>elapsed\<close> and once when an election starts. The
  result has the arguments of the call of \<open>requestVotes\<close>, which runs without the lock.
\<close>

definition millisecond :: int where
  "millisecond = 1000000"

definition electionTimeout :: "nat \<Rightarrow> int" where
  "electionTimeout r = (300 + int (r mod 300)) * millisecond"

definition ticker_election ::
  "int \<Rightarrow> int \<Rightarrow> nat \<Rightarrow> int \<Rightarrow> 'c Raft \<Rightarrow> 'c Raft \<times> int \<times> (int \<times> int \<times> int) option" where
  "ticker_election now now' r lastElectionTime rf =
     (let elapsed = now - lastElectionTime
      in if state rf \<noteq> Leader \<and> elapsed \<ge> electionTimeout r
         then let rf = rf\<lparr>state := Candidate, currentTerm := currentTerm rf + 1, votedFor := me rf\<rparr>;
                  rf = persist rf;
                  (lastLogIndex, lastLogTerm) = lastLog rf
              in (rf, now', Some (currentTerm rf, lastLogIndex, lastLogTerm))
         else (rf, lastElectionTime, None))"

text \<open>The calls that \<open>requestVotes\<close> makes, one goroutine for each other peer.\<close>

definition other_peers :: "'c Raft \<Rightarrow> int list" where
  "other_peers rf = [i \<leftarrow> map int [0..<length (peers rf)]. i \<noteq> me rf]"

definition requestVotes :: "int \<times> int \<times> int \<Rightarrow> 'c Raft \<Rightarrow> (int \<times> RequestVoteArgs) list" where
  "requestVotes a rf =
     (case a of (electionTerm, lastLogIndex, lastLogTerm) \<Rightarrow>
        let args = \<lparr>rv_Term = electionTerm, rv_CandidateId = me rf,
                    rv_LastLogIndex = lastLogIndex, rv_LastLogTerm = lastLogTerm\<rparr>
        in map (\<lambda>i. (i, args)) (other_peers rf))"

text \<open>
  What a goroutine of \<open>requestVotes\<close> does with a reply. The counter \<open>votesReceived\<close> is a variable
  of that call of \<open>requestVotes\<close>, shared by its goroutines.
\<close>

definition become_leader :: "'c Raft \<Rightarrow> 'c Raft" where
  "become_leader rf =
     foldl (\<lambda>rf j. rf\<lparr>nextIndex := AList.update j (int (length (logs rf)) + 1) (nextIndex rf),
                      matchIndex := AList.update j 0 (matchIndex rf)\<rparr>)
       (rf\<lparr>state := Leader\<rparr>) (other_peers rf)"

definition requestVotes_reply ::
  "RequestVoteArgs \<Rightarrow> RequestVoteReply \<Rightarrow> 'c Raft \<Rightarrow> int \<Rightarrow> 'c Raft \<times> int" where
  "requestVotes_reply args reply rf votesReceived =
     (if state rf \<noteq> Candidate \<or> currentTerm rf \<noteq> rv_Term args then (rf, votesReceived)
      else if rvr_Term reply > currentTerm rf
           then (persist (step_down (rvr_Term reply) rf), votesReceived)
      else if rvr_VoteGranted reply
           then let votesReceived = votesReceived + 1
                in if votesReceived > int (length (peers rf)) div 2
                   then (become_leader rf, votesReceived) else (rf, votesReceived)
      else (rf, votesReceived))"

text \<open>The second part of an iteration of \<open>ticker\<close>: a leader's heartbeats.\<close>

definition ticker_heartbeats :: "int \<Rightarrow> int \<Rightarrow> 'c Raft \<Rightarrow> (int \<times> 'c AppendEntriesArgs) list \<times> int" where
  "ticker_heartbeats now lastElectionTime rf =
     (if state rf = Leader
      then let args = \<lparr>ae_Term = currentTerm rf, ae_LeaderId = me rf, ae_PrevLogIndex = 0,
                       ae_PrevLogTerm = 0, ae_Entries = [], ae_LeaderCommit = commitIndex rf\<rparr>
           in (map (\<lambda>i. (i, args)) (other_peers rf), now)
      else ([], lastElectionTime))"

definition heartbeat_reply :: "AppendEntriesReply \<Rightarrow> 'c Raft \<Rightarrow> 'c Raft" where
  "heartbeat_reply reply rf =
     (if aer_Term reply > currentTerm rf then persist (step_down (aer_Term reply) rf) else rf)"

definition resetElectionTimer :: "int \<Rightarrow> 'c Raft \<Rightarrow> 'c Raft" where
  "resetElectionTimer now rf = rf\<lparr>lastReceivedHeartbeat := now\<rparr>"

definition Make :: "int \<Rightarrow> string list \<Rightarrow> int \<Rightarrow> Persister \<Rightarrow> 'c Raft" where
  "Make now ends i ps =
     readPersist (ReadRaftState ps)
       \<lparr>peers = ends, persister = ps, me = i, dead = 0, state = Follower, currentTerm = 0,
        votedFor = -1, logs = [(0, \<lparr>le_Term = 0, le_Command = None\<rparr>)], commitIndex = 0,
        lastApplied = 0, nextIndex = [], matchIndex = [], lastReceivedHeartbeat = now\<rparr>"

section \<open>What the handlers keep\<close>

text \<open>
  Every way the peer's state changes, as an event: the RPC handlers, the goroutines' critical
  sections, the client calls. The last argument of \<open>EvVoteReply\<close> is the vote counter of the
  goroutine's election.
\<close>

datatype 'c raft_event =
    EvRequestVote RequestVoteArgs
  | EvAppendEntries int "'c AppendEntriesArgs"
  | EvTick int int nat int
  | EvVoteReply RequestVoteArgs RequestVoteReply int
  | EvHeartbeatReply AppendEntriesReply
  | EvStart "'c option"
  | EvSnapshot int "8 word list"
  | EvReset int
  | EvKill

fun raft_handle :: "'c raft_event \<Rightarrow> 'c Raft \<Rightarrow> 'c Raft" where
  "raft_handle (EvRequestVote args) rf = fst (RequestVote args rf)"
| "raft_handle (EvAppendEntries now args) rf = fst (AppendEntries now args rf)"
| "raft_handle (EvTick now now' r lastElectionTime) rf = fst (ticker_election now now' r lastElectionTime rf)"
| "raft_handle (EvVoteReply args reply votes) rf = fst (requestVotes_reply args reply rf votes)"
| "raft_handle (EvHeartbeatReply reply) rf = heartbeat_reply reply rf"
| "raft_handle (EvStart command) rf = fst (Start command rf)"
| "raft_handle (EvSnapshot index bytes) rf = Snapshot index bytes rf"
| "raft_handle (EvReset now) rf = resetElectionTimer now rf"
| "raft_handle EvKill rf = Kill rf"

lemmas raft_defs = RequestVote_def AppendEntries_def ticker_election_def requestVotes_reply_def
  heartbeat_reply_def Start_def Snapshot_def resetElectionTimer_def Kill_def persist_def
  step_down_def Let_def

lemma become_leader_only:
  "\<exists>ni mi. become_leader rf = rf\<lparr>state := Leader, nextIndex := ni, matchIndex := mi\<rparr>"
proof -
  let ?step = "\<lambda>rf j. rf\<lparr>nextIndex := AList.update j (int (length (logs rf)) + 1) (nextIndex rf),
    matchIndex := AList.update j 0 (matchIndex rf)\<rparr>"
  have "\<exists>ni mi. foldl ?step q js = q\<lparr>nextIndex := ni, matchIndex := mi\<rparr>" for q :: "'c Raft" and js
  proof (induction js rule: rev_induct)
    case Nil
    show ?case by (intro exI [of _ "nextIndex q"] exI [of _ "matchIndex q"]) simp
  next
    case (snoc j js)
    then obtain ni mi where "foldl ?step q js = q\<lparr>nextIndex := ni, matchIndex := mi\<rparr>" by blast
    then show ?case
      by (intro exI [of _ "AList.update j (int (length (logs q)) + 1) ni"] exI [of _ "AList.update j 0 mi"])
        simp
  qed
  from this [of "rf\<lparr>state := Leader\<rparr>" "other_peers rf"] show ?thesis
    by (simp add: become_leader_def)
qed

lemma become_leader_simps [simp]:
  "currentTerm (become_leader rf) = currentTerm rf" "votedFor (become_leader rf) = votedFor rf"
  "state (become_leader rf) = Leader" "me (become_leader rf) = me rf"
  "peers (become_leader rf) = peers rf" "logs (become_leader rf) = logs rf"
  "commitIndex (become_leader rf) = commitIndex rf" "lastApplied (become_leader rf) = lastApplied rf"
  using become_leader_only [of rf] by auto

text \<open>
  The contract a candidate relies on when it counts votes: terms do not go back, and a vote stays
  while the term does. It holds of single handlers and is lifted to sequences once, here.
\<close>

locale voter =
  fixes handle :: "'e \<Rightarrow> 's \<Rightarrow> 's"
    and trm vote :: "'s \<Rightarrow> int"
  assumes term_mono: "trm s \<le> trm (handle e s)"
    and vote_kept: "trm (handle e s) = trm s \<Longrightarrow> vote s \<noteq> -1 \<Longrightarrow> vote (handle e s) = vote s"
begin

lemma run_term_mono: "trm s \<le> trm (foldl (\<lambda>s e. handle e s) s es)"
proof (induction es arbitrary: s)
  case (Cons e es)
  from term_mono [of s e] Cons [of "handle e s"] show ?case by simp
qed simp

lemma run_vote_kept:
  "trm (foldl (\<lambda>s e. handle e s) s es) = trm s \<Longrightarrow> vote s \<noteq> -1 \<Longrightarrow>
   vote (foldl (\<lambda>s e. handle e s) s es) = vote s"
proof (induction es arbitrary: s)
  case (Cons e es)
  then have "trm (handle e s) = trm s"
    using term_mono [of s e] run_term_mono [of "handle e s" es] by simp
  with Cons show ?case
    using vote_kept [of e s] by simp
qed simp

end

interpretation rf: voter raft_handle currentTerm votedFor
proof unfold_locales
  fix s :: "'c Raft" and e
  show "currentTerm s \<le> currentTerm (raft_handle e s)"
    by (cases e) (auto simp: raft_defs split: prod.splits)
  show "currentTerm (raft_handle e s) = currentTerm s \<Longrightarrow> votedFor s \<noteq> -1 \<Longrightarrow>
    votedFor (raft_handle e s) = votedFor s"
    by (cases e) (auto simp: raft_defs split: prod.splits if_splits)
qed

lemma RequestVote_granted:
  assumes "RequestVote args rf = (rf', reply)" and "rvr_VoteGranted reply"
  shows "currentTerm rf' = rv_Term args" "votedFor rf' = rv_CandidateId args"
    "currentTerm rf \<le> rv_Term args" "rvr_Term reply = rv_Term args"
    "currentTerm rf = rv_Term args \<Longrightarrow> votedFor rf = -1 \<or> votedFor rf = rv_CandidateId args"
    "isLogUpToDate rf (rv_LastLogIndex args) (rv_LastLogTerm args)"
  using assms
  by (auto simp: RequestVote_def step_down_def Let_def isLogUpToDate_def lastLog_def split: if_splits)

section \<open>The log after AppendEntries\<close>

definition run_present :: "int \<Rightarrow> int \<Rightarrow> (int, 'e) gomap \<Rightarrow> bool" where
  "run_present j k m \<longleftrightarrow> j \<le> k \<and> (\<forall>i \<in> {j..k}. map_of m i \<noteq> None)"

lemma run_present_step:
  assumes "map_of m j \<noteq> None"
  shows "run_present j k m \<longleftrightarrow> k = j \<or> run_present (j + 1) k (AList.delete j m)"
proof -
  have "{j..k} = insert j {j + 1..k}" if "j \<le> k" using that by auto
  then show ?thesis
    using assms by (auto simp: run_present_def gm.get_del)
qed

lemma run_present_trans:
  "run_present j x m \<Longrightarrow> run_present x k m \<Longrightarrow> run_present j k m"
  by (fastforce simp: run_present_def)

lemma delete_from_get:
  "map_of (delete_from j m) k = (if run_present j k m then None else map_of m k)"
proof (induction j m rule: delete_from.induct)
  case (1 j m)
  show ?case
  proof (cases "map_of m j = None")
    case True
    then show ?thesis by (subst delete_from.simps) (force simp: run_present_def)
  next
    case False
    with 1 show ?thesis
      by (subst delete_from.simps) (auto simp: gm.get_del run_present_step)
  qed
qed

definition conflict :: "int \<Rightarrow> 'c LogEntry \<Rightarrow> (int, 'c LogEntry) gomap \<Rightarrow> bool" where
  "conflict index e m \<longleftrightarrow> (case map_of m index of Some x \<Rightarrow> le_Term x \<noteq> le_Term e | None \<Rightarrow> False)"

lemma append_entry_get:
  "map_of (append_entry index e m) k =
     (if k = index then Some e
      else if conflict index e m \<and> run_present index k m then None
      else map_of m k)"
  by (auto simp: append_entry_def Let_def gm.get_put delete_from_get conflict_def split: option.splits)

lemma append_entries_below: "k < index \<Longrightarrow> map_of (append_entries index es m) k = map_of m k"
  by (induction es arbitrary: index m) (simp_all add: append_entry_get run_present_def)

lemma append_entries_new:
  "i < length es \<Longrightarrow> map_of (append_entries index es m) (index + int i) = Some (es ! i)"
proof (induction es arbitrary: index m i)
  case (Cons e es)
  show ?case
  proof (cases i)
    case 0
    then show ?thesis by (simp add: append_entries_below append_entry_get)
  next
    case (Suc i')
    with Cons.prems Cons.IH [of i' "index + 1"] show ?thesis
      by (simp add: algebra_simps)
  qed
qed simp

lemma append_entries_keeps:
  assumes "\<And>i. i < length es \<Longrightarrow> \<not> conflict (index + int i) (es ! i) m"
    and "index + int (length es) \<le> k"
  shows "map_of (append_entries index es m) k = map_of m k"
  using assms
proof (induction es arbitrary: index m)
  case (Cons e es)
  have c: "\<not> conflict index e m" using Cons.prems(1) [of 0] by simp
  have "\<not> conflict (index + 1 + int i) (es ! i) (append_entry index e m)" if "i < length es" for i
    using Cons.prems(1) [of "Suc i"] that c
    by (simp add: conflict_def [of "1 + (index + int i)"] append_entry_get algebra_simps)
  then show ?case
    using Cons.IH [of "index + 1"] Cons.prems(2) c by (simp add: append_entry_get)
qed simp

lemma append_entries_None:
  "map_of m k = None \<Longrightarrow> index + int (length es) \<le> k \<Longrightarrow> map_of (append_entries index es m) k = None"
  by (induction es arbitrary: index m) (simp_all add: append_entry_get)

lemma append_entries_truncates:
  assumes "i < length es" and "conflict (index + int i) (es ! i) m" and "index + int (length es) \<le> k"
    and "run_present (index + int i) k m"
  shows "map_of (append_entries index es m) k = None"
  using assms
proof (induction es arbitrary: index m i)
  case (Cons e es)
  let ?m = "append_entry index e m"
  show ?case
  proof (cases "map_of ?m k = None")
    case True
    then show ?thesis using append_entries_None [of ?m k "index + 1" es] Cons.prems(3) by simp
  next
    case False
    have same: "map_of ?m x = map_of m x" if "x \<in> {index + int i..k}" "x \<noteq> index" for x
    proof (rule ccontr)
      assume "map_of ?m x \<noteq> map_of m x"
      then have "conflict index e m" "run_present index x m"
        using that by (auto simp: append_entry_get split: if_splits)
      moreover have "run_present x k m"
        using that Cons.prems(4) by (auto simp: run_present_def)
      ultimately have "map_of ?m k = None"
        using run_present_trans [of index x m k] Cons.prems(3) by (simp add: append_entry_get)
      with False show False by contradiction
    qed
    obtain i' where i: "i = Suc i'"
      using Cons.prems False by (cases i) (auto simp: append_entry_get split: if_splits)
    have "map_of (append_entries (index + 1) es ?m) k = None"
    proof (rule Cons.IH)
      show "conflict (index + 1 + int i') (es ! i') ?m"
        using Cons.prems(1,2,3) same [of "index + int i"] i by (simp add: conflict_def algebra_simps)
      show "run_present (index + 1 + int i') k ?m"
        using Cons.prems(4) same i by (auto simp: algebra_simps run_present_def)
    qed (use Cons.prems i in auto)
    then show ?thesis by simp
  qed
qed simp

lemma AppendEntries_success:
  assumes "AppendEntries now args rf = (rf', reply)"
  shows "aer_Success reply \<longleftrightarrow> currentTerm rf \<le> ae_Term args \<and>
      (ae_PrevLogIndex args \<le> 0 \<or>
       (\<exists>x. map_of (logs rf) (ae_PrevLogIndex args) = Some x \<and> le_Term x = ae_PrevLogTerm args))"
    and "aer_Success reply \<Longrightarrow> logs rf' = append_entries (ae_PrevLogIndex args + 1) (ae_Entries args) (logs rf)"
    and "\<not> aer_Success reply \<Longrightarrow> logs rf' = logs rf"
    and "aer_Success reply \<Longrightarrow> commitIndex rf' = (if ae_LeaderCommit args > commitIndex rf
      then min_int (ae_LeaderCommit args) (ae_PrevLogIndex args + int (length (ae_Entries args)))
      else commitIndex rf)"
  using assms
  by (auto simp: AppendEntries_def step_down_def Let_def split: if_splits option.splits)

text \<open>The logs that only \<open>Start\<close> has extended: the sentinel and entries at 2, 3, and so on.\<close>

definition log_shape :: "(int, 'e) gomap \<Rightarrow> bool" where
  "log_shape m \<longleftrightarrow> gm_wf m \<and> fst ` set m = insert 0 {2..int (length m)}"

lemma log_shape_next:
  assumes "log_shape m" and "m \<noteq> []" and "index = int (length m) + 1"
  shows "map_of m index = None" "log_shape (AList.update index e m)"
    "length (AList.update index e m) = length m + 1" "2 \<le> index"
proof -
  have keys: "fst ` set m = insert 0 {2..int (length m)}" and wf: "gm_wf m"
    using assms(1) by (auto simp: log_shape_def)
  have n: "1 \<le> int (length m)" using assms(2) by (cases m) auto
  with assms(3) show "2 \<le> index" by simp
  have "index \<notin> fst ` set m" using keys assms(3) n by auto
  then show None: "map_of m index = None" by (simp add: map_of_eq_None_iff)
  with wf show len: "length (AList.update index e m) = length m + 1" by (simp add: gm.len_put)
  have "fst ` set (AList.update index e m) = insert 0 {2..int (length m) + 1}"
    using keys n assms(3) by (auto simp: dom_update)
  then show "log_shape (AList.update index e m)"
    using len wf by (simp add: log_shape_def gm.wf_put add.commute)
qed

lemma log_shape_dom:
  assumes "log_shape m"
  shows "map_of m 1 = None" "m \<noteq> [] \<Longrightarrow> int (length m) + 1 = (if dom (map_of m) = {0} then 2 else Max (dom (map_of m)) + 1)"
proof -
  have keys: "dom (map_of m) = insert 0 {2..int (length m)}"
    using assms by (simp add: log_shape_def dom_map_of_conv_image_fst)
  then have "1 \<notin> dom (map_of m)" by simp
  then show "map_of m 1 = None" by (simp add: domIff)
  assume "m \<noteq> []"
  then have n: "1 \<le> int (length m)" by (cases m) auto
  show "int (length m) + 1 = (if dom (map_of m) = {0} then 2 else Max (dom (map_of m)) + 1)"
  proof (cases "int (length m) = 1")
    case True
    then show ?thesis by (simp add: keys)
  next
    case False
    then have "2 \<in> dom (map_of m)" using keys n by simp
    moreover have "Max (dom (map_of m)) = int (length m)"
      using n False by (intro Max_eqI) (auto simp: keys)
    ultimately show ?thesis by auto
  qed
qed

section \<open>Properties\<close>

text \<open>
  C3: while it runs, a peer votes for at most one candidate in a term, and never in an older one.
  Suppose a running peer grants the vote of request \<open>a\<close> (whose candidate is a peer, so not \<open>-1\<close>, the mark of
  an unused vote), then any sequence of events happens to it (further requests, appends, elections of its own,
  replies, client calls, \<open>Kill\<close>; a restart is not among them, since it forgets the vote), and then request \<open>b\<close>
  comes in whose term is not newer. If \<open>b\<close> is of an older term or of another candidate, the vote is
  refused, the reply carries a term that is at least that of \<open>a\<close>, and the request leaves the peer as it was.
\<close>

theorem votes_agree:
  fixes es :: "'c raft_event list"
  assumes "RequestVote a rf = (rfa, ra)" and "rvr_VoteGranted ra" and "rv_CandidateId a \<noteq> -1"
    and "rv_Term b \<le> rv_Term a" and "rv_Term b < rv_Term a \<or> rv_CandidateId b \<noteq> rv_CandidateId a"
  defines "rf1 \<equiv> foldl (\<lambda>s e. raft_handle e s) rfa es"
  shows "\<exists>rb. RequestVote b rf1 = (rf1, rb) \<and> \<not> rvr_VoteGranted rb \<and> rv_Term a \<le> rvr_Term rb"
proof -
  note ga = RequestVote_granted [OF assms(1,2)]
  have mono: "rv_Term a \<le> currentTerm rf1"
    using rf.run_term_mono [of rfa es] ga(1) by (simp add: rf1_def)
  have vote: "votedFor rf1 = rv_CandidateId a" if "currentTerm rf1 = rv_Term a"
    using rf.run_vote_kept [of rfa es] that ga(1,2) assms(3) by (simp add: rf1_def)
  show ?thesis
  proof (cases "rv_Term b < currentTerm rf1")
    case True
    then show ?thesis using mono by (simp add: RequestVote_def Let_def)
  next
    case False
    then have t: "currentTerm rf1 = rv_Term a" "rv_Term b = rv_Term a" using mono assms(4) by auto
    with vote assms(3,5) show ?thesis by (simp add: RequestVote_def Let_def)
  qed
qed

theorem votes_agree_witness:
  "let a = \<lparr>rv_Term = 1, rv_CandidateId = 1, rv_LastLogIndex = 1, rv_LastLogTerm = 0\<rparr>;
       rfa = fst (RequestVote a (Make 0 [''a'', ''b'', ''c''] 0 MakePersister :: nat Raft));
       rf1 = foldl (\<lambda>s e. raft_handle e s) rfa [EvReset 5, EvRequestVote a]
   in rvr_VoteGranted (snd (RequestVote a (Make 0 [''a'', ''b'', ''c''] 0 MakePersister :: nat Raft))) \<and>
      (\<exists>rb. RequestVote (a\<lparr>rv_CandidateId := 2\<rparr>) rf1 = (rf1, rb) \<and> \<not> rvr_VoteGranted rb \<and> 1 \<le> rvr_Term rb)"
proof -
  let ?a = "\<lparr>rv_Term = 1, rv_CandidateId = 1, rv_LastLogIndex = 1, rv_LastLogTerm = 0\<rparr>"
  let ?rf = "Make 0 [''a'', ''b'', ''c''] 0 MakePersister :: nat Raft"
  obtain rfa ra where r: "RequestVote ?a ?rf = (rfa, ra)" by force
  moreover have "rvr_VoteGranted (snd (RequestVote ?a ?rf))"
    by (simp add: RequestVote_def Make_def readPersist_def step_down_def isLogUpToDate_def lastLog_def)
  ultimately show ?thesis
    using votes_agree [OF r, of "?a\<lparr>rv_CandidateId := 2\<rparr>" "[EvReset 5, EvRequestVote ?a]"] by simp
qed

text \<open>
  C4: what a successful \<open>AppendEntries\<close> leaves in the log. It succeeds exactly when the request's
  term is not stale and the entry before the new ones matches. Then the new entries stand at their
  indexes, nothing up to \<open>PrevLogIndex\<close> changed, what lies beyond the new entries is kept when no new
  entry conflicts with an old one, and a whole run of old entries from a conflict up to an index
  beyond the new entries is gone at that index. A refused request leaves the log alone.
\<close>

theorem AppendEntries_log:
  assumes "AppendEntries now args rf = (rf', reply)"
  defines "first \<equiv> ae_PrevLogIndex args + 1" and "es \<equiv> ae_Entries args"
  shows "(aer_Success reply \<longleftrightarrow> currentTerm rf \<le> ae_Term args \<and>
       (ae_PrevLogIndex args \<le> 0 \<or>
        (\<exists>x. map_of (logs rf) (ae_PrevLogIndex args) = Some x \<and> le_Term x = ae_PrevLogTerm args))) \<and>
    (\<not> aer_Success reply \<longrightarrow> logs rf' = logs rf) \<and>
    (aer_Success reply \<longrightarrow>
       (\<forall>k < first. map_of (logs rf') k = map_of (logs rf) k) \<and>
       (\<forall>i < length es. map_of (logs rf') (first + int i) = Some (es ! i)) \<and>
       (\<forall>k \<ge> first + int (length es).
          ((\<forall>i < length es. \<not> conflict (first + int i) (es ! i) (logs rf)) \<longrightarrow>
             map_of (logs rf') k = map_of (logs rf) k) \<and>
          (\<forall>i < length es. conflict (first + int i) (es ! i) (logs rf) \<and>
             run_present (first + int i) k (logs rf) \<longrightarrow> map_of (logs rf') k = None)))"
proof -
  note AE = AppendEntries_success [OF assms(1)]
  have "logs rf' = append_entries first es (logs rf)" if "aer_Success reply"
    using AE(2) [OF that] by (simp add: first_def es_def)
  moreover have "(\<forall>k < first. map_of (append_entries first es m) k = map_of m k) \<and>
    (\<forall>i < length es. map_of (append_entries first es m) (first + int i) = Some (es ! i)) \<and>
    (\<forall>k \<ge> first + int (length es).
      ((\<forall>i < length es. \<not> conflict (first + int i) (es ! i) m) \<longrightarrow>
         map_of (append_entries first es m) k = map_of m k) \<and>
      (\<forall>i < length es. conflict (first + int i) (es ! i) m \<and> run_present (first + int i) k m \<longrightarrow>
         map_of (append_entries first es m) k = None))" for m
    using append_entries_truncates
    by (simp add: append_entries_below append_entries_new append_entries_keeps) blast
  ultimately show ?thesis
    unfolding AE(1) [symmetric] using AE(3) by simp
qed

theorem AppendEntries_log_witness:
  "map_of (logs (fst (AppendEntries 9 \<lparr>ae_Term = 2, ae_LeaderId = 1, ae_PrevLogIndex = 2, ae_PrevLogTerm = 1,
      ae_Entries = [\<lparr>le_Term = 2, le_Command = Some (7 :: nat)\<rparr>], ae_LeaderCommit = 0\<rparr>
    ((Make 0 [''a'', ''b''] 0 MakePersister)\<lparr>currentTerm := 1,
      logs := [(0, \<lparr>le_Term = 0, le_Command = None\<rparr>), (2, \<lparr>le_Term = 1, le_Command = Some 4\<rparr>),
               (3, \<lparr>le_Term = 1, le_Command = Some 5\<rparr>), (4, \<lparr>le_Term = 1, le_Command = Some 6\<rparr>)]\<rparr>)))) 4 = None"
  (is "map_of (logs (fst (AppendEntries 9 ?a ?rf))) 4 = None")
proof -
  have c: "conflict 3 (ae_Entries ?a ! 0) (logs ?rf)" by (simp add: conflict_def)
  have "{3..4} = {3, 4 :: int}" by auto
  then have r: "run_present 3 4 (logs ?rf)" by (simp add: run_present_def)
  obtain rf' reply where e: "AppendEntries 9 ?a ?rf = (rf', reply)" by force
  note AE = AppendEntries_log [OF e]
  from AE have "aer_Success reply" by (simp add: Make_def readPersist_def)
  with AE have "\<forall>k \<ge> 4. \<forall>i < 1. conflict (3 + int i) (ae_Entries ?a ! i) (logs ?rf) \<and>
      run_present (3 + int i) k (logs ?rf) \<longrightarrow> map_of (logs rf') k = None"
    by simp
  from this [rule_format, of 4 0] c r e show ?thesis by simp
qed

text \<open>
  A heartbeat can take a commit back. The heartbeats of \<open>ticker\<close> carry \<open>PrevLogIndex\<close> 0 and no
  entries, so a follower that accepts one with a higher \<open>LeaderCommit\<close> sets its \<open>commitIndex\<close> to
  \<open>min(LeaderCommit, 0)\<close>, which is 0: whatever it had committed is forgotten, and a heartbeat never
  raises a \<open>commitIndex\<close>.
\<close>

lemma heartbeat_resets_commitIndex:
  assumes "(i, args) \<in> set (fst (ticker_heartbeats now t leader))"
    and "currentTerm rf \<le> currentTerm leader" and "0 \<le> commitIndex rf"
    and "commitIndex rf < commitIndex leader"
  shows "commitIndex (fst (AppendEntries now' args rf)) = 0 \<and>
    aer_Success (snd (AppendEntries now' args rf))"
proof -
  have a: "ae_PrevLogIndex args = 0" "ae_Entries args = []" "ae_Term args = currentTerm leader"
    "ae_LeaderCommit args = commitIndex leader"
    using assms(1) by (auto simp: ticker_heartbeats_def Let_def split: if_splits)
  obtain rf' reply where e: "AppendEntries now' args rf = (rf', reply)" by force
  with AppendEntries_success(1,4) [OF e] a assms(2-4) show ?thesis
    by (simp add: min_int_def)
qed

text \<open>
  C6: \<open>Start\<close> on a leader whose log is the sentinel at 0 plus entries at 2, 3, ..., up to the number of
  entries (the shape of every log that only \<open>Start\<close> has extended, see \<open>log_shape\<close>): it returns the
  number of entries plus one with the current term, stores the command there, keeps every older entry and
  the shape, and the new entry is what the next election advertises as the last one. The index is one
  past the last entry only once there is a command in the log: on a log that holds the sentinel alone it is
  2, where the tests (\<open>TestBasicAgree3B\<close>) require 1, and index 1 stays empty for good.
\<close>

theorem Start_appends:
  assumes "state rf = Leader" and "log_shape (logs rf)" and "logs rf \<noteq> []"
    and "Start command rf = (rf', index, term, isLeader)"
  shows "isLeader \<and> (term, True) = GetState rf \<and> index = int (length (logs rf)) + 1 \<and>
    map_of (logs rf) index = None \<and>
    map_of (logs rf') = (map_of (logs rf))(index \<mapsto> \<lparr>le_Term = term, le_Command = command\<rparr>) \<and>
    log_shape (logs rf') \<and> lastLog rf' = (index, term) \<and>
    index = (if dom (map_of (logs rf)) = {0} then 2 else Max (dom (map_of (logs rf))) + 1) \<and> map_of (logs rf') 1 = None"
proof -
  have r: "isLeader" "term = currentTerm rf" "index = int (length (logs rf)) + 1"
    "logs rf' = AList.update index \<lparr>le_Term = term, le_Command = command\<rparr> (logs rf)"
    using assms(1,4) by (auto simp: Start_def persist_def Let_def)
  note next_index = log_shape_next [OF assms(2,3) r(3)]
  have "lastLog rf' = (index, term)"
    using r(3,4) next_index by (simp add: lastLog_def gm.get_put)
  moreover have "map_of (logs rf') 1 = None"
    using r(3,4) log_shape_dom(1) [OF assms(2)] next_index(4) assms(3) by (simp add: update_conv')
  moreover have "index = (if dom (map_of (logs rf)) = {0} then 2 else Max (dom (map_of (logs rf))) + 1)"
    using log_shape_dom(2) [OF assms(2,3)] r(3) by simp
  ultimately show ?thesis
    using r next_index assms(1) by (simp add: GetState_def update_conv')
qed

theorem Start_appends_witness:
  "\<exists>rf'. Start (Some (8 :: nat)) ((Make 0 [''a''] 0 MakePersister)\<lparr>state := Leader, currentTerm := 4\<rparr>) =
     (rf', 2, 4, True) \<and> lastLog rf' = (2, 4)"
proof -
  let ?rf = "(Make 0 [''a''] 0 MakePersister :: nat Raft)\<lparr>state := Leader, currentTerm := 4\<rparr>"
  obtain rf' index t l where e: "Start (Some (8 :: nat)) ?rf = (rf', index, t, l)"
    using prod_cases4 by blast
  have "log_shape (logs ?rf)" "logs ?rf \<noteq> []" "state ?rf = Leader"
    by (simp_all add: log_shape_def gm_wf_def Make_def readPersist_def)
  from Start_appends [OF this(3,1,2) e] e show ?thesis
    by (simp add: GetState_def Make_def readPersist_def)
qed

end
