(* ===== verification/Rsm.thy ===== *)
theory Rsm
  imports Raft Tester KvServer
begin

text \<open>
  The replicated state machine of \<open>kvraft1/rsm\<close>: the interface of \<open>rsm.go\<close>, whose \<open>Submit\<close> gives up at once,
  the counter service of \<open>server.go\<close> that its tests replicate, and the helpers of \<open>test.go\<close> that look for a
  leader, submit a command and count agreeing replicas. The helpers take the submission as an argument,
  of which the code's \<open>Submit\<close> is one instance; the gob codec of the counter is an argument too.
\<close>

section \<open>The interface\<close>

record 'c RSM =
  rsm_me :: int
  rsm_rf :: "'c Raft option"
  rsm_maxraftstate :: int

definition MakeRSM :: "bool \<Rightarrow> int \<Rightarrow> string list \<Rightarrow> int \<Rightarrow> Persister \<Rightarrow> int \<Rightarrow> 'c RSM" where
  "MakeRSM useRaftStateMachine now eps i ps maxraftstate =
     \<lparr>rsm_me = i, rsm_rf = (if \<not> useRaftStateMachine then Some (Make now eps i ps) else None),
      rsm_maxraftstate = maxraftstate\<rparr>"

definition RSM_Raft :: "'c RSM option \<Rightarrow> 'c Raft option go" where
  "RSM_Raft rsm = (case rsm of None \<Rightarrow> Panic | Some r \<Rightarrow> Ret (rsm_rf r))"

definition Submit :: "'q \<Rightarrow> 'c RSM \<Rightarrow> (Err \<times> 'r option) \<times> 'c RSM" where
  "Submit req rsm = ((ErrWrongLeader, None), rsm)"

section \<open>The counter service\<close>

datatype req = Inc | Null | Dec

datatype rep = IncRep int | NullRep

record 'c rsmSrv =
  rs_me :: int
  rs_rsm :: "'c RSM option"
  rs_counter :: int

text \<open>\<open>register\<close> is \<open>labgob.Register\<close> of a value of the named type.\<close>

fun register_all :: "(string \<Rightarrow> 'l \<Rightarrow> 'l go) \<Rightarrow> string list \<Rightarrow> 'l \<Rightarrow> 'l go" where
  "register_all register [] l = Ret l"
| "register_all register (ty # tys) l = go_bind (register ty l) (register_all register tys)"

text \<open>
  \<open>makeRsmSrv\<close> registers the types of the tests with \<open>labgob\<close>, which may stop the process, and makes the server;
  \<open>new_rsmSrv\<close> is the server with the replicated state machine that \<open>MakeRSM\<close> made for it.
\<close>

definition new_rsmSrv :: "bool \<Rightarrow> int \<Rightarrow> int \<Rightarrow> string list \<Rightarrow> Persister \<Rightarrow> int \<Rightarrow> 'c rsmSrv" where
  "new_rsmSrv useRaftStateMachine now srv eps ps maxraftstate =
     (let s = \<lparr>rs_me = srv, rs_rsm = None, rs_counter = 0\<rparr>
      in s\<lparr>rs_rsm := Some (MakeRSM useRaftStateMachine now eps srv ps maxraftstate)\<rparr>)"

definition makeRsmSrv ::
  "(string \<Rightarrow> 'l \<Rightarrow> 'l go) \<Rightarrow> bool \<Rightarrow> int \<Rightarrow> int \<Rightarrow> string list \<Rightarrow> Persister \<Rightarrow> int \<Rightarrow> 'l \<Rightarrow> ('c rsmSrv \<times> 'l) go" where
  "makeRsmSrv register useRaftStateMachine now srv eps ps maxraftstate l =
     go_bind (register_all register [''rsm.Op'', ''rsm.Inc'', ''rsm.IncRep'', ''rsm.Null'', ''rsm.NullRep'', ''rsm.Dec''] l) (\<lambda>l.
       Ret (new_rsmSrv useRaftStateMachine now srv eps ps maxraftstate, l))"

fun DoOp :: "req \<Rightarrow> 'c rsmSrv \<Rightarrow> (rep \<times> 'c rsmSrv) go" where
  "DoOp Inc rs = (let rs = rs\<lparr>rs_counter := rs_counter rs + 1\<rparr> in Ret (IncRep (rs_counter rs), rs))"
| "DoOp Null rs = Ret (NullRep, rs)"
| "DoOp _ rs = Fatal"

definition rsmSrv_Snapshot :: "(int \<Rightarrow> 'b) \<Rightarrow> 'c rsmSrv \<Rightarrow> 'b" where
  "rsmSrv_Snapshot encode rs = encode (rs_counter rs)"

definition Restore :: "('b \<Rightarrow> int option) \<Rightarrow> 'b \<Rightarrow> 'c rsmSrv \<Rightarrow> 'c rsmSrv go" where
  "Restore decode bytes rs = (case decode bytes of None \<Rightarrow> Fatal | Some n \<Rightarrow> Ret (rs\<lparr>rs_counter := n\<rparr>))"

definition rsmSrv_Kill :: "'c rsmSrv \<Rightarrow> 'c rsmSrv" where
  "rsmSrv_Kill rs = rs\<lparr>rs_rsm := None\<rparr>"

definition rsmSrv_Raft :: "'c rsmSrv \<Rightarrow> 'c Raft option go" where
  "rsmSrv_Raft rs = RSM_Raft (rs_rsm rs)"

section \<open>The helpers of the tests\<close>

record ('c, 's) rsm_test =
  rst_g :: "'s ServerGrp"
  rst_maxraftstate :: int
  rst_srvs :: "'c rsmSrv option list"
  rst_leader :: int

definition NSRV :: nat where "NSRV = 3"

definition rsm_mksrv ::
  "(string \<Rightarrow> 'l \<Rightarrow> 'l go) \<Rightarrow> bool \<Rightarrow> int \<Rightarrow> string list \<Rightarrow> int \<Rightarrow> Persister \<Rightarrow> ('c, 's) rsm_test \<Rightarrow> 'l \<Rightarrow>
   (('c Raft option list \<times> ('c, 's) rsm_test) \<times> 'l) go" where
  "rsm_mksrv register useRaftStateMachine now eps srv ps ts l =
     go_bind (makeRsmSrv register useRaftStateMachine now srv eps ps (rst_maxraftstate ts) l) (\<lambda>(s, l).
       go_bind (set_idx (rst_srvs ts) srv (Some s)) (\<lambda>ss.
         go_bind (RSM_Raft (rs_rsm s)) (\<lambda>rf. Ret (([rf], ts\<lparr>rst_srvs := ss\<rparr>), l))))"

fun inPartition :: "int \<Rightarrow> int list option \<Rightarrow> bool" where
  "inPartition s None = True"
| "inPartition s (Some p) = list_ex (\<lambda>i. s = i) p"

text \<open>
  One pass of \<open>onePartition\<close> over the servers, \<open>k\<close> of them left. The result is \<open>None\<close> when no submission
  succeeded, and \<open>Some rep\<close> with the reply, which may be nil. \<open>w\<close> is the world that submissions change.
\<close>

fun try_servers ::
  "(int \<Rightarrow> req \<Rightarrow> 'w \<Rightarrow> (Err \<times> rep option) \<times> 'w) \<Rightarrow> int list option \<Rightarrow> req \<Rightarrow> nat \<Rightarrow> int \<Rightarrow> ('c, 's) rsm_test \<Rightarrow> 'w \<Rightarrow>
   (rep option option \<times> ('c, 's) rsm_test \<times> 'w) go" where
  "try_servers submit p rq 0 index ts w = Ret (None, ts, w)"
| "try_servers submit p rq (Suc k) index ts w =
     (let again = try_servers submit p rq k ((index + 1) mod int (length (rst_srvs ts))) ts
      in go_bind (IsConnected index (rst_g ts)) (\<lambda>c.
           if c then
             go_bind (idx (rst_srvs ts) index) (\<lambda>s. case s of
               None \<Rightarrow> Panic
             | Some s \<Rightarrow>
                 if rs_rsm s \<noteq> None \<and> inPartition index p then
                   (case submit index rq w of ((err, rp), w) \<Rightarrow>
                      if err = OK then Ret (Some rp, ts\<lparr>rst_leader := index\<rparr>, w) else again w)
                 else again w)
           else again w))"

text \<open>\<open>rounds\<close> is the number of passes that begin before the ten seconds are over.\<close>

fun onePartition ::
  "(int \<Rightarrow> req \<Rightarrow> 'w \<Rightarrow> (Err \<times> rep option) \<times> 'w) \<Rightarrow> int list option \<Rightarrow> req \<Rightarrow> nat \<Rightarrow> ('c, 's) rsm_test \<Rightarrow> 'w \<Rightarrow>
   (rep option \<times> ('c, 's) rsm_test \<times> 'w) go" where
  "onePartition submit p rq 0 ts w = Ret (None, ts, w)"
| "onePartition submit p rq (Suc rounds) ts w =
     go_bind (try_servers submit p rq (length (rst_srvs ts)) (rst_leader ts) ts w) (\<lambda>(r, ts, w).
       case r of Some rp \<Rightarrow> Ret (rp, ts, w) | None \<Rightarrow> onePartition submit p rq rounds ts w)"

definition oneInc ::
  "(int \<Rightarrow> req \<Rightarrow> 'w \<Rightarrow> (Err \<times> rep option) \<times> 'w) \<Rightarrow> nat \<Rightarrow> ('c, 's) rsm_test \<Rightarrow> 'w \<Rightarrow> (int option \<times> ('c, 's) rsm_test \<times> 'w) go" where
  "oneInc submit rounds ts w =
     go_bind (onePartition submit None Inc rounds ts w) (\<lambda>(r, ts, w).
       case r of None \<Rightarrow> Ret (None, ts, w) | Some (IncRep n) \<Rightarrow> Ret (Some n, ts, w) | Some NullRep \<Rightarrow> Panic)"

definition oneNull ::
  "(int \<Rightarrow> req \<Rightarrow> 'w \<Rightarrow> (Err \<times> rep option) \<times> 'w) \<Rightarrow> nat \<Rightarrow> ('c, 's) rsm_test \<Rightarrow> 'w \<Rightarrow> (unit option \<times> ('c, 's) rsm_test \<times> 'w) go" where
  "oneNull submit rounds ts w =
     go_bind (onePartition submit None Null rounds ts w) (\<lambda>(r, ts, w).
       case r of None \<Rightarrow> Ret (None, ts, w) | Some NullRep \<Rightarrow> Ret (Some (), ts, w) | Some (IncRep n) \<Rightarrow> Panic)"

fun countValue :: "int \<Rightarrow> 'c rsmSrv option list \<Rightarrow> int go" where
  "countValue v [] = Ret 0"
| "countValue v (s # ss) =
     (case s of None \<Rightarrow> Panic
      | Some rs \<Rightarrow> go_bind (countValue v ss) (\<lambda>n. Ret (if rs_counter rs = v then n + 1 else n)))"

text \<open>\<open>checkCounter\<close> looks at the servers up to thirty times; \<open>obs i\<close> is what it sees the \<open>i\<close>th time.\<close>

fun checkCounter_loop :: "int \<Rightarrow> int \<Rightarrow> 'c rsmSrv option list list \<Rightarrow> unit go" where
  "checkCounter_loop v nsrv [] = Fatal"
| "checkCounter_loop v nsrv (ss # sss) =
     go_bind (countValue v ss) (\<lambda>n. if n \<ge> nsrv then Ret () else checkCounter_loop v nsrv sss)"

definition checkCounter :: "int \<Rightarrow> int \<Rightarrow> (nat \<Rightarrow> 'c rsmSrv option list) \<Rightarrow> unit go" where
  "checkCounter v nsrv obs = checkCounter_loop v nsrv (map obs [0..<30])"

definition disconnectLeader :: "('c, 's) rsm_test \<Rightarrow> 'w Tester \<Rightarrow> (int \<times> ('c, 's) rsm_test \<times> 'w Tester) go" where
  "disconnectLeader ts t =
     go_bind (sg_DisconnectAll (rst_leader ts) (rst_g ts) t) (\<lambda>(sg, t). Ret (rst_leader ts, ts\<lparr>rst_g := sg\<rparr>, t))"

definition rsm_connect :: "int \<Rightarrow> ('c, 's) rsm_test \<Rightarrow> 'w Tester \<Rightarrow> (('c, 's) rsm_test \<times> 'w Tester) go" where
  "rsm_connect i ts t = go_bind (ConnectOne i (rst_g ts) t) (\<lambda>(sg, t). Ret (ts\<lparr>rst_g := sg\<rparr>, t))"

text \<open>\<open>Leader\<close> goes through the services of a group; \<open>raft_of\<close> gives the state of those that are Raft peers.\<close>

fun leads :: "('s \<Rightarrow> (int \<times> bool) option) \<Rightarrow> 's option list \<Rightarrow> bool" where
  "leads raft_of [] = False"
| "leads raft_of (s # ss) =
     (case Option.bind s raft_of of Some (term, isLeader) \<Rightarrow> isLeader \<or> leads raft_of ss | None \<Rightarrow> leads raft_of ss)"

fun Leader_loop :: "('s \<Rightarrow> (int \<times> bool) option) \<Rightarrow> int \<Rightarrow> 's option list list \<Rightarrow> bool \<times> int" where
  "Leader_loop raft_of i [] = (False, 0)"
| "Leader_loop raft_of i (ss # sss) = (if leads raft_of ss then (True, i) else Leader_loop raft_of (i + 1) sss)"

definition rsm_Leader :: "('s \<Rightarrow> (int \<times> bool) option) \<Rightarrow> 's ServerGrp \<Rightarrow> bool \<times> int" where
  "rsm_Leader raft_of sg = Leader_loop raft_of 0 (Services sg)"

section \<open>Replaying operations\<close>

fun apply_ops :: "req list \<Rightarrow> 'c rsmSrv \<Rightarrow> (rep list \<times> 'c rsmSrv) go" where
  "apply_ops [] rs = Ret ([], rs)"
| "apply_ops (q # qs) rs =
     go_bind (DoOp q rs) (\<lambda>(r, rs). go_bind (apply_ops qs rs) (\<lambda>(reps, rs). Ret (r # reps, rs)))"

text \<open>The abstract counter: the replies of a sequence of operations, from a value on.\<close>

fun counts :: "int \<Rightarrow> req list \<Rightarrow> rep list" where
  "counts n [] = []"
| "counts n (Inc # qs) = IncRep (n + 1) # counts (n + 1) qs"
| "counts n (q # qs) = NullRep # counts n qs"

definition incs :: "req list \<Rightarrow> int" where
  "incs qs = int (count_list qs Inc)"

lemma incs_append [simp]: "incs (qs @ qs') = incs qs + incs qs'"
  by (simp add: incs_def)

lemma counts_append: "counts n (qs @ qs') = counts n qs @ counts (n + incs qs) qs'"
  by (induction n qs rule: counts.induct) (simp_all add: incs_def algebra_simps)

lemma apply_ops_counts:
  "Dec \<notin> set qs \<Longrightarrow> apply_ops qs rs = Ret (counts (rs_counter rs) qs, rs\<lparr>rs_counter := rs_counter rs + incs qs\<rparr>)"
proof (induction qs arbitrary: rs)
  case (Cons q qs)
  then show ?case by (cases q) (simp_all add: incs_def algebra_simps)
qed (simp add: incs_def)

lemma apply_ops_Dec: "Dec \<notin> set qs \<Longrightarrow> apply_ops (qs @ Dec # qs') rs = Fatal"
proof (induction qs arbitrary: rs)
  case (Cons q qs)
  then show ?case by (cases q) simp_all
qed simp

section \<open>Looking for a server that accepts\<close>

text \<open>The servers of a test are all started, and the leader it remembers is one of them.\<close>

definition rst_wf :: "('c, 's) rsm_test \<Rightarrow> bool" where
  "rst_wf ts \<longleftrightarrow> None \<notin> set (rst_srvs ts) \<and> length (rst_srvs ts) \<le> length (connected (rst_g ts)) \<and>
     0 \<le> rst_leader ts \<and> rst_leader ts < int (length (rst_srvs ts))"

definition accepts :: "(int \<Rightarrow> req \<Rightarrow> Err \<times> rep option) \<Rightarrow> int list option \<Rightarrow> req \<Rightarrow> ('c, 's) rsm_test \<Rightarrow> int \<Rightarrow> bool" where
  "accepts answer p rq ts i \<longleftrightarrow> connected (rst_g ts) ! nat i \<and> rs_rsm (the (rst_srvs ts ! nat i)) \<noteq> None \<and>
     inPartition i p \<and> fst (answer i rq) = OK"

definition round_robin :: "int \<Rightarrow> nat \<Rightarrow> nat \<Rightarrow> int list" where
  "round_robin i n k = map (\<lambda>j. (i + int j) mod int n) [0..<k]"

lemma round_robin_Suc:
  assumes "0 \<le> i" and "i < int n"
  shows "round_robin i n (Suc k) = i # round_robin ((i + 1) mod int n) n k"
proof -
  have "(i + int (Suc j)) mod int n = ((i + 1) mod int n + int j) mod int n" for j
  proof -
    have "i + int (Suc j) = (i + 1) + int j" by simp
    then show ?thesis by (simp only: mod_add_left_eq)
  qed
  then show ?thesis using assms unfolding round_robin_def by (simp add: upt_conv_Cons map_Suc_upt [symmetric] del: upt_Suc)
qed

lemma try_servers_finds:
  assumes "rst_wf ts" and "0 \<le> i" and "i < int (length (rst_srvs ts))"
  shows "try_servers (\<lambda>i q w. (answer i q, w)) p rq k i ts w =
    Ret (case find (accepts answer p rq ts) (round_robin i (length (rst_srvs ts)) k) of
           Some i \<Rightarrow> (Some (snd (answer i rq)), ts\<lparr>rst_leader := i\<rparr>, w) | None \<Rightarrow> (None, ts, w))"
  using assms(2,3)
proof (induction k arbitrary: i)
  case (Suc k)
  let ?n = "int (length (rst_srvs ts))"
  have "0 < ?n" using Suc.prems by linarith
  then have next_i: "0 \<le> (i + 1) mod ?n" "(i + 1) mod ?n < ?n" by simp_all
  have "nat i < length (rst_srvs ts)" using Suc.prems by simp
  then obtain s where s: "rst_srvs ts ! nat i = Some s"
    using assms(1) nth_mem [of "nat i" "rst_srvs ts"] by (cases "rst_srvs ts ! nat i") (auto simp: rst_wf_def)
  have ix: "idx (connected (rst_g ts)) i = Ret (connected (rst_g ts) ! nat i)" "idx (rst_srvs ts) i = Ret (Some s)"
    using Suc.prems assms(1) s by (auto simp: idx_def rst_wf_def)
  show ?case
    using Suc.IH [OF next_i] Suc.prems s ix
    by (auto simp: round_robin_Suc IsConnected_def accepts_def Let_def split_def)
qed (simp add: round_robin_def)

lemma onePartition_eq:
  assumes "rst_wf ts"
  shows "onePartition (\<lambda>i q w. (answer i q, w)) p rq (Suc rounds) ts w =
    Ret (case find (accepts answer p rq ts) (round_robin (rst_leader ts) (length (rst_srvs ts)) (length (rst_srvs ts))) of
           Some i \<Rightarrow> (snd (answer i rq), ts\<lparr>rst_leader := i\<rparr>, w) | None \<Rightarrow> (None, ts, w))"
proof -
  have "0 \<le> rst_leader ts" "rst_leader ts < int (length (rst_srvs ts))" using assms by (simp_all add: rst_wf_def)
  note t = try_servers_finds [OF assms this, of answer p rq "length (rst_srvs ts)" w]
  show ?thesis
  proof (induction rounds)
    case (Suc rounds)
    show ?case
      by (subst onePartition.simps(2)) (simp add: t Suc del: onePartition.simps split: option.splits)
  qed (subst onePartition.simps(2), subst t, simp split: option.splits)
qed

lemma find_round_robin:
  assumes "0 \<le> l" and "l < int n"
  shows "find P (round_robin l n n) = None \<longleftrightarrow> (\<forall>i. 0 \<le> i \<and> i < int n \<longrightarrow> \<not> P i)"
proof -
  have "i \<in> set (round_robin l n n)" if "0 \<le> i" "i < int n" for i
  proof -
    let ?j = "nat ((i - l) mod int n)"
    have "(l + int ?j) mod int n = i" using that assms by (simp add: mod_add_right_eq)
    moreover have "?j < n" using that by (simp add: nat_less_iff)
    ultimately show ?thesis by (auto simp: round_robin_def intro!: rev_image_eqI [of ?j])
  qed
  moreover have "0 \<le> i \<and> i < int n" if "i \<in> set (round_robin l n n)" for i
    using that by (auto simp: round_robin_def)
  ultimately show ?thesis by (auto simp: find_None_iff)
qed

text \<open>The code's \<open>Submit\<close>: no command is ever accepted, however long a test tries.\<close>

lemma Submit_never_accepted:
  assumes "rst_wf ts"
  shows "onePartition (\<lambda>i q w. (fst (Submit q rsm), w)) p rq rounds ts w = Ret (None, ts, w)"
proof (cases rounds)
  case (Suc n)
  have "find (accepts (\<lambda>i q. fst (Submit q rsm)) p rq ts) xs = None" for xs
    by (auto simp: find_None_iff accepts_def Submit_def)
  then show ?thesis unfolding Suc by (subst onePartition_eq [OF assms]) simp
qed simp

section \<open>Properties\<close>

lemma find_in_range:
  assumes "find P (round_robin l n n) = Some i" and "0 < n"
  shows "P i \<and> 0 \<le> i \<and> i < int n"
proof -
  have "P i" "i \<in> set (round_robin l n n)" using assms(1) by (auto simp: find_Some_iff)
  with assms(2) show ?thesis by (auto simp: round_robin_def)
qed

text \<open>
  A command reaches a server that accepts it. For servers whose answers do not change meanwhile, one
  pass of \<open>onePartition\<close> is enough: if some connected, running server of the partition accepts the
  command, its reply is returned and it becomes the remembered leader, which is kept if it accepts itself;
  if no server accepts, the helper returns nil after any number of passes and remembers the old leader.
\<close>

lemma onePartition_finds:
  assumes "rst_wf ts"
  shows "((\<exists>i. 0 \<le> i \<and> i < int (length (rst_srvs ts)) \<and> accepts answer p rq ts i) \<longrightarrow>
      (\<exists>i. 0 \<le> i \<and> i < int (length (rst_srvs ts)) \<and> accepts answer p rq ts i \<and> (accepts answer p rq ts (rst_leader ts) \<longrightarrow> i = rst_leader ts) \<and>
         onePartition (\<lambda>i q w. (answer i q, w)) p rq (Suc rounds) ts w = Ret (snd (answer i rq), ts\<lparr>rst_leader := i\<rparr>, w))) \<and>
    ((\<forall>i. 0 \<le> i \<and> i < int (length (rst_srvs ts)) \<longrightarrow> \<not> accepts answer p rq ts i) \<longrightarrow>
      onePartition (\<lambda>i q w. (answer i q, w)) p rq (Suc rounds) ts w = Ret (None, ts, w))"
proof -
  let ?m = "length (rst_srvs ts)" and ?l = "rst_leader ts"
  have l: "0 \<le> ?l" "?l < int ?m" using assms by (simp_all add: rst_wf_def)
  have none: "find (accepts answer p rq ts) (round_robin ?l ?m ?m) = None \<longleftrightarrow>
      (\<forall>i. 0 \<le> i \<and> i < int ?m \<longrightarrow> \<not> accepts answer p rq ts i)"
    by (rule find_round_robin [OF l])
  have hd: "find (accepts answer p rq ts) (round_robin ?l ?m ?m) = Some ?l" if "accepts answer p rq ts ?l"
    using that l by (cases ?m) (simp_all add: round_robin_Suc)
  show ?thesis
  proof (cases "find (accepts answer p rq ts) (round_robin ?l ?m ?m)")
    case None
    with none show ?thesis by (auto simp: onePartition_eq [OF assms(1)] simp del: onePartition.simps)
  next
    case (Some i)
    with l have "accepts answer p rq ts i \<and> 0 \<le> i \<and> i < int ?m" by (intro find_in_range) auto
    with Some none hd show ?thesis by (auto simp: onePartition_eq [OF assms(1)] simp del: onePartition.simps)
  qed
qed

definition three_servers :: "(unit, unit) rsm_test" where
  "three_servers = \<lparr>rst_g = \<lparr>srvs = [], servernames = [], sg_gid = 0, connected = [False, True, True]\<rparr>, rst_maxraftstate = -1,
     rst_srvs = map (\<lambda>i. Some (new_rsmSrv False 0 i [''a'', ''b'', ''c''] MakePersister (-1))) [0, 1, 2], rst_leader = 0\<rparr>"

text \<open>
  C34: a replica that installs a snapshot catches up. Take the snapshot of a counter server that has
  executed some operations, restore it on any other server and execute the rest there: the replies are those
  of the server that executes everything, and so is the counter, which is the old one plus the number of
  increments. The codec has to return what was encoded.
\<close>

theorem snapshot_catch_up:
  assumes "\<And>n. decode (encode n) = Some n" and "Dec \<notin> set (qs @ qs')"
  shows "\<exists>reps reps' a b c. apply_ops qs rs = Ret (reps, a) \<and>
    go_bind (Restore decode (rsmSrv_Snapshot encode a) rs') (apply_ops qs') = Ret (reps', b) \<and>
    apply_ops (qs @ qs') rs = Ret (reps @ reps', c) \<and>
    rs_counter b = rs_counter c \<and> rs_counter c = rs_counter rs + incs (qs @ qs')"
  using assms by (simp add: apply_ops_counts Restore_def rsmSrv_Snapshot_def counts_append)

theorem snapshot_catch_up_witness:
  "\<exists>a b. apply_ops [Inc, Null, Inc] (new_rsmSrv False 0 0 [''a'', ''b''] MakePersister (-1) :: unit rsmSrv) = Ret ([IncRep 1, NullRep, IncRep 2], a) \<and>
     go_bind (Restore Some (rsmSrv_Snapshot (\<lambda>n. n) a) (new_rsmSrv False 0 1 [''a'', ''b''] MakePersister (-1) :: unit rsmSrv))
       (apply_ops [Inc, Inc]) = Ret ([IncRep 3, IncRep 4], b) \<and> rs_counter b = 4"
proof -
  let ?rs = "new_rsmSrv False 0 0 [''a'', ''b''] MakePersister (-1) :: unit rsmSrv"
    and ?rs' = "new_rsmSrv False 0 1 [''a'', ''b''] MakePersister (-1) :: unit rsmSrv"
  have "rs_counter ?rs = 0" by (simp add: new_rsmSrv_def)
  moreover obtain reps reps' a b c where r: "apply_ops [Inc, Null, Inc] ?rs = Ret (reps, a)"
    "go_bind (Restore Some (rsmSrv_Snapshot (\<lambda>n. n) a) ?rs') (apply_ops [Inc, Inc]) = Ret (reps', b)"
    "apply_ops ([Inc, Null, Inc] @ [Inc, Inc]) ?rs = Ret (reps @ reps', c)" "rs_counter b = rs_counter c"
    "rs_counter c = rs_counter ?rs + incs ([Inc, Null, Inc] @ [Inc, Inc])"
    using snapshot_catch_up [of Some "\<lambda>n. n" "[Inc, Null, Inc]" "[Inc, Inc]" ?rs ?rs'] by auto
  ultimately show ?thesis by (auto simp: incs_def)
qed

end
