(* ===== verification/KvRaft.thy ===== *)
theory KvRaft
  imports Rsm KvTest
begin

text \<open>
  The replicated key/value service of \<open>kvraft1\<close>: the clerk and the server, which the lab leaves empty apart from
  starting and killing a server, and the wiring of their tests (\<open>kvraft1/test.go\<close>, and \<open>kvsrv1/test.go\<close> for the
  single server): making and deleting clerks, and clerks that may talk to some of the servers only.
\<close>

section \<open>The skeletons\<close>

record kvraft_Clerk =
  rk_clnt :: nat
  rk_servers :: "string list"

definition kvraft_MakeClerk :: "nat \<Rightarrow> string list \<Rightarrow> kvraft_Clerk" where
  "kvraft_MakeClerk clnt ss = \<lparr>rk_clnt = clnt, rk_servers = ss\<rparr>"

definition kvraft_Get :: "kvraft_Clerk \<Rightarrow> string \<Rightarrow> string \<times> Tversion \<times> Err" where
  "kvraft_Get ck key = ('''', 0, ErrZero)"

definition kvraft_Put :: "kvraft_Clerk \<Rightarrow> string \<Rightarrow> string \<Rightarrow> Tversion \<Rightarrow> Err" where
  "kvraft_Put ck key value version = ErrZero"

record 'c kvraft_KVServer =
  rks_me :: int
  rks_dead :: int
  rks_rsm :: "'c RSM option"

definition kvraft_DoOp :: "'c kvraft_KVServer \<Rightarrow> 'q \<Rightarrow> 'r option" where
  "kvraft_DoOp kv rq = None"

definition kvraft_Snapshot :: "'c kvraft_KVServer \<Rightarrow> 'b list option" where
  "kvraft_Snapshot kv = None"

definition kvraft_Restore :: "'b list \<Rightarrow> 'c kvraft_KVServer \<Rightarrow> 'c kvraft_KVServer" where
  "kvraft_Restore bs kv = kv"

text \<open>The handlers leave the reply as the caller made it.\<close>

definition kvraft_srv_Get :: "GetArgs \<Rightarrow> GetReply \<Rightarrow> 'c kvraft_KVServer \<Rightarrow> GetReply \<times> 'c kvraft_KVServer" where
  "kvraft_srv_Get args reply kv = (reply, kv)"

definition kvraft_srv_Put :: "PutArgs \<Rightarrow> PutReply \<Rightarrow> 'c kvraft_KVServer \<Rightarrow> PutReply \<times> 'c kvraft_KVServer" where
  "kvraft_srv_Put args reply kv = (reply, kv)"

definition kvraft_Kill :: "'c kvraft_KVServer \<Rightarrow> 'c kvraft_KVServer" where
  "kvraft_Kill kv = kv\<lparr>rks_dead := 1\<rparr>"

definition kvraft_killed :: "'c kvraft_KVServer \<Rightarrow> bool" where
  "kvraft_killed kv = (let z = rks_dead kv in z = 1)"

datatype 'c kvraft_service = KvSvc "'c kvraft_KVServer" | RaftSvc "'c Raft option"

definition kvraft_StartKVServer ::
  "(string \<Rightarrow> 'l \<Rightarrow> 'l go) \<Rightarrow> bool \<Rightarrow> int \<Rightarrow> string list \<Rightarrow> int \<Rightarrow> Persister \<Rightarrow> int \<Rightarrow> 'l \<Rightarrow> ('c kvraft_service list \<times> 'l) go" where
  "kvraft_StartKVServer register useRaftStateMachine now eps i ps maxraftstate l =
     go_bind (register_all register [''rsm.Op'', ''rpc.PutArgs'', ''rpc.GetArgs''] l) (\<lambda>l.
       let kv = \<lparr>rks_me = i, rks_dead = 0, rks_rsm = None\<rparr>;
           kv = kv\<lparr>rks_rsm := Some (MakeRSM useRaftStateMachine now eps i ps maxraftstate)\<rparr>
       in go_bind (RSM_Raft (rks_rsm kv)) (\<lambda>rf. Ret ([KvSvc kv, RaftSvc rf], l)))"

section \<open>The wiring of the tests\<close>

text \<open>
  A test of \<open>kvsrv1\<close> or \<open>kvraft1\<close> is the test of \<open>kvtest1\<close> on a configuration of \<open>tester1\<close> with its network. A
  \<open>kvtest.TestClerk\<close> is a clerk with the client it was made with.
\<close>

record kvraft_params =
  part :: string
  nclients :: int
  nservers :: nat
  crash :: bool
  partitions :: bool
  par_maxraftstate :: int
  randomkeys :: bool

definition makeTitle :: "kvraft_params \<Rightarrow> string" where
  "makeTitle ts =
     (let title = ''Test: '';
          title = (if crash ts then title @ ''restarts, '' else title);
          title = (if partitions ts then title @ ''partitions, '' else title);
          title = (if par_maxraftstate ts \<noteq> -1 then title @ ''snapshots, '' else title);
          title = (if randomkeys ts then title @ ''random keys, '' else title);
          title = (if nclients ts > 1 then title @ ''many clients'' else title @ ''one client'')
      in title @ '' ('' @ part ts @ '')'')"

text \<open>\<open>kt_MakeTest\<close> is \<open>kvtest.MakeTest\<close>: an empty log on the given configuration.\<close>

record ('w, 's) wired_test =
  wt_Config :: "'s Config"
  wt_net :: "'w Tester"
  wt_oplog :: "Operation list option"
  wt_randomkeys :: bool

definition kt_MakeTest :: "'s Config \<Rightarrow> 'w Tester \<Rightarrow> bool \<Rightarrow> ('w, 's) wired_test" where
  "kt_MakeTest cfg t rk = \<lparr>wt_Config = cfg, wt_net = t, wt_oplog = Some [], wt_randomkeys = rk\<rparr>"

definition kvraft_MakeTest ::
  "(nat \<Rightarrow> string) \<Rightarrow> ('w, 's) program \<Rightarrow> kvraft_params \<Rightarrow> bool \<Rightarrow> 'w Tester \<Rightarrow> (string \<times> ('w, 's) wired_test) go" where
  "kvraft_MakeTest names pr par rel t =
     go_bind (MakeConfig names pr (nservers par) rel t) (\<lambda>(cfg, t).
       let ts = kt_MakeTest cfg t (randomkeys par)
       in Ret (makeTitle par, ts\<lparr>wt_Config := Config_Begin (wt_Config ts) (wt_net ts)\<rparr>))"

definition MakeTestKV :: "(nat \<Rightarrow> string) \<Rightarrow> ('w, 's) program \<Rightarrow> bool \<Rightarrow> 'w Tester \<Rightarrow> ('w, 's) wired_test go" where
  "MakeTestKV names pr rel t = go_bind (MakeConfig names pr 1 rel t) (\<lambda>(cfg, t). Ret (kt_MakeTest cfg t False))"

definition kt_MakeClientTo :: "string list option \<Rightarrow> ('w, 's) wired_test \<Rightarrow> (nat \<times> ('w, 's) wired_test) go" where
  "kt_MakeClientTo ss ts =
     go_bind (MakeClientTo ss (Clnts (wt_Config ts)) (wt_net ts)) (\<lambda>(clnt, cs, t).
       Ret (clnt, ts\<lparr>wt_Config := (wt_Config ts)\<lparr>Clnts := cs\<rparr>, wt_net := t\<rparr>))"

text \<open>The server names of the group the test uses, in \<open>kvraft1\<close> group 0.\<close>

definition grp0 :: "('w, 's) wired_test \<Rightarrow> 's ServerGrp go" where
  "grp0 ts = (case lookupGroup GRP0 (Groups (wt_Config ts)) of None \<Rightarrow> Panic | Some sg \<Rightarrow> Ret sg)"

definition kvraft_test_MakeClerk :: "('w, 's) wired_test \<Rightarrow> ((kvraft_Clerk \<times> nat) \<times> ('w, 's) wired_test) go" where
  "kvraft_test_MakeClerk ts =
     go_bind (kt_MakeClientTo None ts) (\<lambda>(clnt, ts).
       go_bind (grp0 ts) (\<lambda>sg. Ret ((kvraft_MakeClerk clnt (SrvNames sg), clnt), ts)))"

definition MakeClerkTo :: "int list \<Rightarrow> ('w, 's) wired_test \<Rightarrow> ((kvraft_Clerk \<times> nat) \<times> ('w, 's) wired_test) go" where
  "MakeClerkTo to ts =
     go_bind (grp0 ts) (\<lambda>sg.
       go_bind (SrvNamesTo to sg) (\<lambda>ns.
         go_bind (kt_MakeClientTo (Some ns) ts) (\<lambda>(clnt, ts).
           go_bind (grp0 ts) (\<lambda>sg. Ret ((kvraft_MakeClerk clnt (SrvNames sg), clnt), ts)))))"

definition kvsrv_test_MakeClerk :: "('w, 's) wired_test \<Rightarrow> ((string \<times> nat) \<times> ('w, 's) wired_test) go" where
  "kvsrv_test_MakeClerk ts = go_bind (kt_MakeClientTo None ts) (\<lambda>(clnt, ts). Ret ((ServerName GRP0 0, clnt), ts))"

definition kt_DeleteClerk :: "'k \<times> nat \<Rightarrow> ('w, 's) wired_test \<Rightarrow> ('w, 's) wired_test go" where
  "kt_DeleteClerk tck ts =
     go_bind (DeleteClient (snd tck) (Clnts (wt_Config ts)) (wt_net ts)) (\<lambda>(cs, t).
       Ret (ts\<lparr>wt_Config := (wt_Config ts)\<lparr>Clnts := cs\<rparr>, wt_net := t\<rparr>))"

fun ConnectClnts :: "nat list \<Rightarrow> 'w Tester \<Rightarrow> 'w Tester" where
  "ConnectClnts [] t = t"
| "ConnectClnts (c # cs) t =
     (case Clnt_ConnectAll (cmem t c) t of (cl, t) \<Rightarrow> ConnectClnts cs (t\<lparr>cmem := (cmem t)(c := cl)\<rparr>))"

section \<open>Properties of the wiring\<close>

lemma SrvNamesTo_eq:
  "list_all (\<lambda>i. 0 \<le> i \<and> i < int (length (servernames sg))) to \<Longrightarrow> SrvNamesTo to sg = Ret (map (\<lambda>i. servernames sg ! nat i) to)"
  by (induction to) (auto simp: idx_def)

text \<open>
  A clerk made by \<open>MakeClerkTo\<close> knows all servers of the group, but the end points it makes are enabled only
  to the servers it was made for.
\<close>

lemma MakeClerkTo_allowed:
  assumes "lookupGroup GRP0 (Groups (wt_Config ts)) = Some sg" and "Clnts (wt_Config ts) \<noteq> None"
    and "list_all (\<lambda>i. 0 \<le> i \<and> i < int (length (servernames sg))) to"
  shows "\<exists>ck clnt ts'. MakeClerkTo to ts = Ret ((ck, clnt), ts') \<and> rk_servers ck = servernames sg \<and>
    (\<forall>s. allowedL s (cmem (wt_net ts') clnt) \<longleftrightarrow> s \<in> (\<lambda>i. servernames sg ! nat i) ` set to)"
proof -
  obtain cs where "Clnts (wt_Config ts) = Some cs" using assms(2) by blast
  then show ?thesis
    using assms(1) SrvNamesTo_eq [OF assms(3)]
    by (auto simp: MakeClerkTo_def grp0_def kt_MakeClientTo_def MakeClientTo_def makeClntTo_def allowedL_def
        kvraft_MakeClerk_def SrvNames_def Let_def)
qed

text \<open>The title tells the clients, and which of the four hardships a test has.\<close>

lemma makeTitle_cases:
  "makeTitle ts = ''Test: '' @ concat (map snd (filter fst
     [(crash ts, ''restarts, ''), (partitions ts, ''partitions, ''), (par_maxraftstate ts \<noteq> -1, ''snapshots, ''),
      (randomkeys ts, ''random keys, ''), (nclients ts > 1, ''many clients''), (\<not> nclients ts > 1, ''one client'')])) @
     '' ('' @ part ts @ '')''"
  by (simp add: makeTitle_def Let_def)

end
