(* ===== verification/Spawn.thy ===== *)
theory Spawn
  imports KvTest
begin

text \<open>
  \<open>SpawnClientsAndWait\<close> and \<open>runClient\<close> of \<open>kvtest1/kvtest.go\<close>: goroutines that share an unbuffered channel \<open>done\<close> and send
  their results on channels of their own. The caller starts the clients, sleeps, sends once on \<open>done\<close> for every client,
  and then receives from the result channels in order. A client function runs a loop that looks at \<open>done\<close> once
  per round (\<open>select\<close> with a \<open>default\<close> branch). The steps of all goroutines interleave freely.
\<close>

section \<open>Clients and their caller\<close>

text \<open>
  \<open>IClerkMaker\<close> makes and deletes clerks in the world of the test. \<open>Fclnt\<close> is a client function with a local state
  \<open>'l\<close>: where it starts, one step of it, the states in which it is at its \<open>select\<close>, and the result that it returns when it
  takes the signal there.
\<close>

record ('w, 'k) IClerkMaker =
  mk_MakeClerk :: "'w \<Rightarrow> 'k \<times> 'w"
  mk_DeleteClerk :: "'k \<Rightarrow> 'w \<Rightarrow> 'w"

record ('w, 'k, 'l) Fclnt =
  fn_start :: "int \<Rightarrow> 'k \<Rightarrow> 'l"
  fn_step :: "int \<Rightarrow> 'k \<Rightarrow> 'l \<Rightarrow> 'w \<Rightarrow> 'l \<times> 'w"
  fn_select :: "'l \<Rightarrow> bool"
  fn_result :: "'l \<Rightarrow> ClntRes"

datatype ('k, 'l) client_pc = Unborn | Born | Running 'k 'l | Sending 'k 'l | Deleting 'k 'l | Gone 'l

text \<open>\<open>Waiting i\<close> is the caller inside its send number \<open>i\<close> on \<open>done\<close>, \<open>Signalling i\<close> before it.\<close>

datatype main_pc = Spawning nat | Sleeping | Signalling nat | Waiting nat | Collecting "ClntRes list" | Finished "ClntRes list"

record ('w, 'k, 'l) spawn_sys =
  sp_main :: main_pc
  sp_client :: "nat \<Rightarrow> ('k, 'l) client_pc"
  sp_world :: 'w

fun is_waiting :: "main_pc \<Rightarrow> bool" where
  "is_waiting (Waiting i) = True"
| "is_waiting pc = False"

inductive spawn_step ::
  "('w, 'k) IClerkMaker \<Rightarrow> ('w, 'k, 'l) Fclnt \<Rightarrow> nat \<Rightarrow> ('w, 'k, 'l) spawn_sys \<Rightarrow> ('w, 'k, 'l) spawn_sys \<Rightarrow> bool" for M F n where
  spawn: "sp_main s = Spawning i \<Longrightarrow> i < n \<Longrightarrow>
    spawn_step M F n s (s\<lparr>sp_main := Spawning (i + 1), sp_client := (sp_client s)(i := Born)\<rparr>)"
| sleep: "sp_main s = Spawning n \<Longrightarrow> spawn_step M F n s (s\<lparr>sp_main := Sleeping\<rparr>)"
| wake: "sp_main s = Sleeping \<Longrightarrow> spawn_step M F n s (s\<lparr>sp_main := Signalling 0\<rparr>)"
| send: "sp_main s = Signalling i \<Longrightarrow> i < n \<Longrightarrow> spawn_step M F n s (s\<lparr>sp_main := Waiting i\<rparr>)"
| signal: "sp_main s = Waiting i \<Longrightarrow> sp_client s c = Running ck l \<Longrightarrow> fn_select F l \<Longrightarrow>
    spawn_step M F n s (s\<lparr>sp_main := Signalling (i + 1), sp_client := (sp_client s)(c := Sending ck l)\<rparr>)"
| signalled: "sp_main s = Signalling n \<Longrightarrow> spawn_step M F n s (s\<lparr>sp_main := Collecting []\<rparr>)"
| collect: "sp_main s = Collecting rs \<Longrightarrow> length rs < n \<Longrightarrow> sp_client s (length rs) = Sending ck l \<Longrightarrow>
    spawn_step M F n s (s\<lparr>sp_main := Collecting (rs @ [fn_result F l]), sp_client := (sp_client s)(length rs := Deleting ck l)\<rparr>)"
| finish: "sp_main s = Collecting rs \<Longrightarrow> length rs = n \<Longrightarrow> spawn_step M F n s (s\<lparr>sp_main := Finished rs\<rparr>)"
| make: "sp_client s c = Born \<Longrightarrow> mk_MakeClerk M (sp_world s) = (ck, w) \<Longrightarrow>
    spawn_step M F n s (s\<lparr>sp_client := (sp_client s)(c := Running ck (fn_start F (int c) ck)), sp_world := w\<rparr>)"
| run: "sp_client s c = Running ck l \<Longrightarrow> fn_select F l \<Longrightarrow> \<not> is_waiting (sp_main s) \<Longrightarrow> fn_step F (int c) ck l (sp_world s) = (l', w) \<Longrightarrow>
    spawn_step M F n s (s\<lparr>sp_client := (sp_client s)(c := Running ck l'), sp_world := w\<rparr>)"
| body: "sp_client s c = Running ck l \<Longrightarrow> \<not> fn_select F l \<Longrightarrow> fn_step F (int c) ck l (sp_world s) = (l', w) \<Longrightarrow>
    spawn_step M F n s (s\<lparr>sp_client := (sp_client s)(c := Running ck l'), sp_world := w\<rparr>)"
| delete: "sp_client s c = Deleting ck l \<Longrightarrow>
    spawn_step M F n s (s\<lparr>sp_client := (sp_client s)(c := Gone l), sp_world := mk_DeleteClerk M ck (sp_world s)\<rparr>)"

inductive spawn_reach ::
  "('w, 'k) IClerkMaker \<Rightarrow> ('w, 'k, 'l) Fclnt \<Rightarrow> nat \<Rightarrow> 'w \<Rightarrow> ('w, 'k, 'l) spawn_sys \<Rightarrow> bool" for M F n w0 where
  start: "spawn_reach M F n w0 \<lparr>sp_main = Spawning 0, sp_client = (\<lambda>c. Unborn), sp_world = w0\<rparr>"
| step: "spawn_reach M F n w0 s \<Longrightarrow> spawn_step M F n s t \<Longrightarrow> spawn_reach M F n w0 t"

section \<open>The clients while the caller goes through its loops\<close>

fun signalled :: "('k, 'l) client_pc \<Rightarrow> bool" where
  "signalled (Sending ck l) = True"
| "signalled (Deleting ck l) = True"
| "signalled (Gone l) = True"
| "signalled pc = False"

fun collected :: "('k, 'l) client_pc \<Rightarrow> bool" where
  "collected (Deleting ck l) = True"
| "collected (Gone l) = True"
| "collected pc = False"

fun outcome :: "('w, 'k, 'l) Fclnt \<Rightarrow> ('k, 'l) client_pc \<Rightarrow> ClntRes option" where
  "outcome F (Sending ck l) = Some (fn_result F l)"
| "outcome F (Deleting ck l) = Some (fn_result F l)"
| "outcome F (Gone l) = Some (fn_result F l)"
| "outcome F pc = None"

definition started :: "nat \<Rightarrow> ('w, 'k, 'l) spawn_sys \<Rightarrow> bool" where
  "started i s \<longleftrightarrow> (\<forall>c. (sp_client s c = Unborn) = (i \<le> c))"

definition got :: "nat \<Rightarrow> nat \<Rightarrow> ('w, 'k, 'l) spawn_sys \<Rightarrow> bool" where
  "got n i s \<longleftrightarrow> started n s \<and> (\<forall>c. \<not> collected (sp_client s c)) \<and> card {c. c < n \<and> signalled (sp_client s c)} = i \<and> i \<le> n"

definition results :: "('w, 'k, 'l) Fclnt \<Rightarrow> nat \<Rightarrow> ClntRes list \<Rightarrow> ('w, 'k, 'l) spawn_sys \<Rightarrow> bool" where
  "results F n rs s \<longleftrightarrow> started n s \<and> length rs \<le> n \<and> (\<forall>c < n. signalled (sp_client s c)) \<and>
     (\<forall>c < length rs. collected (sp_client s c) \<and> outcome F (sp_client s c) = Some (rs ! c)) \<and>
     (\<forall>c \<ge> length rs. \<not> collected (sp_client s c))"

fun spawn_inv :: "('w, 'k, 'l) Fclnt \<Rightarrow> nat \<Rightarrow> main_pc \<Rightarrow> ('w, 'k, 'l) spawn_sys \<Rightarrow> bool" where
  "spawn_inv F n (Spawning i) s = (i \<le> n \<and> started i s \<and> (\<forall>c. \<not> signalled (sp_client s c)))"
| "spawn_inv F n Sleeping s = (started n s \<and> (\<forall>c. \<not> signalled (sp_client s c)))"
| "spawn_inv F n (Signalling i) s = got n i s"
| "spawn_inv F n (Waiting i) s = (got n i s \<and> i < n)"
| "spawn_inv F n (Collecting rs) s = results F n rs s"
| "spawn_inv F n (Finished rs) s = (results F n rs s \<and> length rs = n)"

text \<open>A step of a client that neither takes the signal nor hands over its result does not concern the caller.\<close>

definition same_pc :: "('w, 'k, 'l) Fclnt \<Rightarrow> ('k, 'l) client_pc \<Rightarrow> ('k, 'l) client_pc \<Rightarrow> bool" where
  "same_pc F pc pc' \<longleftrightarrow> (pc = Unborn) = (pc' = Unborn) \<and> signalled pc = signalled pc' \<and> collected pc = collected pc' \<and>
     outcome F pc = outcome F pc'"

lemma spawn_inv_client:
  assumes "spawn_inv F n m s" and "sp_client t = (sp_client s)(c := pc)" and "same_pc F (sp_client s c) pc"
  shows "spawn_inv F n m t"
proof -
  have same: "(sp_client t b = Unborn) = (sp_client s b = Unborn)" "signalled (sp_client t b) = signalled (sp_client s b)"
    "collected (sp_client t b) = collected (sp_client s b)" "outcome F (sp_client t b) = outcome F (sp_client s b)" for b
    using assms(2,3) by (auto simp: same_pc_def)
  show ?thesis using assms(1) by (cases m) (simp_all add: started_def got_def results_def same)
qed

lemma collected_signalled: "collected pc \<Longrightarrow> signalled pc"
  by (cases pc) auto

lemma got_signal:
  assumes "got n i s" and "sp_client s c = Running ck l"
  shows "got n (i + 1) (s\<lparr>sp_main := m, sp_client := (sp_client s)(c := Sending ck l)\<rparr>)"
proof -
  have c: "c < n" using assms by (auto simp: got_def started_def not_le [symmetric] dest: spec [of _ c])
  let ?S = "{d. d < n \<and> signalled (sp_client s d)}"
  have "c \<notin> ?S" using assms(2) by simp
  moreover have "{d. d < n \<and> signalled (((sp_client s)(c := Sending ck l)) d)} = insert c ?S" using c by auto
  ultimately have "card {d. d < n \<and> signalled (((sp_client s)(c := Sending ck l)) d)} = i + 1"
    using assms(1) by (simp add: got_def)
  moreover have "card (insert c ?S) \<le> n" using c card_mono [of "{..<n}" "insert c ?S"] by auto
  then have "i + 1 \<le> n" using \<open>c \<notin> ?S\<close> assms(1) by (simp add: got_def)
  ultimately show ?thesis using assms c by (auto simp: got_def started_def)
qed

lemma got_all:
  assumes "got n n s" shows "results F n [] s"
proof -
  have "{c. c < n \<and> signalled (sp_client s c)} = {..<n}"
    using assms by (intro card_subset_eq) (auto simp: got_def)
  then have "\<forall>c < n. signalled (sp_client s c)" by blast
  then show ?thesis using assms by (simp add: results_def got_def)
qed

lemma results_collect:
  assumes "results F n rs s" and "length rs < n" and "sp_client s (length rs) = Sending ck l"
  shows "results F n (rs @ [fn_result F l]) (s\<lparr>sp_main := m, sp_client := (sp_client s)(length rs := Deleting ck l)\<rparr>)"
  using assms by (auto simp: results_def started_def nth_append less_Suc_eq)

lemma spawn_step_inv:
  assumes "spawn_step M F n s t" and "spawn_inv F n (sp_main s) s"
  shows "spawn_inv F n (sp_main t) t"
  using assms
proof cases
  case (spawn i)
  with assms(2) show ?thesis by (auto simp: started_def le_Suc_eq Suc_le_eq)
next
  case wake
  with assms(2) show ?thesis by (auto simp: got_def started_def dest: collected_signalled)
next
  case (signal i c ck l)
  with assms(2) got_signal show ?thesis by fastforce
next
  case signalled
  with assms(2) got_all [of n s] show ?thesis by (simp add: results_def started_def)
next
  case (collect rs ck l)
  with assms(2) results_collect show ?thesis by fastforce
next
  case (make c ck w)
  then show ?thesis using spawn_inv_client [OF assms(2), of t c] by (simp add: same_pc_def)
next
  case (run c ck l l' w)
  then show ?thesis using spawn_inv_client [OF assms(2), of t c] by (simp add: same_pc_def)
next
  case (body c ck l l' w)
  then show ?thesis using spawn_inv_client [OF assms(2), of t c] by (simp add: same_pc_def)
next
  case (delete c ck l)
  then show ?thesis using spawn_inv_client [OF assms(2), of t c] by (simp add: same_pc_def)
qed (use assms(2) in \<open>simp_all add: got_def started_def results_def\<close>)

lemma spawn_reach_inv: "spawn_reach M F n w0 s \<Longrightarrow> spawn_inv F n (sp_main s) s"
  by (induction rule: spawn_reach.induct) (auto simp: started_def intro: spawn_step_inv)

section \<open>Progress\<close>

text \<open>
  \<open>polls\<close>: the client function starts at its \<open>select\<close> and comes back to it; \<open>dist\<close> bounds the number of steps until then.
  \<open>work\<close> bounds what the clients can do while the caller waits in a send, \<open>main_left\<close> the steps of the caller.
\<close>

definition polls :: "('w, 'k, 'l) Fclnt \<Rightarrow> ('l \<Rightarrow> nat) \<Rightarrow> bool" where
  "polls F dist \<longleftrightarrow> (\<forall>c ck. dist (fn_start F c ck) = 0) \<and> (\<forall>l. fn_select F l = (dist l = 0)) \<and>
     (\<forall>c ck l w. 0 < dist l \<longrightarrow> dist (fst (fn_step F c ck l w)) < dist l)"

fun client_work :: "('l \<Rightarrow> nat) \<Rightarrow> ('k, 'l) client_pc \<Rightarrow> nat" where
  "client_work dist Unborn = 0"
| "client_work dist Born = 5"
| "client_work dist (Running ck l) = 4 + dist l"
| "client_work dist (Sending ck l) = 3"
| "client_work dist (Deleting ck l) = 2"
| "client_work dist (Gone l) = 1"

definition work :: "('l \<Rightarrow> nat) \<Rightarrow> nat \<Rightarrow> ('w, 'k, 'l) spawn_sys \<Rightarrow> nat" where
  "work dist n s = (\<Sum>c<n. client_work dist (sp_client s c))"

fun main_left :: "nat \<Rightarrow> main_pc \<Rightarrow> nat" where
  "main_left n (Spawning i) = (n - i) + (3 * n + 4)"
| "main_left n Sleeping = 3 * n + 3"
| "main_left n (Signalling i) = 2 * (n - i) + (n + 2)"
| "main_left n (Waiting i) = 2 * (n - i) + (n + 1)"
| "main_left n (Collecting rs) = (n - length rs) + 1"
| "main_left n (Finished rs) = 0"

lemma work_less:
  assumes "c < n" and "client_work dist pc < client_work dist (sp_client s c)" and "sp_client t = (sp_client s)(c := pc)"
  shows "work dist n t < work dist n s"
  unfolding work_def using assms by (intro sum_strict_mono_ex1) auto

lemma started_born: "started n s \<Longrightarrow> sp_client s c \<noteq> Unborn \<Longrightarrow> c < n"
  by (auto simp: started_def not_le [symmetric])

lemma waiting_work:
  assumes step: "spawn_step M F n s t" and m: "sp_main s = Waiting i" and inv: "spawn_inv F n (sp_main s) s" and polls: "polls F dist"
  shows "work dist n t < work dist n s"
proof -
  have born: "sp_client s c \<noteq> Unborn \<Longrightarrow> c < n" for c using inv m started_born by (auto simp: got_def)
  from step show ?thesis
  proof cases
    case (signal j c ck l)
    then show ?thesis by (intro work_less [of c n dist "Sending ck l"]) (simp_all add: born)
  next
    case (make c ck w)
    then show ?thesis using polls
      by (intro work_less [of c n dist "Running ck (fn_start F (int c) ck)"]) (simp_all add: born polls_def)
  next
    case (body c ck l l' w)
    then have "dist l' < dist l" using polls unfolding polls_def by (metis fst_conv neq0_conv)
    with body show ?thesis by (intro work_less [of c n dist "Running ck l'"]) (simp_all add: born)
  next
    case (delete c ck l)
    then show ?thesis by (intro work_less [of c n dist "Gone l"]) (simp_all add: born)
  qed (use m in auto)
qed

lemma waiting_steps:
  assumes "sp_main s = Waiting i" and "spawn_inv F n (sp_main s) s"
  shows "\<exists>t. spawn_step M F n s t"
proof -
  have "card {c. c < n \<and> signalled (sp_client s c)} < n" "started n s" using assms by (auto simp: got_def)
  then obtain c where c: "c < n" "\<not> signalled (sp_client s c)"
    by (metis (mono_tags, lifting) card_Collect_less_nat less_irrefl mem_Collect_eq Collect_cong)
  with \<open>started n s\<close> have "sp_client s c \<noteq> Unborn" by (simp add: started_def)
  with c(2) show ?thesis
  proof (cases "sp_client s c")
    case Born
    obtain ck w where "mk_MakeClerk M (sp_world s) = (ck, w)" by fastforce
    with Born show ?thesis by (blast intro: spawn_step.make)
  next
    case (Running ck l)
    obtain l' w where "fn_step F (int c) ck l (sp_world s) = (l', w)" by fastforce
    with Running assms(1) show ?thesis by (cases "fn_select F l") (blast intro: spawn_step.signal spawn_step.body)+
  qed auto
qed

lemma main_moves:
  assumes inv: "spawn_inv F n (sp_main s) s" and "\<not> is_waiting (sp_main s)" and "\<forall>rs. sp_main s \<noteq> Finished rs"
  shows "\<exists>t. spawn_step M F n s t \<and> sp_main t \<noteq> sp_main s"
proof (cases "sp_main s")
  case (Spawning i)
  then consider "i < n" | "i = n" using inv by force
  then show ?thesis using Spawning by cases (use spawn_step.spawn [of s i n] spawn_step.sleep [of s n] in force)+
next
  case Sleeping
  from spawn_step.wake [OF this] Sleeping show ?thesis by force
next
  case (Signalling i)
  then consider "i < n" | "i = n" using inv by (force simp: got_def)
  then show ?thesis using Signalling by cases (use spawn_step.send [of s i n] spawn_step.signalled [of s n] in force)+
next
  case (Collecting rs)
  then consider "length rs < n" | "length rs = n" using inv by (force simp: results_def)
  then show ?thesis
  proof cases
    case 1
    then have "signalled (sp_client s (length rs))" "\<not> collected (sp_client s (length rs))" using inv Collecting by (auto simp: results_def)
    then obtain ck l where "sp_client s (length rs) = Sending ck l" by (cases "sp_client s (length rs)") auto
    from spawn_step.collect [OF Collecting 1 this] Collecting show ?thesis by force
  next
    case 2
    from spawn_step.finish [OF Collecting 2] Collecting show ?thesis by force
  qed
qed (use assms in auto)

lemma main_left_less:
  assumes "spawn_step M F n s t" and "spawn_inv F n (sp_main s) s"
  shows "sp_main t = sp_main s \<or> main_left n (sp_main t) < main_left n (sp_main s)"
  using assms by cases (auto simp: got_def)

section \<open>Properties\<close>

text \<open>
  C27: \<open>SpawnClientsAndWait\<close> returns, with the clients' results. In every execution, for clients that keep coming back to
  their \<open>select\<close>: when it has returned, the list has one result per client, at the client's place it is what
  the client returned, and no client is still working, so nothing but deletions of clerks can follow.
  Before that the caller can take a step of its own unless it waits in a send on \<open>done\<close>; and while it waits, some
  client can take a step, and every step brings the bounded work of the clients down, so that one of them takes the
  signal. The caller itself has a bounded number of steps to go, and no step of a client adds to it.
\<close>

theorem SpawnClientsAndWait_returns:
  assumes reach: "spawn_reach M F n w0 s" and polls: "polls F dist"
  shows "(\<forall>rs. sp_main s = Finished rs \<longrightarrow> length rs = n \<and>
      (\<forall>c < n. collected (sp_client s c) \<and> outcome F (sp_client s c) = Some (rs ! c)) \<and> (\<forall>c \<ge> n. sp_client s c = Unborn)) \<and>
    ((\<exists>i. sp_main s = Waiting i) \<longrightarrow> (\<exists>t. spawn_step M F n s t) \<and> (\<forall>t. spawn_step M F n s t \<longrightarrow> work dist n t < work dist n s)) \<and>
    (\<not> is_waiting (sp_main s) \<and> (\<forall>rs. sp_main s \<noteq> Finished rs) \<longrightarrow> (\<exists>t. spawn_step M F n s t \<and> sp_main t \<noteq> sp_main s)) \<and>
    (\<forall>t. spawn_step M F n s t \<longrightarrow> sp_main t = sp_main s \<or> main_left n (sp_main t) < main_left n (sp_main s))"
proof -
  have inv: "spawn_inv F n (sp_main s) s" by (rule spawn_reach_inv [OF reach])
  have "length rs = n \<and> (\<forall>c < n. collected (sp_client s c) \<and> outcome F (sp_client s c) = Some (rs ! c)) \<and> (\<forall>c \<ge> n. sp_client s c = Unborn)"
    if "sp_main s = Finished rs" for rs
    using inv that by (simp add: results_def started_def)
  then show ?thesis
    using waiting_steps [OF _ inv] waiting_work [OF _ _ inv polls] main_moves [OF inv] main_left_less [OF _ inv] by blast
qed

text \<open>A client that counts its rounds, waiting for its signal.\<close>

definition counting :: "(nat, nat, int \<times> bool) Fclnt" where
  "counting = \<lparr>fn_start = (\<lambda>c ck. (0, True)),
     fn_step = (\<lambda>c ck (k, at) w. if at then ((k, False), w) else ((k + 1, True), w + 1)),
     fn_select = snd, fn_result = (\<lambda>(k, at). \<lparr>Nok = k, Nmaybe = 0\<rparr>)\<rparr>"

definition clerk_counter :: "(nat, nat) IClerkMaker" where
  "clerk_counter = \<lparr>mk_MakeClerk = (\<lambda>w. (w, w + 1)), mk_DeleteClerk = (\<lambda>ck w. w)\<rparr>"

theorem SpawnClientsAndWait_returns_witness:
  "let s = \<lparr>sp_main = Waiting 0, sp_client = (\<lambda>c. Unborn)(0 := Running 0 (0, False)), sp_world = 1\<rparr>
   in spawn_reach clerk_counter counting 1 0 s \<and> (\<exists>t. spawn_step clerk_counter counting 1 s t) \<and>
     (\<forall>t. spawn_step clerk_counter counting 1 s t \<longrightarrow> work (\<lambda>(k, at). if at then 0 else 1) 1 t < 5)"
proof -
  let ?R = "spawn_reach clerk_counter counting 1 0" and ?c = "\<lambda>pc. (\<lambda>c. Unborn)(0 := pc) :: nat \<Rightarrow> (nat, int \<times> bool) client_pc"
  let ?s = "\<lambda>m pc w. \<lparr>sp_main = m, sp_client = ?c pc, sp_world = w\<rparr> :: (nat, nat, int \<times> bool) spawn_sys"
  have "?R \<lparr>sp_main = Spawning 0, sp_client = (\<lambda>c. Unborn), sp_world = 0\<rparr>" by (rule spawn_reach.start)
  from spawn_reach.step [OF this spawn_step.spawn [of _ 0]] have "?R (?s (Spawning 1) Born 0)" by simp
  from spawn_reach.step [OF this spawn_step.sleep] have "?R (?s Sleeping Born 0)" by simp
  from spawn_reach.step [OF this spawn_step.make [of _ 0 _ 0 1]]
  have "?R (?s Sleeping (Running 0 (0, True)) 1)" by (simp add: clerk_counter_def counting_def)
  from spawn_reach.step [OF this spawn_step.run [of _ 0 0 "(0, True)" _ "(0, False)" 1]]
  have "?R (?s Sleeping (Running 0 (0, False)) 1)" by (simp add: counting_def)
  from spawn_reach.step [OF this spawn_step.wake] have "?R (?s (Signalling 0) (Running 0 (0, False)) 1)" by simp
  from spawn_reach.step [OF this spawn_step.send [of _ 0]] have r: "?R (?s (Waiting 0) (Running 0 (0, False)) 1)" by simp
  have "polls counting (\<lambda>(k, at). if at then 0 else 1)" by (auto simp: polls_def counting_def)
  from SpawnClientsAndWait_returns [OF r this] r show ?thesis by (simp add: work_def Let_def)
qed

end
