(* ===== verification/TestRun.thy ===== *)
theory TestRun
  imports KvChecked KvRaft Spawn
begin

text \<open>
  The life of a test around its body: the time limit, \<open>End\<close>, \<open>Fatalf\<close> and \<open>Cleanup\<close> of \<open>tester1/config.go\<close> with the
  visualisation that \<open>Annotation.cleanup\<close> of \<open>tester1/annotation.go\<close> writes, the \<open>Cleanup\<close> methods of the labs, the
  \<open>Partitioner\<close> of \<open>kvtest1/kvtest.go\<close>, and the logging functions \<open>Get\<close> and \<open>Put\<close> of the package \<open>kvtest1\<close>.
\<close>

section \<open>The state of a running test\<close>

text \<open>
  \<open>tr_failed\<close> is what \<open>testing.T.Failed\<close> answers; \<open>t.Fatal\<close> and \<open>t.FailNow\<close> set it and leave the test, which is the
  outcome \<open>Fatal\<close> beside the new state. \<open>tr_passed\<close> collects the numbers of the line that \<open>End\<close> prints. Times are
  in seconds and \<open>now\<close> is the time at which an operation reads the clock.
\<close>

record ('w, 's) test_run =
  tr_Config :: "'s Config"
  tr_net :: "'w Tester"
  tr_glob :: "globals \<times> vis_files"
  tr_failed :: bool
  tr_begin :: int
  tr_t0 :: int
  tr_passed :: "(int \<times> int \<times> int \<times> 32 word) list"

definition run_Begin :: "int \<Rightarrow> ('w, 's) test_run \<Rightarrow> ('w, 's) test_run" where
  "run_Begin now r = r\<lparr>tr_Config := Config_Begin (tr_Config r) (tr_net r), tr_t0 := now\<rparr>"

definition run_Op :: "('w, 's) test_run \<Rightarrow> ('w, 's) test_run" where
  "run_Op r = r\<lparr>tr_Config := Config_Op (tr_Config r)\<rparr>"

definition Config_IsReliable :: "'w Tester \<Rightarrow> bool" where
  "Config_IsReliable t = IsReliable (tnet t)"

definition Config_Group :: "int \<Rightarrow> 's Config \<Rightarrow> 's ServerGrp option" where
  "Config_Group gid cfg = lookupGroup gid (Groups cfg)"

definition RpcTotal :: "'w Tester \<Rightarrow> int" where
  "RpcTotal t = GetTotalCount (tnet t)"

definition BytesTotal :: "'w Tester \<Rightarrow> int" where
  "BytesTotal t = GetTotalBytes (tnet t)"

text \<open>An operation that may leave the test returns its outcome beside the state.\<close>

definition run_then :: "unit go \<times> 'a \<Rightarrow> ('a \<Rightarrow> unit go \<times> 'a) \<Rightarrow> unit go \<times> 'a" where
  "run_then x f = (case x of (Ret u, r) \<Rightarrow> f r | (e, r) \<Rightarrow> (e, r))"

definition CheckTimeout :: "int \<Rightarrow> ('w, 's) test_run \<Rightarrow> unit go \<times> ('w, 's) test_run" where
  "CheckTimeout now r =
     (if \<not> tr_failed r \<and> now - tr_begin r > 120 then (Fatal, r\<lparr>tr_failed := True\<rparr>) else (Ret (), r))"

definition Config_End :: "int \<Rightarrow> ('w, 's) test_run \<Rightarrow> unit go \<times> ('w, 's) test_run" where
  "Config_End now r =
     run_then (CheckTimeout now r) (\<lambda>r.
       if tr_failed r then (Ret (), r)
       else (case Config_Group GRP0 (tr_Config r) of
               None \<Rightarrow> (Panic, r)
             | Some sg \<Rightarrow>
                 (Ret (), r\<lparr>tr_passed := tr_passed r @
                    [(now - tr_t0 r, sg_N sg, RpcTotal (tr_net r) - rpcs0 (tr_Config r), cfg_ops (tr_Config r))]\<rparr>)))"

text \<open>
  \<open>Fatalf\<close>: \<open>callers\<close> are the file and line of the calling frames, of which fifty are kept; those in a file whose name
  contains \<open>test.go\<close> are printed.
\<close>

fun contains :: "string \<Rightarrow> string \<Rightarrow> bool" where
  "contains pat [] = (pat = [])"
| "contains pat (c # cs) = (take (length pat) (c # cs) = pat \<or> contains pat cs)"

definition test_frames :: "(string \<times> int) list \<Rightarrow> (string \<times> int) list" where
  "test_frames callers = filter (\<lambda>(file, line). contains ''test.go'' file) (take 50 callers)"

definition Config_Fatalf ::
  "(string \<times> int) list \<Rightarrow> ('w, 's) test_run \<Rightarrow> (string \<times> int) list \<times> unit go \<times> ('w, 's) test_run" where
  "Config_Fatalf callers r =
     (if callers = [] then ([], Panic, r) else (test_frames callers, Fatal, r\<lparr>tr_failed := True\<rparr>))"

section \<open>Cleaning up\<close>

text \<open>
  \<open>cleanup_file\<close> is the whole of \<open>Annotation.cleanup\<close>: what it decides to write, and the file. \<open>opened\<close> says whether the
  file can be opened. \<open>on_interrupt\<close> is the handler of SIGINT, after which the process exits.
\<close>

definition cleanup_file ::
  "(string \<Rightarrow> bool) \<Rightarrow> string \<Rightarrow> string \<Rightarrow> int \<Rightarrow> int \<Rightarrow> bool \<Rightarrow> string \<Rightarrow> globals \<times> vis_files \<Rightarrow> globals \<times> vis_files" where
  "cleanup_file opened vis fpath t t' hasFailed fin st =
     (case st of (g, files) \<Rightarrow>
        case cleanup vis t t' hasFailed fin (annotation g) of (out, an) \<Rightarrow>
          (g\<lparr>annotation := an\<rparr>,
           case out of None \<Rightarrow> files | Some as \<Rightarrow> if opened fpath then files @ [(fpath, as)] else files))"

definition on_interrupt ::
  "(string \<Rightarrow> bool) \<Rightarrow> string \<Rightarrow> string \<Rightarrow> int \<Rightarrow> int \<Rightarrow> globals \<times> vis_files \<Rightarrow> unit go \<times> globals \<times> vis_files" where
  "on_interrupt opened vis fpath t t' st = (Fatal, cleanup_file opened vis fpath t t' True ''interrupted'' st)"

text \<open>\<open>Config.Cleanup\<close>. A panic in the clean-up of the clerks or groups ends the process.\<close>

definition run_Cleanup ::
  "('w, 's) program \<Rightarrow> (string \<Rightarrow> bool) \<Rightarrow> string \<Rightarrow> string \<Rightarrow> int \<Rightarrow> int \<Rightarrow> int \<Rightarrow> ('w, 's) test_run \<Rightarrow> unit go \<times> ('w, 's) test_run" where
  "run_Cleanup pr opened vis fpath t t' now r =
     (case Config_Cleanup pr (tr_Config r) (tr_net r) of
        Ret (cfg, n) \<Rightarrow>
          (let r = r\<lparr>tr_Config := cfg, tr_net := n,
                 tr_glob := (if tr_failed r then cleanup_file opened vis fpath t t' True ''test failed'' (tr_glob r)
                             else cleanup_file opened vis fpath t t' False ''test passed'' (tr_glob r))\<rparr>
           in CheckTimeout now r)
      | Panic \<Rightarrow> (Panic, r) | Fatal \<Rightarrow> (Fatal, r) | Block \<Rightarrow> (Block, r))"

text \<open>\<open>Cleanup\<close> of \<open>kvtest1\<close>, and the \<open>cleanup\<close> of \<open>raft1\<close> and \<open>kvraft1/rsm\<close>, which look at the clock once more.\<close>

definition kt_Cleanup ::
  "('w, 's) program \<Rightarrow> (string \<Rightarrow> bool) \<Rightarrow> string \<Rightarrow> string \<Rightarrow> int \<Rightarrow> int \<Rightarrow> int \<Rightarrow> ('w, 's) test_run \<Rightarrow> unit go \<times> ('w, 's) test_run" where
  "kt_Cleanup pr opened vis fpath t t' now r = run_then (Config_End now r) (run_Cleanup pr opened vis fpath t t' now)"

definition rsm_cleanup ::
  "('w, 's) program \<Rightarrow> (string \<Rightarrow> bool) \<Rightarrow> string \<Rightarrow> string \<Rightarrow> int \<Rightarrow> int \<Rightarrow> int \<Rightarrow> ('w, 's) test_run \<Rightarrow> unit go \<times> ('w, 's) test_run" where
  "rsm_cleanup pr opened vis fpath t t' now r = run_then (kt_Cleanup pr opened vis fpath t t' now r) (CheckTimeout now)"

definition raft_restart ::
  "(nat \<Rightarrow> string) \<Rightarrow> ('w, 's) program \<Rightarrow> int \<Rightarrow> 's Config \<Rightarrow> 'w Tester \<Rightarrow> ('s Config \<times> 'w Tester) go" where
  "raft_restart names pr i cfg t =
     go_bind (on_group GRP0 (StartServer names pr i) cfg t) (\<lambda>(cfg, t). on_group GRP0 sg_ConnectAll cfg t)"

section \<open>Logging functions and the partitioner\<close>

text \<open>
  \<open>Get\<close> and \<open>Put\<close> of the package log to the log they are given (\<open>None\<close> is nil) and count the operation in the configuration.
  \<open>start\<close> and \<open>fin\<close> are the readings of the clock before and after the call.
\<close>

definition pkg_Get ::
  "int \<Rightarrow> int \<Rightarrow> 's Config \<Rightarrow> 'w IKVClerk \<Rightarrow> string \<Rightarrow> Operation list option \<Rightarrow> int \<Rightarrow> 'w \<Rightarrow>
   (string \<times> Tversion \<times> Err) \<times> 's Config \<times> Operation list option \<times> 'w" where
  "pkg_Get start fin cfg ck key log cli w =
     (case ck_Get ck key w of ((val, ver, err), w) \<Rightarrow>
        ((val, ver, err), Config_Op cfg,
         (case log of None \<Rightarrow> None | Some ops \<Rightarrow> OpLog_Append
            \<lparr>op_Input = \<lparr>in_Op = 0, in_Key = key, in_Value = [], in_Version = 0\<rparr>,
             op_Output = \<lparr>out_Value = val, out_Version = ver, out_Err = err_string err\<rparr>,
             op_Call = start, op_Return = fin, op_ClientId = cli\<rparr> (Some ops)), w))"

definition pkg_Put ::
  "int \<Rightarrow> int \<Rightarrow> 's Config \<Rightarrow> 'w IKVClerk \<Rightarrow> string \<Rightarrow> string \<Rightarrow> Tversion \<Rightarrow> Operation list option \<Rightarrow> int \<Rightarrow> 'w \<Rightarrow>
   Err \<times> 's Config \<times> Operation list option \<times> 'w" where
  "pkg_Put start fin cfg ck key value version log cli w =
     (case ck_Put ck key value version w of (err, w) \<Rightarrow>
        (err, Config_Op cfg,
         (case log of None \<Rightarrow> None | Some ops \<Rightarrow> OpLog_Append
            \<lparr>op_Input = \<lparr>in_Op = 1, in_Key = key, in_Value = value, in_Version = version\<rparr>,
             op_Output = \<lparr>out_Value = [], out_Version = 0, out_Err = err_string err\<rparr>,
             op_Call = start, op_Return = fin, op_ClientId = cli\<rparr> (Some ops)), w))"

definition SpreadPuts ::
  "(nat \<Rightarrow> int) \<Rightarrow> 'w IKVClerk \<Rightarrow> nat \<Rightarrow> (nat \<Rightarrow> nat \<Rightarrow> string) \<Rightarrow> 'w kv_test \<Rightarrow> ((string list \<times> string list) \<times> 'w kv_test) go" where
  "SpreadPuts time ck n randstring = SpreadPutsSize time ck n (randstring 20)"

text \<open>
  \<open>Partitioner\<close>: \<open>rnds\<close> has the random numbers and the time of each round that begins before the test sends on the
  channel; then the goroutine sends its answer, which is the result \<open>True\<close>.
\<close>

fun Partitioner ::
  "int \<Rightarrow> ((nat \<Rightarrow> nat) \<times> int) list \<Rightarrow> 's Config \<Rightarrow> 'w Tester \<Rightarrow> globals \<Rightarrow> (bool \<times> 's Config \<times> 'w Tester \<times> globals) go" where
  "Partitioner gid [] cfg t g = Ret (True, cfg, t, g)"
| "Partitioner gid ((rnd, now) # rnds) cfg t g =
     (case Config_Group gid cfg of
        None \<Rightarrow> Panic
      | Some sg \<Rightarrow>
          go_bind (on_group gid (Partitioner_round rnd) cfg t) (\<lambda>(cfg, t).
            let n = nat (sg_N sg)
            in Partitioner gid rnds cfg t (AnnotateTwoPartitions now (Partitioner_side rnd n 0) (Partitioner_side rnd n 1) g)))"
section \<open>What a test leaves behind\<close>

text \<open>
  Of a failed check the file with the operations stays: the clean-up that follows writes nothing. Of a passed check
  under \<open>VIS_ENABLE=always\<close> the file is the one of the clean-up, without operations.
\<close>

lemma failed_check_file_kept:
  assumes "check opLog = Illegal" and "opened fpath" and visualized and "vis \<noteq> ''never''"
    and "checkPorcupine check opened visualized t t' vis fpath opLog (g, files) = (res, g', files')"
  shows "\<exists>as g''. files' = files @ [(fpath, as)] \<and> cleanup_file opened vis fpath u u' b fin (g', files') = (g'', files')"
proof -
  obtain as where "files' = files @ [(fpath, as)]" "GetAnnotationFinalized g'"
    using failed_written [of check opLog opened fpath visualized vis t t' g files] assms by auto
  then show ?thesis by (simp add: cleanup_file_def cleanup_def GetAnnotationFinalized_def)
qed

lemma passed_check_file:
  assumes "check opLog \<noteq> Illegal" and "\<not> GetAnnotationFinalized g" and "opened fpath" and "annotations (annotation g) \<noteq> []"
    and "checkPorcupine check opened visualized t t' ''always'' fpath opLog (g, files) = (res, g', files')"
  shows "files' = files \<and> (\<exists>as g''. cleanup_file opened ''always'' fpath u u' False ''test passed'' (g', files') =
    (g'', files @ [(fpath, as @ [end_annotation u' ''test passed''])]))"
proof -
  have "g' = g" "files' = files" using passed_not_written [of check opLog g] assms(1,2,5) by simp_all
  with assms show ?thesis by (simp add: cleanup_file_def cleanup_def finalize_def GetAnnotationFinalized_def)
qed

text \<open>
  \<open>End\<close> of a test that has not failed and is within its two minutes reports the RPCs and the operations since \<open>Begin\<close>;
  a test that has failed reports nothing; one that took too long fails there.
\<close>

lemma ops_counted: "cfg_ops (tr_Config ((run_Op ^^ k) (run_Begin now r))) = of_nat k"
  by (induction k) (simp_all add: run_Op_def run_Begin_def Config_Op_def Config_Begin_def)

lemma End_within:
  assumes "\<not> tr_failed r" and "now - tr_begin r \<le> 120" and "Config_Group GRP0 (tr_Config r) = Some sg"
  shows "Config_End now r = (Ret (), r\<lparr>tr_passed := tr_passed r @
    [(now - tr_t0 r, sg_N sg, RpcTotal (tr_net r) - rpcs0 (tr_Config r), cfg_ops (tr_Config r))]\<rparr>)"
  using assms by (simp add: Config_End_def run_then_def CheckTimeout_def)

lemma End_failed:
  assumes "tr_failed r" shows "Config_End now r = (Ret (), r)"
  using assms by (simp add: Config_End_def run_then_def CheckTimeout_def)

lemma End_too_long:
  assumes "\<not> tr_failed r" and "120 < now - tr_begin r"
  shows "kt_Cleanup pr opened vis fpath t t' now r = (Fatal, r\<lparr>tr_failed := True\<rparr>)"
  using assms by (simp add: kt_Cleanup_def Config_End_def run_then_def CheckTimeout_def)

text \<open>The functions of the package are the methods of the test on its own configuration and log.\<close>

lemma pkg_Get_is_test_Get:
  assumes "test_Get time ck key cli ts = (r, ts')" and "cfg_ops cfg = kt_ops ts"
  shows "\<exists>cfg'. pkg_Get (time (kt_reads ts)) (time (kt_reads ts + 1)) cfg ck key (kt_oplog ts) cli (kt_world ts) =
    (r, cfg', kt_oplog ts', kt_world ts') \<and> cfg_ops cfg' = kt_ops ts'"
  using assms by (auto simp: pkg_Get_def test_Get_def Config_Op_def OpLog_Append_def split: prod.splits option.splits)

lemma pkg_Put_is_test_Put:
  assumes "test_Put time ck key value version cli ts = (r, ts')" and "cfg_ops cfg = kt_ops ts"
  shows "\<exists>cfg'. pkg_Put (time (kt_reads ts)) (time (kt_reads ts + 1)) cfg ck key value version (kt_oplog ts) cli (kt_world ts) =
    (r, cfg', kt_oplog ts', kt_world ts') \<and> cfg_ops cfg' = kt_ops ts'"
  using assms by (auto simp: pkg_Put_def test_Put_def Config_Op_def OpLog_Append_def split: prod.splits option.splits)

text \<open>
  When the partitioner stops, the group is divided as in its last round: exactly the ends between servers of one
  side are enabled.
\<close>

lemma Partitioner_last:
  assumes "Config_Group gid cfg = Some sg" and "sg_wf sg" and "rnds \<noteq> []"
  shows "\<exists>cfg' t' g' sg'. Partitioner gid rnds cfg t g = Ret (True, cfg', t', g') \<and> Config_Group gid cfg' = Some sg' \<and> sg_wf sg' \<and>
    sg_N sg' = sg_N sg \<and> (\<forall>x y. member sg' x \<and> member sg' y \<longrightarrow>
      is_enabled (endname sg' x y) (tnet t') = (fst (last rnds) (nat x) mod 2 = fst (last rnds) (nat y) mod 2))"
  using assms
proof (induction rnds arbitrary: cfg t g sg)
  case (Cons p rnds)
  obtain rnd now where p: "p = (rnd, now)" by fastforce
  obtain sg1 t1 where sg1: "Partitioner_round rnd sg t = Ret (sg1, t1)" "sg_wf sg1" "srvs sg1 = srvs sg"
      "\<forall>x y. member sg x \<and> member sg y \<longrightarrow> is_enabled (endname sg1 x y) (tnet t1) = (rnd (nat x) mod 2 = rnd (nat y) mod 2)"
    using Partitioner_separates [OF Cons.prems(2), of rnd t] by blast
  let ?cfg = "cfg\<lparr>Groups := AList.update gid sg1 (Groups cfg)\<rparr>" and ?side = "Partitioner_side rnd (nat (sg_N sg))"
  have run: "Partitioner gid (p # rnds) cfg t g = Partitioner gid rnds ?cfg t1 (AnnotateTwoPartitions now (?side 0) (?side 1) g)"
    and grp: "Config_Group gid ?cfg = Some sg1" and N: "sg_N sg1 = sg_N sg"
    using p Cons.prems(1) sg1 by (simp_all add: on_group_def Config_Group_def lookupGroup_def update_conv' sg_N_def Let_def)
  show ?case
  proof (cases "rnds = []")
    case True
    then show ?thesis using run grp sg1 N p by (simp add: member_def)
  next
    case False
    from Cons.IH [OF grp sg1(2) False, of t1 "AnnotateTwoPartitions now (?side 0) (?side 1) g"]
    show ?thesis unfolding run N using False by simp
  qed
qed simp

end
