(* ===== verification/ShardCfg.thy ===== *)
theory ShardCfg
  imports Prelude
begin

text \<open>
  The shard configurations of \<open>shardkv1/shardcfg/shardcfg.go\<close>: which replica group serves which of
  the twelve shards. All operations of the file but the JSON \<open>String\<close>/\<open>FromString\<close> are here. The
  main results: the rebalancing loop terminates and balances, what joins and leaves leave behind
  passes the file's own \<open>CheckConfig\<close>, and every key has a shard.
\<close>

section \<open>Configurations\<close>

type_synonym Tgid = int
type_synonym Tnum = int
type_synonym Tshid = int

definition NShards :: nat where
  "NShards = 12"

record ShardConfig =
  Num :: Tnum
  Shards :: "Tgid list"
  Groups :: "(Tgid, string list) gomap"

text \<open>\<open>Tshid(h.Sum32()) % NShards\<close>: a 64-bit int holds every 32-bit hash, so it is not negative.\<close>

definition Key2Shard :: "string \<Rightarrow> Tshid" where
  "Key2Shard key = int (unat (fnv32a key)) mod int NShards"

definition MakeShardConfig :: ShardConfig where
  "MakeShardConfig = \<lparr>Num = 0, Shards = replicate NShards 0, Groups = []\<rparr>"

definition ShardConfig_Copy :: "ShardConfig \<Rightarrow> ShardConfig" where
  "ShardConfig_Copy cfg =
     MakeShardConfig\<lparr>Num := Num cfg, Shards := Shards cfg,
       Groups := foldl (\<lambda>gs (k, srvs). AList.update k srvs gs) [] (Groups cfg)\<rparr>"

section \<open>Analysing and rebalancing\<close>

text \<open>\<open>counts[g] += 1\<close> for every shard; a missing entry of a Go map reads as 0.\<close>

definition shard_counts :: "Tgid list \<Rightarrow> Tgid \<Rightarrow> int" where
  "shard_counts shards = foldl (\<lambda>counts g. counts(g := counts g + 1)) (\<lambda>g. 0) shards"

fun analyze_group :: "(Tgid \<Rightarrow> int) \<Rightarrow> Tgid \<times> int \<times> Tgid \<times> int \<Rightarrow> Tgid \<Rightarrow> Tgid \<times> int \<times> Tgid \<times> int" where
  "analyze_group counts (mg, mn, lg, ln) g =
     (let (lg, ln) = (if counts g < ln then (g, counts g) else (lg, ln));
          (mg, mn) = (if counts g > mn then (g, counts g) else (mg, mn))
      in (mg, mn, lg, ln))"

definition analyze :: "ShardConfig \<Rightarrow> Tgid \<times> int \<times> Tgid \<times> int" where
  "analyze c =
     (let counts = shard_counts (Shards c);
          groups = sort (map fst (Groups c))
      in foldl (analyze_group counts) (-1, -1, -1, 257) groups)"

definition least :: "ShardConfig \<Rightarrow> Tgid" where
  "least c = (case analyze c of (mg, mn, lg, ln) \<Rightarrow> lg)"

text \<open>
  The first loop of \<open>Rebalance\<close>: \<open>range\<close> reads the entries of a copy of the array, and the entry
  \<open>s\<close> is not written before its own iteration, so reading the current array is the same.
\<close>

definition assign_shard :: "ShardConfig \<Rightarrow> nat \<Rightarrow> ShardConfig" where
  "assign_shard c s =
     (if map_of (Groups c) (Shards c ! s) = None
      then c\<lparr>Shards := (Shards c)[s := least c]\<rparr> else c)"

definition assign_unassigned :: "ShardConfig \<Rightarrow> ShardConfig" where
  "assign_unassigned c = foldl assign_shard c [0..<length (Shards c)]"

fun move_first :: "Tgid \<Rightarrow> Tgid \<Rightarrow> Tgid list \<Rightarrow> Tgid list" where
  "move_first mg lg [] = []"
| "move_first mg lg (g # gs) = (if g = mg then lg # gs else g # move_first mg lg gs)"

text \<open>The second loop; \<open>None\<close> says that it does not end.\<close>

partial_function (option) balance_loop :: "ShardConfig \<Rightarrow> ShardConfig option" where
  "balance_loop c =
     (case analyze c of (mg, mn, lg, ln) \<Rightarrow>
        if mn < ln + 2 then Some c
        else balance_loop (c\<lparr>Shards := move_first mg lg (Shards c)\<rparr>))"

definition Rebalance :: "ShardConfig \<Rightarrow> ShardConfig option" where
  "Rebalance c =
     (if length (Groups c) < 1 then Some (c\<lparr>Shards := map (\<lambda>s. 0) (Shards c)\<rparr>)
      else balance_loop (assign_unassigned c))"

section \<open>Joining and leaving\<close>

text \<open>
  The argument of \<open>Join\<close> is a Go map in the order in which \<open>range\<close> visits it. A group that is
  already there makes \<open>Join\<close> return \<open>false\<close> at once, with the groups visited before it added.
\<close>

definition shares_server :: "string list \<Rightarrow> (Tgid, string list) gomap \<Rightarrow> bool" where
  "shares_server servers gs \<longleftrightarrow> (\<exists>(xgid, xservers) \<in> set gs. \<exists>s1 \<in> set xservers. s1 \<in> set servers)"

fun Join_loop :: "ShardConfig \<Rightarrow> bool \<Rightarrow> (Tgid, string list) gomap \<Rightarrow> (ShardConfig \<times> bool) go" where
  "Join_loop cfg changed [] =
     (if changed = False then Fatal else Ret (cfg\<lparr>Num := Num cfg + 1\<rparr>, True))"
| "Join_loop cfg changed ((gid, servers) # rest) =
     (if map_of (Groups cfg) gid \<noteq> None then Ret (cfg, False)
      else if shares_server servers (Groups cfg) then Fatal
      else Join_loop (cfg\<lparr>Groups := AList.update gid servers (Groups cfg)\<rparr>) True rest)"

definition Join :: "ShardConfig \<Rightarrow> (Tgid, string list) gomap \<Rightarrow> (ShardConfig \<times> bool) go" where
  "Join cfg servers = Join_loop cfg False servers"

fun Leave_loop :: "ShardConfig \<Rightarrow> bool \<Rightarrow> Tgid list \<Rightarrow> (ShardConfig \<times> bool) go" where
  "Leave_loop cfg changed [] =
     (if changed = False then Fatal else Ret (cfg\<lparr>Num := Num cfg + 1\<rparr>, True))"
| "Leave_loop cfg changed (gid # rest) =
     (if map_of (Groups cfg) gid = None then Ret (cfg, False)
      else Leave_loop (cfg\<lparr>Groups := AList.delete gid (Groups cfg)\<rparr>) True rest)"

definition Leave :: "ShardConfig \<Rightarrow> Tgid list \<Rightarrow> (ShardConfig \<times> bool) go" where
  "Leave cfg gids = Leave_loop cfg False gids"

definition then_Rebalance :: "(ShardConfig \<times> bool) go \<Rightarrow> (ShardConfig \<times> bool) go" where
  "then_Rebalance m =
     go_bind m (\<lambda>(cfg, ok).
       if \<not> ok then Ret (cfg, False)
       else case Rebalance cfg of None \<Rightarrow> Block | Some cfg' \<Rightarrow> Ret (cfg', True))"

definition JoinBalance :: "ShardConfig \<Rightarrow> (Tgid, string list) gomap \<Rightarrow> (ShardConfig \<times> bool) go" where
  "JoinBalance cfg servers = then_Rebalance (Join cfg servers)"

definition LeaveBalance :: "ShardConfig \<Rightarrow> Tgid list \<Rightarrow> (ShardConfig \<times> bool) go" where
  "LeaveBalance cfg gids = then_Rebalance (Leave cfg gids)"

section \<open>Queries\<close>

definition GidServers :: "ShardConfig \<Rightarrow> Tshid \<Rightarrow> (Tgid \<times> string list \<times> bool) go" where
  "GidServers cfg sh =
     (if 0 \<le> sh \<and> nat sh < length (Shards cfg)
      then (let gid = Shards cfg ! nat sh
            in case map_of (Groups cfg) gid of
                 Some srvs \<Rightarrow> Ret (gid, srvs, True)
               | None \<Rightarrow> Ret (gid, [], False))
      else Panic)"

definition IsMember :: "ShardConfig \<Rightarrow> Tgid \<Rightarrow> bool" where
  "IsMember cfg gid \<longleftrightarrow> (\<exists>g \<in> set (Shards cfg). g = gid)"

text \<open>The test oracle of the file; \<open>Fatal\<close> is \<open>t.Fatalf\<close>.\<close>

definition CheckConfig :: "ShardConfig \<Rightarrow> Tgid list \<Rightarrow> unit go" where
  "CheckConfig cfg groups =
     (if length (Groups cfg) \<noteq> length groups then Fatal
      else if \<exists>g \<in> set groups. map_of (Groups cfg) g = None then Fatal
      else if length groups > 0 \<and> (\<exists>g \<in> set (Shards cfg). map_of (Groups cfg) g = None) then Fatal
      else (let counts = shard_counts (Shards cfg);
                (mx, mn) = foldl (\<lambda>(mx, mn) (g, srvs).
                  ((if counts g > mx then counts g else mx),
                   (if counts g < mn then counts g else mn))) (0, 257) (Groups cfg)
            in if mx > mn + 1 then Fatal else Ret ()))"

section \<open>Counting shards\<close>

lemma shard_counts_foldl:
  "foldl (\<lambda>counts g. counts(g := counts g + 1)) m shards h = m h + int (count_list shards h)"
  by (induction shards arbitrary: m) auto

lemma shard_counts_eq [simp]: "shard_counts shards g = int (count_list shards g)"
  by (simp add: shard_counts_def shard_counts_foldl)

lemma count_list_length: "count_list xs x \<le> length xs"
  by (induction xs) auto

lemma count_move_first:
  assumes "mg \<in> set xs" and "mg \<noteq> lg"
  shows "count_list (move_first mg lg xs) g + (if g = mg then 1 else 0) =
     count_list xs g + (if g = lg then 1 else 0)"
  using assms by (induction xs) auto

lemma move_first_length [simp]: "length (move_first mg lg xs) = length xs"
  by (induction xs) auto

lemma move_first_set: "set (move_first mg lg xs) \<subseteq> insert lg (set xs)"
  by (induction xs) auto

section \<open>What analyze finds\<close>

abbreviation gids :: "ShardConfig \<Rightarrow> Tgid set" where
  "gids c \<equiv> fst ` set (Groups c)"

abbreviation load :: "ShardConfig \<Rightarrow> Tgid \<Rightarrow> nat" where
  "load c g \<equiv> count_list (Shards c) g"

lemma analyze_fold:
  assumes "gs \<noteq> []" and "\<And>g. -1 < f g \<and> f g < 257"
    and "foldl (analyze_group f) (-1, -1, -1, 257) gs = (mg, mn, lg, ln)"
  shows "mg \<in> set gs \<and> mn = f mg \<and> lg \<in> set gs \<and> ln = f lg \<and>
     (\<forall>g \<in> set gs. f lg \<le> f g \<and> f g \<le> f mg)"
  using assms(1,3)
proof (induction gs arbitrary: mg mn lg ln rule: rev_induct)
  case (snoc g gs)
  obtain mg' mn' lg' ln' where r: "foldl (analyze_group f) (-1, -1, -1, 257) gs = (mg', mn', lg', ln')"
    using prod_cases4 by blast
  show ?case
  proof (cases "gs = []")
    case True
    with snoc.prems assms(2) [of g] show ?thesis by auto
  next
    case False
    from snoc.IH [OF False r] snoc.prems(2) show ?thesis
      by (auto simp: r split: if_splits)
  qed
qed simp

definition cfg_wf :: "ShardConfig \<Rightarrow> bool" where
  "cfg_wf c \<longleftrightarrow> length (Shards c) = NShards \<and> gm_wf (Groups c)"

lemma analyze_spec:
  assumes "cfg_wf c" and "Groups c \<noteq> []" and "analyze c = (mg, mn, lg, ln)"
  shows "mg \<in> gids c" "lg \<in> gids c" "mn = int (load c mg)" "ln = int (load c lg)"
    and "\<And>g. g \<in> gids c \<Longrightarrow> load c lg \<le> load c g \<and> load c g \<le> load c mg"
proof -
  have "-1 < shard_counts (Shards c) g \<and> shard_counts (Shards c) g < 257" for g
    using assms(1) count_list_length [of "Shards c" g] by (simp add: cfg_wf_def NShards_def)
  moreover have "sort (map fst (Groups c)) \<noteq> []"
    using assms(2) by (metis length_0_conv length_map length_sort)
  ultimately
  have "mg \<in> gids c \<and> mn = int (load c mg) \<and> lg \<in> gids c \<and> ln = int (load c lg) \<and>
     (\<forall>g \<in> gids c. load c lg \<le> load c g \<and> load c g \<le> load c mg)"
    using analyze_fold [of "sort (map fst (Groups c))" "shard_counts (Shards c)" mg mn lg ln] assms(3)
    by (simp add: analyze_def Let_def)
  then show "mg \<in> gids c" "lg \<in> gids c" "mn = int (load c mg)" "ln = int (load c lg)"
    and "\<And>g. g \<in> gids c \<Longrightarrow> load c lg \<le> load c g \<and> load c g \<le> load c mg" by auto
qed

section \<open>The loops of Rebalance\<close>

definition assigned :: "ShardConfig \<Rightarrow> bool" where
  "assigned c \<longleftrightarrow> set (Shards c) \<subseteq> gids c"

definition balanced :: "ShardConfig \<Rightarrow> bool" where
  "balanced c \<longleftrightarrow> (\<forall>g \<in> gids c. \<forall>h \<in> gids c. load c g \<le> load c h + 1)"

definition frame :: "ShardConfig \<Rightarrow> ShardConfig \<Rightarrow> bool" where
  "frame c c' \<longleftrightarrow> Num c' = Num c \<and> Groups c' = Groups c \<and> length (Shards c') = length (Shards c)"

lemma frame_wf: "frame c c' \<Longrightarrow> cfg_wf c \<Longrightarrow> cfg_wf c'"
  by (simp add: frame_def cfg_wf_def)

lemma map_of_None_gids: "map_of (Groups c) g = None \<longleftrightarrow> g \<notin> gids c"
  by (simp add: map_of_eq_None_iff)

lemma least_in: "cfg_wf c \<Longrightarrow> Groups c \<noteq> [] \<Longrightarrow> least c \<in> gids c"
  using analyze_spec(2) [of c] by (auto simp: least_def split: prod.splits)

lemma assign_prefix:
  assumes "cfg_wf c" and "Groups c \<noteq> []" and "k \<le> length (Shards c)"
  shows "frame c (foldl assign_shard c [0..<k]) \<and>
    (\<forall>i < k. Shards (foldl assign_shard c [0..<k]) ! i \<in> gids c) \<and>
    (\<forall>i. Shards c ! i \<in> gids c \<longrightarrow> Shards (foldl assign_shard c [0..<k]) ! i = Shards c ! i)"
  using assms(3)
proof (induction k)
  case (Suc k)
  define d where "d = foldl assign_shard c [0..<k]"
  have IH: "frame c d" "\<forall>i < k. Shards d ! i \<in> gids c"
    "\<forall>i. Shards c ! i \<in> gids c \<longrightarrow> Shards d ! i = Shards c ! i"
    using Suc by (simp_all add: d_def)
  then have ld: "least d \<in> gids c"
    using least_in [of d] assms frame_wf [of c d] by (auto simp: frame_def)
  define e where "e = foldl assign_shard c [0..<Suc k]"
  have sh: "Shards e = (if Shards d ! k \<in> gids c then Shards d else (Shards d)[k := least d])"
    and e: "Num e = Num d" "Groups e = Groups d"
    using IH(1) by (auto simp: e_def assign_shard_def map_of_None_gids frame_def simp flip: d_def)
  have "k < length (Shards d)"
    using Suc.prems IH(1) by (simp add: frame_def)
  then have nth: "Shards e ! i = (if i = k \<and> Shards d ! k \<notin> gids c then least d else Shards d ! i)" for i
    by (simp add: sh nth_list_update)
  have "Shards e ! i \<in> gids c" if "i < Suc k" for i
    using that IH(2) ld by (cases "i = k") (simp_all add: nth)
  moreover have "Shards e ! i = Shards c ! i" if "Shards c ! i \<in> gids c" for i
    using that IH(3) by (metis nth)
  moreover have "frame c e"
    using IH(1) e sh by (simp add: frame_def)
  ultimately show ?case
    unfolding e_def by blast
qed (simp add: frame_def)

lemma assign_unassigned_spec:
  assumes "cfg_wf c" and "Groups c \<noteq> []"
  shows "frame c (assign_unassigned c)" "assigned (assign_unassigned c)"
    "assigned c \<Longrightarrow> assign_unassigned c = c"
proof -
  let ?d = "assign_unassigned c"
  have *: "frame c ?d" "\<And>i. i < length (Shards c) \<Longrightarrow> Shards ?d ! i \<in> gids c"
    "\<And>i. Shards c ! i \<in> gids c \<Longrightarrow> Shards ?d ! i = Shards c ! i"
    using assign_prefix [OF assms order_refl] unfolding assign_unassigned_def by blast+
  then show "frame c ?d" by blast
  from * show "assigned ?d" by (auto simp: assigned_def frame_def in_set_conv_nth)
  assume "assigned c"
  then have "Shards c ! i \<in> gids c" if "i < length (Shards c)" for i
    using nth_mem [OF that] by (auto simp: assigned_def)
  then have "Shards ?d = Shards c"
    using * by (intro nth_equalityI) (simp_all add: frame_def)
  with *(1) show "?d = c" by (auto simp: frame_def)
qed

text \<open>What decreases: the sum of the squares of the groups' loads.\<close>

definition imbalance :: "ShardConfig \<Rightarrow> nat" where
  "imbalance c = (\<Sum>g \<in> gids c. load c g * load c g)"

lemma two_squares:
  fixes a b :: nat
  assumes "b + 2 \<le> a"
  shows "(a - 1) * (a - 1) + (b + 1) * (b + 1) < a * a + b * b"
proof -
  obtain d where "a = b + 2 + d" using assms le_Suc_ex by blast
  then show ?thesis by (simp add: algebra_simps)
qed

lemma move_load:
  assumes "mg \<in> set (Shards c)" and "mg \<noteq> lg"
    and "d = c\<lparr>Shards := move_first mg lg (Shards c)\<rparr>"
  shows "load d mg = load c mg - 1" "load d lg = load c lg + 1"
    "g \<noteq> mg \<Longrightarrow> g \<noteq> lg \<Longrightarrow> load d g = load c g"
  using count_move_first [OF assms(1,2), of mg] count_move_first [OF assms(1,2), of lg]
    count_move_first [OF assms(1,2), of g] assms(2,3) by simp_all

lemma move_less:
  assumes "mg \<in> gids c" and "lg \<in> gids c" and "load c lg + 2 \<le> load c mg"
    and d: "d = c\<lparr>Shards := move_first mg lg (Shards c)\<rparr>"
  shows "imbalance d < imbalance c"
proof -
  have ne: "mg \<noteq> lg" and mg: "mg \<in> set (Shards c)"
    using assms(3) count_notin [of mg "Shards c"] by (auto intro: ccontr)
  note ld = move_load [OF mg ne d]
  have G: "gids c = insert mg (insert lg (gids c - {mg, lg}))"
    using assms(1,2) by auto
  have split: "(\<Sum>g \<in> gids c. f g) = f mg + (f lg + (\<Sum>g \<in> gids c - {mg, lg}. f g))"
    for f :: "int \<Rightarrow> nat"
    by (subst G) (simp add: ne)
  have "(\<Sum>g \<in> gids c - {mg, lg}. load d g * load d g) = (\<Sum>g \<in> gids c - {mg, lg}. load c g * load c g)"
    by (rule sum.cong) (use ld(3) in auto)
  moreover have "gids d = gids c" using d by simp
  ultimately show ?thesis
    using two_squares [OF assms(3)] ld(1,2) by (simp add: imbalance_def split)
qed

lemma balance_loop_spec:
  assumes "cfg_wf c" and "Groups c \<noteq> []" and "assigned c"
  shows "\<exists>c'. balance_loop c = Some c' \<and> frame c c' \<and> assigned c' \<and> balanced c'"
  using assms
proof (induction "imbalance c" arbitrary: c rule: less_induct)
  case less
  obtain mg mn lg ln where an: "analyze c = (mg, mn, lg, ln)" using prod_cases4 by blast
  note sp = analyze_spec [OF less.prems(1,2) an]
  show ?case
  proof (cases "mn < ln + 2")
    case True
    have "balanced c"
      unfolding balanced_def
    proof (intro ballI)
      fix g h assume "g \<in> gids c" "h \<in> gids c"
      with sp(5) [of g] sp(5) [of h] sp(3,4) True show "load c g \<le> load c h + 1" by linarith
    qed
    with True an less.prems show ?thesis
      by (intro exI [of _ c]) (simp add: balance_loop.simps frame_def)
  next
    case False
    define d where "d = c\<lparr>Shards := move_first mg lg (Shards c)\<rparr>"
    have fr: "frame c d" by (simp add: frame_def d_def)
    have lt: "imbalance d < imbalance c"
      using False sp by (intro move_less [OF sp(1,2) _ d_def]) simp
    have as: "assigned d"
      using less.prems(3) sp(2) move_first_set [of mg lg "Shards c"]
      by (auto simp: assigned_def d_def)
    have "Groups d \<noteq> []" using less.prems(2) by (simp add: d_def)
    from less.hyps [OF lt frame_wf [OF fr less.prems(1)] this as] obtain c'
      where "balance_loop d = Some c'" "frame d c'" "assigned c'" "balanced c'" by blast
    with False an fr show ?thesis
      by (intro exI [of _ c']) (simp add: balance_loop.simps [of c] d_def frame_def)
  qed
qed

lemma balanced_fixed:
  assumes "cfg_wf c" and "Groups c \<noteq> []" and "balanced c"
  shows "balance_loop c = Some c"
proof -
  obtain mg mn lg ln where an: "analyze c = (mg, mn, lg, ln)" using prod_cases4 by blast
  note sp = analyze_spec [OF assms(1,2) an]
  from assms(3) sp(1,2) have "load c mg \<le> load c lg + 1"
    unfolding balanced_def by blast
  with sp(3,4) an show ?thesis by (simp add: balance_loop.simps)
qed

section \<open>Joins, leaves and the check\<close>

lemma update_fresh: "k \<notin> fst ` set al \<Longrightarrow> AList.update k v al = al @ [(k, v)]"
  by (induction al) auto

lemma shares_server_snoc:
  "shares_server ss (gs @ [(g, ts)]) \<longleftrightarrow> shares_server ss gs \<or> set ts \<inter> set ss \<noteq> {}"
  by (auto simp: shares_server_def)

lemma Join_loop_spec:
  assumes "gm_wf (Groups c @ servers)" and "servers \<noteq> [] \<or> changed"
    and "\<And>g ss. (g, ss) \<in> set servers \<Longrightarrow> \<not> shares_server ss (Groups c)"
    and "\<And>g ss h ts. (g, ss) \<in> set servers \<Longrightarrow> (h, ts) \<in> set servers \<Longrightarrow> g \<noteq> h \<Longrightarrow> set ss \<inter> set ts = {}"
  shows "Join_loop c changed servers =
    Ret (c\<lparr>Num := Num c + 1, Groups := Groups c @ servers\<rparr>, True)"
  using assms
proof (induction servers arbitrary: c changed)
  case (Cons e servers)
  obtain gid ss where e: "e = (gid, ss)" by force
  have new: "gid \<notin> gids c" "gid \<notin> fst ` set servers"
    using Cons.prems(1) e by (auto simp: gm_wf_def)
  then have "\<not> shares_server ts (Groups c @ [(gid, ss)])" if "(h, ts) \<in> set servers" for h ts
    using that Cons.prems(3) [of h ts] Cons.prems(4) [of gid ss h ts] e
    by (force simp: shares_server_snoc)
  then have "Join_loop (c\<lparr>Groups := Groups c @ [(gid, ss)]\<rparr>) True servers =
     Ret (c\<lparr>Num := Num c + 1, Groups := Groups c @ e # servers\<rparr>, True)"
    using Cons.prems(1) e
    by (subst Cons.IH) (simp_all, metis Cons.prems(4) list.set_intros(2))
  then show ?case
    using Cons.prems(3) new e by (auto simp: update_fresh map_of_None_gids)
qed simp

lemma delete_filter:
  "[e \<leftarrow> AList.delete g m. fst e \<notin> set gs] = [e \<leftarrow> m. fst e \<notin> set (g # gs)]"
  by (auto simp: AList.delete_eq split_def intro: filter_cong)

lemma gids_delete: "gids (c\<lparr>Groups := AList.delete g (Groups c)\<rparr>) = gids c - {g}"
  by (force simp: AList.delete_eq)

lemma Leave_loop_spec:
  assumes "distinct gs" and "set gs \<subseteq> gids c" and "gs \<noteq> [] \<or> changed"
  shows "Leave_loop c changed gs =
    Ret (c\<lparr>Num := Num c + 1, Groups := [e \<leftarrow> Groups c. fst e \<notin> set gs]\<rparr>, True)"
  using assms
proof (induction gs arbitrary: c changed)
  case (Cons g gs)
  let ?c = "c\<lparr>Groups := AList.delete g (Groups c)\<rparr>"
  have "set gs \<subseteq> gids ?c"
    unfolding gids_delete using Cons.prems by auto
  moreover have "map_of (Groups c) g \<noteq> None"
    using Cons.prems(2) by (simp add: map_of_None_gids)
  ultimately show ?case
    using Cons.IH [of ?c True] Cons.prems(1) by (auto simp: delete_filter)
qed simp

lemma Leave_loop_false:
  assumes "distinct gs" and "set gs \<subseteq> gids c" and "g \<notin> gids c"
  shows "Leave_loop c changed (gs @ g # rest) =
    Ret (c\<lparr>Groups := [e \<leftarrow> Groups c. fst e \<notin> set gs]\<rparr>, False)"
  using assms
proof (induction gs arbitrary: c changed)
  case (Cons h gs)
  let ?c = "c\<lparr>Groups := AList.delete h (Groups c)\<rparr>"
  have "set gs \<subseteq> gids ?c" "g \<notin> gids ?c"
    unfolding gids_delete using Cons.prems by auto
  moreover have "map_of (Groups c) h \<noteq> None"
    using Cons.prems(2) by (simp add: map_of_None_gids)
  ultimately show ?case
    using Cons.IH [of ?c True] Cons.prems(1) by (auto simp: delete_filter)
qed (simp add: map_of_None_gids)

lemma extremes_fold:
  fixes f :: "'a \<Rightarrow> int"
  shows "foldl (\<lambda>(mx, mn) (g, srvs). (if f g > mx then f g else mx, if f g < mn then f g else mn)) (a, b) gs =
    (foldl max a (map (f \<circ> fst) gs), foldl min b (map (f \<circ> fst) gs))"
  by (induction gs arbitrary: a b) (auto simp: max_def min_def split_def)

lemma foldl_max_le: "foldl max (a :: int) xs \<le> b \<longleftrightarrow> a \<le> b \<and> (\<forall>x \<in> set xs. x \<le> b)"
  by (induction xs arbitrary: a) auto

lemma foldl_min_ge: "(b :: int) \<le> foldl min a xs \<longleftrightarrow> b \<le> a \<and> (\<forall>x \<in> set xs. b \<le> x)"
  by (induction xs arbitrary: a) auto

lemma foldl_min_in: "foldl min (a :: int) xs \<in> insert a (set xs)"
proof (induction xs arbitrary: a)
  case (Cons x xs)
  from Cons [of "min a x"] show ?case by (auto simp: min_def split: if_splits)
qed simp

lemma CheckConfig_ok:
  assumes "cfg_wf c" and "Groups c \<noteq> [] \<Longrightarrow> assigned c" and "balanced c"
    and "distinct gs" and "set gs = gids c"
  shows "CheckConfig c gs = Ret ()"
proof -
  let ?ls = "map (shard_counts (Shards c) \<circ> fst) (Groups c)"
  have len: "length (Groups c) = length gs"
    using assms(1,4,5) distinct_card [of gs] distinct_card [of "map fst (Groups c)"]
    by (simp add: cfg_wf_def gm_wf_def)
  have bound: "load c g < 257" for g
    using assms(1) count_list_length [of "Shards c" g] by (simp add: cfg_wf_def NShards_def)
  have "x \<le> foldl min 257 ?ls + 1" if x: "x \<in> insert 0 (set ?ls)" for x
  proof (cases "foldl min 257 ?ls = 257")
    case True
    from x obtain g where "x = 0 \<or> x = int (load c g)" by auto
    with True bound [of g] show ?thesis by auto
  next
    case False
    with foldl_min_in [of 257 ?ls] obtain h where "h \<in> gids c" "foldl min 257 ?ls = int (load c h)"
      by auto
    moreover from x obtain g where "x = 0 \<or> g \<in> gids c \<and> x = int (load c g)" by auto
    moreover have "load c g \<le> load c h + 1" if "g \<in> gids c"
      using that \<open>h \<in> gids c\<close> assms(3) unfolding balanced_def by blast
    ultimately show ?thesis by linarith
  qed
  then have "foldl max 0 ?ls \<le> foldl min 257 ?ls + 1"
    by (simp add: foldl_max_le)
  moreover have "\<forall>g \<in> set gs. map_of (Groups c) g \<noteq> None"
    using assms(5) by (simp add: map_of_None_gids)
  moreover have "\<forall>g \<in> set (Shards c). map_of (Groups c) g \<noteq> None" if "gs \<noteq> []"
  proof -
    from that len have "Groups c \<noteq> []" by auto
    with assms(2) have "set (Shards c) \<subseteq> gids c" by (simp add: assigned_def)
    then show ?thesis by (auto simp: map_of_None_gids)
  qed
  ultimately show ?thesis
    using len by (fastforce simp: CheckConfig_def extremes_fold)
qed

lemma Rebalance_total:
  assumes "cfg_wf c"
  shows "\<exists>c'. Rebalance c = Some c' \<and> frame c c' \<and> (Groups c \<noteq> [] \<longrightarrow> assigned c') \<and> balanced c'"
proof (cases "Groups c = []")
  case True
  then show ?thesis by (simp add: Rebalance_def frame_def balanced_def)
next
  case False
  let ?d = "assign_unassigned c"
  note d = assign_unassigned_spec [OF assms False]
  have "cfg_wf ?d" and "Groups ?d \<noteq> []"
    using d(1) assms False frame_wf by (auto simp: frame_def)
  with balance_loop_spec [OF _ _ d(2)] obtain c'
    where "balance_loop ?d = Some c'" "frame ?d c'" "assigned c'" "balanced c'" by blast
  with d(1) False show ?thesis
    by (intro exI [of _ c']) (auto simp: Rebalance_def frame_def)
qed

lemma then_Rebalance_spec:
  assumes "cfg_wf c" and "m = Ret (c\<lparr>Num := n, Groups := gs\<rparr>, True)" and "gm_wf gs"
  shows "\<exists>c'. then_Rebalance m = Ret (c', True) \<and> cfg_wf c' \<and> Num c' = n \<and> Groups c' = gs \<and>
    (\<forall>ks. distinct ks \<and> set ks = fst ` set gs \<longrightarrow> CheckConfig c' ks = Ret ())"
proof -
  let ?d = "c\<lparr>Num := n, Groups := gs\<rparr>"
  have wf: "cfg_wf ?d" using assms by (simp add: cfg_wf_def)
  from Rebalance_total [OF this] obtain c' where
    c': "Rebalance ?d = Some c'" "frame ?d c'" "Groups ?d \<noteq> [] \<longrightarrow> assigned c'" "balanced c'" by blast
  then have "cfg_wf c'" "Num c' = n" "Groups c' = gs"
    using frame_wf [OF _ wf] by (auto simp: frame_def)
  moreover from this c' have "CheckConfig c' ks = Ret ()" if "distinct ks" "set ks = fst ` set gs" for ks
    using CheckConfig_ok [of c' ks] that by simp
  ultimately show ?thesis
    using c'(1) assms(2) by (simp add: then_Rebalance_def)
qed

section \<open>Properties\<close>

text \<open>
  C23: \<open>Rebalance\<close> terminates and does its work. On every well-formed configuration with a group
  both of its loops end; the number, the groups and the count of shards are unchanged, every shard
  is assigned to a group of the configuration, and the loads of any two groups differ by at most
  one.
\<close>

theorem Rebalance_balances:
  assumes "cfg_wf c" and "Groups c \<noteq> []"
  shows "\<exists>c'. Rebalance c = Some c' \<and> Num c' = Num c \<and> Groups c' = Groups c \<and>
    length (Shards c') = NShards \<and> set (Shards c') \<subseteq> fst ` set (Groups c) \<and>
    (\<forall>g h. g \<in> fst ` set (Groups c) \<and> h \<in> fst ` set (Groups c) \<longrightarrow>
       count_list (Shards c') g \<le> count_list (Shards c') h + 1)"
  using Rebalance_total [OF assms(1)] assms
  by (force simp: frame_def assigned_def balanced_def cfg_wf_def)

theorem Rebalance_balances_witness:
  "\<exists>c'. Rebalance (MakeShardConfig\<lparr>Groups := [(7, [''a'']), (3, [''b''])]\<rparr>) = Some c' \<and>
    set (Shards c') \<subseteq> {7, 3} \<and> count_list (Shards c') 7 \<le> count_list (Shards c') 3 + 1"
  using Rebalance_balances [of "MakeShardConfig\<lparr>Groups := [(7, [''a'']), (3, [''b''])]\<rparr>"]
  by (force simp: cfg_wf_def MakeShardConfig_def gm_wf_def)

text \<open>
  \<open>Rebalance\<close> moves nothing without need: a configuration whose shards are all assigned to its
  groups and whose loads differ by at most one is left exactly as it is. In particular
  rebalancing twice is rebalancing once.
\<close>

lemma Rebalance_fixed_point:
  assumes "cfg_wf c" and "Groups c \<noteq> []" and "assigned c" and "balanced c"
  shows "Rebalance c = Some c"
  using assms assign_unassigned_spec(3) [OF assms(1-3)] balanced_fixed [OF assms(1,2,4)]
  by (cases "Groups c") (simp_all add: Rebalance_def)

text \<open>
  C24: a join of new groups succeeds. When the joining groups are new and share no server with each
  other or with a group already present, \<open>JoinBalance\<close> returns true, the configuration's number
  grows by one, the groups are the old ones and the joined ones, and the result passes
  \<open>CheckConfig\<close> for any listing of these groups: it has exactly them, every shard belongs to one
  of them, and the loads differ by at most one.
\<close>

theorem JoinBalance_checks:
  assumes "cfg_wf c" and "servers \<noteq> []" and "distinct (map fst (Groups c @ servers))"
    and "\<And>g ss. (g, ss) \<in> set servers \<Longrightarrow> \<not> shares_server ss (Groups c)"
    and "\<And>g ss h ts. (g, ss) \<in> set servers \<Longrightarrow> (h, ts) \<in> set servers \<Longrightarrow> g \<noteq> h \<Longrightarrow> set ss \<inter> set ts = {}"
  shows "\<exists>c'. JoinBalance c servers = Ret (c', True) \<and> cfg_wf c' \<and> Num c' = Num c + 1 \<and>
    Groups c' = Groups c @ servers \<and>
    (\<forall>ks. distinct ks \<and> set ks = fst ` set (Groups c @ servers) \<longrightarrow> CheckConfig c' ks = Ret ())"
  unfolding JoinBalance_def Join_def
  by (rule then_Rebalance_spec [OF assms(1) Join_loop_spec])
    (use assms in \<open>auto simp: gm_wf_def\<close>)

theorem JoinBalance_checks_witness:
  "\<exists>c'. JoinBalance MakeShardConfig [(7, [''a'']), (3, [''b''])] = Ret (c', True) \<and>
     CheckConfig c' [3, 7] = Ret ()"
proof -
  have "\<exists>c'. JoinBalance MakeShardConfig [(7, [''a'']), (3, [''b''])] = Ret (c', True) \<and>
     cfg_wf c' \<and> Num c' = Num MakeShardConfig + 1 \<and>
     Groups c' = Groups MakeShardConfig @ [(7, [''a'']), (3, [''b''])] \<and>
    (\<forall>ks. distinct ks \<and> set ks = fst ` set (Groups MakeShardConfig @ [(7, [''a'']), (3, [''b''])]) \<longrightarrow>
      CheckConfig c' ks = Ret ())"
    by (rule JoinBalance_checks)
      (auto simp: cfg_wf_def MakeShardConfig_def gm_wf_def shares_server_def)
  moreover have "distinct [3, 7 :: int]" "set [3, 7 :: int] =
      fst ` set (Groups MakeShardConfig @ [(7, [''a'']), (3, [''b''])])"
    by (auto simp: MakeShardConfig_def)
  ultimately show ?thesis by blast
qed

text \<open>
  C25: a leave of groups that are present succeeds. For distinct present groups \<open>LeaveBalance\<close>
  returns true, the number grows by one, the groups are those that did not leave, and the result
  passes \<open>CheckConfig\<close> for any listing of them, also when no group is left.
\<close>

theorem LeaveBalance_checks:
  assumes "cfg_wf c" and "gs \<noteq> []" and "distinct gs" and "set gs \<subseteq> fst ` set (Groups c)"
  shows "\<exists>c'. LeaveBalance c gs = Ret (c', True) \<and> cfg_wf c' \<and> Num c' = Num c + 1 \<and>
    Groups c' = filter (\<lambda>e. fst e \<notin> set gs) (Groups c) \<and>
    (\<forall>ks. distinct ks \<and> set ks = fst ` set (Groups c) - set gs \<longrightarrow> CheckConfig c' ks = Ret ())"
proof -
  have "fst ` set [e \<leftarrow> Groups c. fst e \<notin> set gs] = fst ` set (Groups c) - set gs" by auto
  moreover have "gm_wf [e \<leftarrow> Groups c. fst e \<notin> set gs]"
    using assms(1) by (simp add: cfg_wf_def gm_wf_def distinct_map_filter)
  ultimately show ?thesis
    using then_Rebalance_spec [OF assms(1) Leave_loop_spec [of gs c False, OF assms(3,4)]] assms(2)
    unfolding LeaveBalance_def Leave_def by simp
qed

theorem LeaveBalance_checks_witness:
  "\<exists>c'. LeaveBalance (MakeShardConfig\<lparr>Groups := [(7, [''a'']), (3, [''b''])]\<rparr>) [7, 3] = Ret (c', True) \<and>
     Groups c' = [] \<and> CheckConfig c' [] = Ret ()"
proof -
  let ?c = "MakeShardConfig\<lparr>Groups := [(7, [''a'']), (3, [''b''])]\<rparr>"
  have "\<exists>c'. LeaveBalance ?c [7, 3] = Ret (c', True) \<and> cfg_wf c' \<and> Num c' = Num ?c + 1 \<and>
    Groups c' = filter (\<lambda>e. fst e \<notin> set [7, 3]) (Groups ?c) \<and>
    (\<forall>ks. distinct ks \<and> set ks = fst ` set (Groups ?c) - set [7, 3] \<longrightarrow> CheckConfig c' ks = Ret ())"
    by (rule LeaveBalance_checks) (auto simp: cfg_wf_def MakeShardConfig_def gm_wf_def)
  moreover have "fst ` set (Groups ?c) - set [7, 3] = {}" "filter (\<lambda>e. fst e \<notin> set [7, 3]) (Groups ?c) = []"
    by auto
  ultimately show ?thesis by (metis distinct.simps(1) set_empty)
qed

text \<open>
  A leave that names an absent group changes the configuration although it returns false. The
  groups listed before the absent one are deleted, the number stays and no rebalancing follows, so
  shards of a deleted group keep pointing to it and their keys have no servers.
\<close>

lemma Leave_false_deletes:
  assumes "distinct gs" and "set gs \<subseteq> fst ` set (Groups c)" and "g \<notin> fst ` set (Groups c)"
  shows "LeaveBalance c (gs @ g # rest) =
     Ret (c\<lparr>Groups := filter (\<lambda>e. fst e \<notin> set gs) (Groups c)\<rparr>, False)"
proof -
  have "Leave_loop c False (gs @ g # rest) =
     Ret (c\<lparr>Groups := filter (\<lambda>e. fst e \<notin> set gs) (Groups c)\<rparr>, False)"
    using assms by (rule Leave_loop_false)
  then show ?thesis by (simp add: LeaveBalance_def Leave_def then_Rebalance_def)
qed

text \<open>
  C40: every key is served by the group that owns its shard. In a well-formed configuration whose shards are all
  assigned, as every join leaves it, the shard of any key is one of the twelve; \<open>GidServers\<close> of it neither panics nor reports a missing group: it returns the
  group written in the configuration for that shard with the servers listed for that group, which is a
  member; and a shard number that is not one of the twelve makes it panic.
\<close>

theorem every_key_served:
  assumes "cfg_wf c" and "assigned c"
  shows "0 \<le> Key2Shard key \<and> Key2Shard key < int NShards \<and>
    (\<exists>srvs. GidServers c (Key2Shard key) = Ret (Shards c ! nat (Key2Shard key), srvs, True) \<and>
       map_of (Groups c) (Shards c ! nat (Key2Shard key)) = Some srvs \<and> IsMember c (Shards c ! nat (Key2Shard key))) \<and>
    (\<forall>s. s < 0 \<or> int NShards \<le> s \<longrightarrow> GidServers c s = Panic)"
proof -
  have k: "0 \<le> Key2Shard key" "Key2Shard key < int NShards"
    by (simp_all add: Key2Shard_def NShards_def)
  let ?g = "Shards c ! nat (Key2Shard key)"
  have n: "length (Shards c) = NShards" using assms(1) by (simp add: cfg_wf_def)
  with k have i: "nat (Key2Shard key) < length (Shards c)" by simp
  then have "?g \<in> gids c"
    using assms(2) nth_mem by (fastforce simp: assigned_def)
  then obtain srvs where m: "map_of (Groups c) ?g = Some srvs"
    using map_of_None_gids [of c ?g] by (cases "map_of (Groups c) ?g") auto
  then have "GidServers c (Key2Shard key) = Ret (?g, srvs, True)"
    using i k by (simp add: GidServers_def)
  moreover have "IsMember c ?g"
    using i by (simp add: IsMember_def)
  moreover have "GidServers c s = Panic" if "s < 0 \<or> int NShards \<le> s" for s
    using that n by (auto simp: GidServers_def)
  ultimately show ?thesis using k m by blast
qed

theorem every_key_served_witness:
  "GidServers \<lparr>Num = 2, Shards = replicate 3 7 @ replicate 9 8, Groups = [(7, [''a'']), (8, [''b''])]\<rparr> (Key2Shard ''x'') =
     Ret (8, [''b''], True) \<and>
   GidServers \<lparr>Num = 2, Shards = replicate 3 7 @ replicate 9 8, Groups = [(7, [''a'']), (8, [''b''])]\<rparr> 12 = Panic"
proof -
  let ?c = "\<lparr>Num = 2, Shards = replicate 3 7 @ replicate 9 8, Groups = [(7, [''a'']), (8, [''b''])]\<rparr>"
  have "cfg_wf ?c" "assigned ?c" by (auto simp: cfg_wf_def gm_wf_def assigned_def NShards_def)
  note served = every_key_served [OF this, of "''x''"]
  have k: "Key2Shard ''x'' = 3" by (simp add: Key2Shard_def NShards_def fnv32a_def fnv32a_step_def)
  have "Shards ?c ! nat (Key2Shard ''x'') = 8" unfolding k by (simp add: nth_append)
  with served show ?thesis by (simp add: NShards_def)
qed

end
