(* ===== verification/Restart.thy ===== *)
theory Restart
  imports Topology
begin

text \<open>
  Crashing and restarting a server (\<open>ShutdownServer\<close> and \<open>startServer\<close> of \<open>tester1\<close>): what the next
  incarnation reads from its persister, and that nobody reaches a server that has been shut down. The
  old incarnation keeps running for a while with a pointer to its own persister.
\<close>

lemma only_enabled_frame:
  assumes "only_enabled rn rn'"
  shows "ends rn' = ends rn" "world rn' = world rn" "servers rn' = servers rn" "connections rn' = connections rn"
    "net_done rn' = net_done rn"
  using assms unfolding only_enabled_def by (metis (no_types) Network.select_convs Network.update_convs(5) Network.surjective)+

lemma server_ptr_DeleteServer [simp]:
  "server_ptr s (DeleteServer s' rn) = (if s = s' then None else server_ptr s rn)"
  by (simp add: server_ptr_def DeleteServer_def update_conv')

lemma is_enabled_DeleteServer [simp]: "is_enabled e (DeleteServer s rn) = is_enabled e rn"
  by (simp add: is_enabled_def DeleteServer_def)

lemma world_frame [simp]:
  "is_enabled e (rn\<lparr>world := w\<rparr>) = is_enabled e rn" "server_ptr s (rn\<lparr>world := w\<rparr>) = server_ptr s rn"
  by (simp_all add: is_enabled_def server_ptr_def)

lemma ShutdownServer_eq:
  assumes "sg_wf sg" and "member sg i" and "saved (srvs sg ! nat i) = Some p"
  shows "\<exists>sg' t'. ShutdownServer pr i sg t = Ret (sg', t') \<and>
    saved (srvs sg' ! nat i) = Some (pnext t) \<and> endNames (srvs sg' ! nat i) = endNames (srvs sg ! nat i) \<and>
    pmem t' = (pmem t)(pnext t := Persister_Copy (pmem t p)) \<and> pnext t' = pnext t + 1 \<and>
    drawn t' = drawn t \<and> ends (tnet t') = ends (tnet t) \<and>
    server_ptr (ServerName (sg_gid sg) i) (tnet t') = None \<and>
    (\<forall>j. member sg j \<longrightarrow> \<not> is_enabled (endname sg i j) (tnet t') \<and> \<not> is_enabled (endname sg j i) (tnet t'))"
proof -
  have all: "\<forall>j\<in>set (sg_all sg). member sg j" by (auto simp: sg_all_def member_def)
  obtain sg1 t1 where d: "sg_disconnect i (sg_all sg) sg t = Ret (sg1, t1)" "srvs sg1 = srvs sg" "sg_gid sg1 = sg_gid sg"
    "only_enabled (tnet t) (tnet t1)" "t1 = t\<lparr>tnet := tnet t1\<rparr>"
    "topo_of sg1 (tnet t1) = topo_disconnect i (sg_all sg) (topo_of sg (tnet t))"
    using disconnect_refines [OF assms(1,2) all, of t] unfolding refines_def by blast
  have mem: "member sg1 = member sg" "endname sg1 = endname sg"
    using d(2) by (simp_all add: member_def endname_def fun_eq_iff)
  have j: "j \<in> set (sg_all sg)" if "member sg j" for j
    using that by (auto simp: sg_all_def member_def image_iff intro!: bexI [of _ "nat j"])
  have off: "\<not> is_enabled (endname sg i j) (tnet t1) \<and> \<not> is_enabled (endname sg j i) (tnet t1)" if "member sg j" for j
    using fun_cong [OF fun_cong [OF arg_cong [OF d(6), of fst]], of i j]
      fun_cong [OF fun_cong [OF arg_cong [OF d(6), of fst]], of j i] that assms(2) j [OF that]
    by (simp add: topo_of_def topo_disconnect_def mem)
  have pm: "pmem t1 = pmem t" "pnext t1 = pnext t" "drawn t1 = drawn t" by (subst d(5), simp)+
  have i: "nat i < length (srvs sg)" "0 \<le> i" "i < int (length (srvs sg))" using assms(2) by (auto simp: member_def)
  have e: "ends (tnet t1) = ends (tnet t)" using only_enabled_frame(1) [OF d(4)] .
  then show ?thesis
    using d(1-3) assms(3) i off pm
    by (simp add: ShutdownServer_def shutdownServer_def new_persister_def Let_def idx_def set_idx_def)
      (simp add: DeleteServer_def)
qed

section \<open>Properties\<close>

text \<open>
  C19: a restarted server starts from the last state that was saved before the shutdown. After
  \<open>ShutdownServer\<close> of server \<open>i\<close> the old incarnation may go on writing whatever it likes to its persister
  \<open>p\<close>; the persister that the next \<open>startServer\<close> hands to the program is a new one, which reads the Raft
  state and the snapshot that \<open>p\<close> held at the time of the shutdown. And from the shutdown on nobody
  reaches the server: its name leads to no server, and the ends from it and to it are disabled.
\<close>

theorem restart_state:
  fixes sg :: "'s ServerGrp"
  assumes "sg_wf sg" and "member sg i" and "saved (srvs sg ! nat i) = Some p" and "p < pnext t"
    and "names_fresh names t"
  shows "\<exists>sg' t'. ShutdownServer pr i sg t = Ret (sg', t') \<and>
    server_ptr (ServerName (sg_gid sg) i) (tnet t') = None \<and>
    (\<forall>j. member sg j \<longrightarrow> \<not> is_enabled (endname sg i j) (tnet t') \<and> \<not> is_enabled (endname sg j i) (tnet t')) \<and>
    (\<forall>pm. (\<forall>a. a \<noteq> p \<longrightarrow> pm a = pmem t' a) \<longrightarrow>
       (\<exists>srv t'' q. startServer names gid (srvs sg' ! nat i) (t'\<lparr>pmem := pm\<rparr>) = Ret (srv, t'') \<and> saved srv = Some q \<and>
          q \<noteq> p \<and> saved (srvs sg' ! nat i) \<noteq> Some q \<and>
          ReadRaftState (pmem t'' q) = ReadRaftState (pmem t p) \<and> ReadSnapshot (pmem t'' q) = ReadSnapshot (pmem t p)))"
proof -
  obtain sg' t' where sd: "ShutdownServer pr i sg t = Ret (sg', t')" "saved (srvs sg' ! nat i) = Some (pnext t)"
    "pmem t' = (pmem t)(pnext t := Persister_Copy (pmem t p))" "pnext t' = pnext t + 1"
    "drawn t' = drawn t" "ends (tnet t') = ends (tnet t)" "server_ptr (ServerName (sg_gid sg) i) (tnet t') = None"
    "\<forall>j. member sg j \<longrightarrow> \<not> is_enabled (endname sg i j) (tnet t') \<and> \<not> is_enabled (endname sg j i) (tnet t')"
    using ShutdownServer_eq [OF assms(1-3), of pr t] by blast
  have "\<exists>srv t'' q. startServer names gid (srvs sg' ! nat i) (t'\<lparr>pmem := pm\<rparr>) = Ret (srv, t'') \<and> saved srv = Some q \<and>
      q \<noteq> p \<and> saved (srvs sg' ! nat i) \<noteq> Some q \<and>
      ReadRaftState (pmem t'' q) = ReadRaftState (pmem t p) \<and> ReadSnapshot (pmem t'' q) = ReadSnapshot (pmem t p)"
    if pm: "\<forall>a. a \<noteq> p \<longrightarrow> pm a = pmem t' a" for pm
  proof -
    let ?t = "t'\<lparr>pmem := pm\<rparr>" and ?n = "length (slice (endNames (srvs sg' ! nat i)))"
    have "names_fresh names ?t" using assms(5) sd(5,6) by (simp add: names_fresh_def)
    then obtain t2 where mk: "makeServer names gid ?n ?t = Ret (fresh_server names (drawn ?t) ?n :: 's TServer, t2)"
      "pmem t2 = pm" "pnext t2 = pnext t + 1"
      using makeServer_eq [of names ?t gid ?n] sd(4) by auto
    have "pm (pnext t) = Persister_Copy (pmem t p)"
      using pm assms(4) sd(3) by simp
    with mk sd(2) assms(4) show ?thesis
      by (simp add: startServer_def new_persister_def ps.copy_reads)
  qed
  with sd show ?thesis by blast
qed

theorem restart_state_witness:
  "\<exists>(sg :: nat ServerGrp) (t :: nat Tester) sg' t' srv t'' q.
     ShutdownServer \<lparr>ps_Kill = (\<lambda>s w. w), ps_MakeService = (\<lambda>s. Panic), ps_mks = (\<lambda>es g i p w pm. ([], w, pm))\<rparr> 1 sg t = Ret (sg', t') \<and>
     ReadRaftState (pmem t 4) = [7] \<and>
     startServer (\<lambda>k. replicate (Suc k) (CHR ''x'')) 0 (srvs sg' ! 1) (t'\<lparr>pmem := (pmem t')(4 := Save [8] [9] (pmem t' 4))\<rparr>) =
       Ret (srv, t'') \<and> saved srv = Some q \<and> ReadRaftState (pmem t'' q) = [7]"
proof -
  let ?names = "\<lambda>k. replicate (Suc k) (CHR ''x'')"
  let ?mk = "\<lambda>es. \<lparr>saved = Some 4, svcs = [Some 3], endNames = Some es, clntEnds = es\<rparr> :: nat TServer"
  let ?sg = "\<lparr>srvs = [?mk [''a'', ''b''], ?mk [''c'', ''d'']], servernames = [''0'', ''1''], sg_gid = 0, connected = [True, True]\<rparr>"
  let ?t = "\<lparr>tnet = MakeNetwork (\<lambda>p. MakeServer) (0 :: nat), drawn = 0, pmem = (\<lambda>p. \<lparr>raftstate = [7], snapshot = []\<rparr>), pnext = 5,
     snext = 0, cmem = (\<lambda>c. makeClntTo None), cnext = 0\<rparr>"
  let ?pr = "\<lparr>ps_Kill = (\<lambda>s w. w), ps_MakeService = (\<lambda>s. Panic), ps_mks = (\<lambda>es g i p w pm. ([], w, pm))\<rparr> :: (nat, nat) program"
  have two: "member ?sg i \<longleftrightarrow> i = 0 \<or> i = 1" for i by (auto simp: member_def)
  have "sg_wf ?sg" unfolding sg_wf_def two by (auto simp: slice_def endname_def)
  moreover have "inj ?names" by (rule injI) (metis length_replicate nat.inject)
  then have "names_fresh ?names ?t" by (simp add: names_fresh_def MakeNetwork_def)
  moreover have "member ?sg 1" "saved (srvs ?sg ! nat 1) = Some 4" "4 < pnext ?t"
    by (simp_all add: member_def)
  ultimately obtain sg' t' where sd: "ShutdownServer ?pr 1 ?sg ?t = Ret (sg', t')" and st: "\<forall>pm. (\<forall>a. a \<noteq> 4 \<longrightarrow> pm a = pmem t' a) \<longrightarrow>
       (\<exists>srv t'' q. startServer ?names 0 (srvs sg' ! nat 1) (t'\<lparr>pmem := pm\<rparr>) = Ret (srv, t'') \<and> saved srv = Some q \<and>
          q \<noteq> 4 \<and> saved (srvs sg' ! nat 1) \<noteq> Some q \<and>
          ReadRaftState (pmem t'' q) = ReadRaftState (pmem ?t 4) \<and> ReadSnapshot (pmem t'' q) = ReadSnapshot (pmem ?t 4))"
    using restart_state [of ?sg 1 4 ?t ?names ?pr 0] by blast
  have r: "ReadRaftState (pmem ?t 4) = [7]" by (simp add: ReadRaftState_def)
  obtain srv t'' q where "startServer ?names 0 (srvs sg' ! 1) (t'\<lparr>pmem := (pmem t')(4 := Save [8] [9] (pmem t' 4))\<rparr>) = Ret (srv, t'')"
    "saved srv = Some q" "ReadRaftState (pmem t'' q) = [7]"
    using st [rule_format, of "(pmem t')(4 := Save [8] [9] (pmem t' 4))"] r by auto
  with sd r show ?thesis by blast
qed

end
