(* ===== verification/GroupOps.thy ===== *)
theory GroupOps
  imports Restart
begin

text \<open>
  A server group never goes wrong: whatever sequence of starting, shutting down, connecting,
  disconnecting and partitioning a test performs on the servers of a group that \<open>makeSrvGrp\<close> made, every
  operation returns and the group stays well formed. The invariant \<open>grp_ok\<close> is a type for groups.
\<close>

datatype grp_op = GConnect int "int list" | GDisconnect int "int list" | GPartition "int list" "int list"
  | GShutdown int | GStart int | GConnectAll

fun grp_step ::
  "(nat \<Rightarrow> string) \<Rightarrow> ('w, 's) program \<Rightarrow> grp_op \<Rightarrow> 's ServerGrp \<Rightarrow> 'w Tester \<Rightarrow> ('s ServerGrp \<times> 'w Tester) go" where
  "grp_step names pr (GConnect i to) sg t = sg_connect i to sg t"
| "grp_step names pr (GDisconnect i fr) sg t = sg_disconnect i fr sg t"
| "grp_step names pr (GPartition p1 p2) sg t = Tester.Partition p1 p2 sg t"
| "grp_step names pr (GShutdown i) sg t = ShutdownServer pr i sg t"
| "grp_step names pr (GStart i) sg t = StartServer names pr i sg t"
| "grp_step names pr GConnectAll sg t = sg_ConnectAll sg t"

fun grp_run ::
  "(nat \<Rightarrow> string) \<Rightarrow> ('w, 's) program \<Rightarrow> grp_op list \<Rightarrow> 's ServerGrp \<Rightarrow> 'w Tester \<Rightarrow> ('s ServerGrp \<times> 'w Tester) go" where
  "grp_run names pr [] sg t = Ret (sg, t)"
| "grp_run names pr (oper # ops) sg t = go_bind (grp_step names pr oper sg t) (\<lambda>(sg, t). grp_run names pr ops sg t)"

definition is_member :: "nat \<Rightarrow> int \<Rightarrow> bool" where
  "is_member n i \<longleftrightarrow> 0 \<le> i \<and> i < int n"

fun grp_op_ok :: "nat \<Rightarrow> grp_op \<Rightarrow> bool" where
  "grp_op_ok n (GConnect i to) = (is_member n i \<and> list_all (is_member n) to)"
| "grp_op_ok n (GDisconnect i fr) = (is_member n i \<and> list_all (is_member n) fr)"
| "grp_op_ok n (GPartition p1 p2) = list_all (is_member n) (p1 @ p2)"
| "grp_op_ok n (GShutdown i) = is_member n i"
| "grp_op_ok n (GStart i) = is_member n i"
| "grp_op_ok n GConnectAll = True"

text \<open>The program under test: it makes no nil service, and every service of it can be registered.\<close>

definition program_ok :: "('w, 's) program \<Rightarrow> bool" where
  "program_ok pr \<longleftrightarrow> (\<forall>es gid i p w pm. None \<notin> set (fst (ps_mks pr es gid i p w pm))) \<and>
     (\<forall>s. \<exists>x. ps_MakeService pr (Some s) = Ret x)"

definition grp_ok :: "(nat \<Rightarrow> string) \<Rightarrow> nat \<Rightarrow> 's ServerGrp \<Rightarrow> 'w Tester \<Rightarrow> bool" where
  "grp_ok names n sg t \<longleftrightarrow> sg_wf sg \<and> length (srvs sg) = n \<and> names_fresh names t \<and>
     (\<forall>i j. member sg i \<and> member sg j \<longrightarrow> (\<exists>k < drawn t. endname sg i j = names k))"

lemma member_is_member: "length (srvs sg) = n \<Longrightarrow> member sg i \<longleftrightarrow> is_member n i"
  by (simp add: member_def is_member_def)

lemma refines_ok:
  assumes "refines f g sg t" and "grp_ok names n sg t"
  shows "\<exists>sg' t'. f sg t = Ret (sg', t') \<and> grp_ok names n sg' t'"
proof -
  obtain sg' t' where r: "f sg t = Ret (sg', t')" "sg_wf sg'" "srvs sg' = srvs sg" "only_enabled (tnet t) (tnet t')"
    "t' = t\<lparr>tnet := tnet t'\<rparr>"
    using assms(1) unfolding refines_def by blast
  have "drawn t' = drawn t" by (subst r(5)) simp
  moreover have "member sg' = member sg" "endname sg' = endname sg"
    using r(3) by (simp_all add: member_def endname_def fun_eq_iff)
  ultimately show ?thesis
    using assms(2) r only_enabled_frame(1) [OF r(4)] by (simp add: grp_ok_def names_fresh_def)
qed

text \<open>
  Replacing a server by one whose ends are all its own keeps a group well formed: they are the old ends, or
  freshly drawn ones, which no other server has.
\<close>

definition own_ends :: "(nat \<Rightarrow> string) \<Rightarrow> nat \<Rightarrow> 's ServerGrp \<Rightarrow> int \<Rightarrow> string list \<Rightarrow> 'w Tester \<Rightarrow> 'w Tester \<Rightarrow> bool" where
  "own_ends names n sg i es t t' \<longleftrightarrow> es = slice (endNames (srvs sg ! nat i)) \<and> drawn t' = drawn t \<or>
     es = map names [drawn t..<drawn t + n] \<and> drawn t' = drawn t + n"

lemma endname_replace:
  assumes "member sg a" and "member sg i" and "endNames s = Some es"
  shows "endname (sg\<lparr>srvs := (srvs sg)[nat i := s]\<rparr>) a b = (if a = i then es ! nat b else endname sg a b)"
  using assms by (auto simp: endname_def member_def slice_def nth_list_update eq_nat_nat_iff)

lemma replaced_drawn:
  assumes "grp_ok names n sg t" and i: "member sg i" and s: "endNames s = Some es" and new: "own_ends names n sg i es t t'"
    and m: "member sg a" "member sg b"
  shows "\<exists>k < drawn t'. endname (sg\<lparr>srvs := (srvs sg)[nat i := s]\<rparr>) a b = names k"
proof -
  have old: "\<exists>k < drawn t. endname sg a b = names k" if "member sg a" for a
    using assms(1) that m(2) by (auto simp: grp_ok_def)
  have "nat b < n" using m(2) assms(1) by (auto simp: member_def grp_ok_def)
  then show ?thesis
    using new old [OF m(1)] old [OF i] unfolding own_ends_def endname_replace [OF m(1) i s]
    by (cases "a = i") (auto simp: endname_def intro: exI [of _ "drawn t + nat b"], metis trans_less_add1)
qed

lemma replaced_inj:
  assumes "grp_ok names n sg t" and i: "member sg i" and s: "endNames s = Some es" and new: "own_ends names n sg i es t t'"
    and m: "member sg a" "member sg b" "member sg a'" "member sg b'"
    and eq: "endname (sg\<lparr>srvs := (srvs sg)[nat i := s]\<rparr>) a b = endname (sg\<lparr>srvs := (srvs sg)[nat i := s]\<rparr>) a' b'"
  shows "a = a' \<and> b = b'"
proof -
  have wf: "sg_wf sg" and n: "length (srvs sg) = n" and inj: "inj names"
    using assms(1) by (auto simp: grp_ok_def names_fresh_def)
  note end_i = endname_replace [OF _ i s]
  show ?thesis
    using new unfolding own_ends_def
  proof
    assume "es = slice (endNames (srvs sg ! nat i)) \<and> drawn t' = drawn t"
    then have "es ! nat y = endname sg i y" for y by (simp add: endname_def)
    with eq m show ?thesis using wf_end_inj [OF wf m] by (auto simp: end_i split: if_splits)
  next
    assume e: "es = map names [drawn t..<drawn t + n] \<and> drawn t' = drawn t + n"
    have own: "es ! nat y = names (drawn t + nat y)" if "member sg y" for y
      using e that n by (auto simp: member_def)
    have other: "endname sg x y \<noteq> names (drawn t + z)" if "member sg x" "member sg y" for x y z
      using assms(1) that inj by (fastforce simp: grp_ok_def inj_eq)
    have "nat b = nat b' \<longleftrightarrow> b = b'" using m by (auto simp: member_def)
    with eq m own other [of a b] other [of a' b', THEN not_sym] wf_end_inj [OF wf m] inj show ?thesis
      by (auto simp: end_i inj_eq split: if_splits)
  qed
qed

lemma grp_ok_replace:
  assumes "grp_ok names n sg t" and "member sg i"
    and es: "endNames s = Some es" "length es = n"
    and "own_ends names n sg i es t t'" and fresh: "names_fresh names t'"
  shows "grp_ok names n (sg\<lparr>srvs := (srvs sg)[nat i := s]\<rparr>) t'"
proof -
  let ?sg = "sg\<lparr>srvs := (srvs sg)[nat i := s]\<rparr>"
  have wf: "sg_wf sg" and n: "length (srvs sg) = n" using assms(1) by (auto simp: grp_ok_def)
  have mem: "member ?sg = member sg" by (simp add: member_def fun_eq_iff)
  have "\<forall>x\<in>set (srvs ?sg). endNames x \<noteq> None \<and> length (slice (endNames x)) = n"
    using wf n es in_set_takeD by (auto simp: sg_wf_def slice_def dest!: set_update_subset_insert [THEN subsetD])
  then show ?thesis
    using fresh n wf replaced_drawn [OF assms(1-3,5)] replaced_inj [OF assms(1-3,5)] unfolding grp_ok_def sg_wf_def mem
    by auto
qed

lemma sg_all_members: "list_all (member sg) (sg_all sg)"
  by (auto simp: sg_all_def member_def list_all_iff)

lemma shutdown_ok:
  assumes ok: "grp_ok names n sg t" and i: "member sg i"
  shows "\<exists>sg' t'. ShutdownServer pr i sg t = Ret (sg', t') \<and> grp_ok names n sg' t'"
proof -
  have wf: "sg_wf sg" using ok by (simp add: grp_ok_def)
  from refines_ok [OF disconnect_refines [OF wf i, of "sg_all sg" t] ok] sg_all_members [of sg]
  obtain sg1 t1 where d: "sg_disconnect i (sg_all sg) sg t = Ret (sg1, t1)" "grp_ok names n sg1 t1"
    by (auto simp: list_all_iff)
  have n: "length (srvs sg1) = n" "length (srvs sg) = n" using d(2) ok by (simp_all add: grp_ok_def)
  have i1: "member sg1 i" using i n by (simp add: member_def)
  define t2 where "t2 = t1\<lparr>tnet := DeleteServer (ServerName (sg_gid sg1) i) (tnet t1)\<rparr>"
  obtain s t3 where sd: "shutdownServer (ps_Kill pr) (srvs sg1 ! nat i) t2 = (s, t3)" by force
  obtain es where es: "endNames (srvs sg1 ! nat i) = Some es" "length es = n"
    using wf_endNames [OF _ i1] d(2) n by (auto simp: grp_ok_def)
  have s: "endNames s = Some es" "drawn t3 = drawn t1" "ends (tnet t3) = ends (tnet t1)"
    using sd es(1) by (auto simp: shutdownServer_def new_persister_def t2_def DeleteServer_def split: option.splits)
  have "grp_ok names n (sg1\<lparr>srvs := (srvs sg1)[nat i := s]\<rparr>) t3"
    using d(2) s es by (intro grp_ok_replace [OF d(2) i1 s(1) es(2)]) (auto simp: own_ends_def slice_def grp_ok_def names_fresh_def)
  moreover have "ShutdownServer pr i sg t = Ret (sg1\<lparr>srvs := (srvs sg1)[nat i := s]\<rparr>, t3)"
    using d(1) i1 sd by (simp add: ShutdownServer_def t2_def [symmetric] set_idx_def member_def)
  ultimately show ?thesis by blast
qed

lemma AddServices_returns:
  assumes "program_ok pr"
  shows "None \<notin> set ss \<Longrightarrow> \<exists>l'. AddServices pr ss l = Ret l'"
proof (induction ss arbitrary: l)
  case (Cons s ss)
  then obtain x y where "s = Some x" "ps_MakeService pr (Some x) = Ret y"
    using assms unfolding program_ok_def by (metis list.set_intros(1) option.exhaust)
  with Cons show ?case by simp
qed simp

lemma start_ok:
  fixes sg :: "'s ServerGrp"
  assumes ok: "grp_ok names n sg t" and i: "member sg i" and pr: "program_ok pr"
  shows "\<exists>sg' t'. StartServer names pr i sg t = Ret (sg', t') \<and> grp_ok names n sg' t'"
proof -
  have n: "length (srvs sg) = n" and wf: "sg_wf sg" and fresh: "names_fresh names t" using ok by (auto simp: grp_ok_def)
  obtain es where "endNames (srvs sg ! nat i) = Some es" "length es = length (srvs sg)"
    using wf_endNames [OF wf i] .
  then have len: "length (slice (endNames (srvs sg ! nat i))) = n" using n by (simp add: slice_def)
  obtain t1 where mk: "makeServer names (sg_gid sg) n t = Ret (fresh_server names (drawn t) n :: 's TServer, t1)"
    "drawn t1 = drawn t + n" "names_fresh names t1"
    using makeServer_eq [OF fresh] by blast
  obtain p t2 where st: "startServer names (sg_gid sg) (srvs sg ! nat i) t =
      Ret ((fresh_server names (drawn t) n)\<lparr>saved := Some p\<rparr>, t2)" "drawn t2 = drawn t1" "tnet t2 = tnet t1"
    using mk(1) len by (cases "saved (srvs sg ! nat i)") (auto simp: startServer_def new_persister_def)
  let ?srv = "(fresh_server names (drawn t) n)\<lparr>saved := Some p\<rparr> :: 's TServer"
  obtain ss w pm where mks: "ps_mks pr (clntEnds ?srv) (sg_gid sg) i p (world (tnet t2)) (pmem t2) = (ss, w, pm)"
    by (metis prod_cases3)
  then have "None \<notin> set ss" using pr by (metis program_ok_def fst_conv)
  then obtain l where l: "AddServices pr ss MakeServer = Ret l" using AddServices_returns [OF pr] by blast
  let ?t = "t2\<lparr>pmem := pm, snext := snext t2 + 1,
     tnet := AddServer (ServerName (sg_gid sg) i) (snext t2) ((tnet t2)\<lparr>world := w, store := (store (tnet t2))(snext t2 := l)\<rparr>)\<rparr>"
  have "StartServer names pr i sg t = Ret (sg\<lparr>srvs := (srvs sg)[nat i := ?srv\<lparr>svcs := ss\<rparr>]\<rparr>, ?t)"
    using i st(1) mks l by (simp add: StartServer_def Let_def set_idx_def member_def)
  moreover have "grp_ok names n (sg\<lparr>srvs := (srvs sg)[nat i := ?srv\<lparr>svcs := ss\<rparr>]\<rparr>) ?t"
    using mk(2,3) st(2,3) by (intro grp_ok_replace [OF ok i])
      (auto simp: own_ends_def fresh_server_def AddServer_def names_fresh_def)
  ultimately show ?thesis by blast
qed

lemma grp_step_ok:
  assumes ok: "grp_ok names n sg t" and oper: "grp_op_ok n oper" and pr: "program_ok pr"
  shows "\<exists>sg' t'. grp_step names pr oper sg t = Ret (sg', t') \<and> grp_ok names n sg' t'"
proof -
  have wf: "sg_wf sg" and n: "length (srvs sg) = n" using ok by (auto simp: grp_ok_def)
  note mem = member_is_member [OF n]
  show ?thesis
  proof (cases oper)
    case (GConnect i to)
    then show ?thesis
      using oper refines_ok [OF connect_refines [OF wf, of i to t] ok] by (simp add: mem list_all_iff)
  next
    case (GDisconnect i fr)
    then show ?thesis
      using oper refines_ok [OF disconnect_refines [OF wf, of i fr t] ok] by (simp add: mem list_all_iff)
  next
    case (GPartition p1 p2)
    then have "\<forall>j\<in>set p1 \<union> set p2. member sg j" using oper by (auto simp: mem list_all_iff)
    from refines_ok [OF Partition_refines [OF wf this, of t] ok] GPartition show ?thesis by simp
  next
    case (GShutdown i)
    then show ?thesis using oper shutdown_ok [OF ok, of i] by (simp add: mem)
  next
    case (GStart i)
    then show ?thesis using oper start_ok [OF ok _ pr, of i] by (simp add: mem)
  next
    case GConnectAll
    have "refines (each_server ConnectOne (sg_all sg)) (fold (\<lambda>i. topo_connect i (sg_all sg)) (sg_all sg)) sg t"
    proof (rule each_server_refines [OF _ wf])
      fix i sg' t' assume "i \<in> set (sg_all sg)" "sg_wf sg'" and s: "srvs sg' = srvs sg"
      have "sg_all sg' = sg_all sg" using s by (simp add: sg_all_def)
      moreover have "refines (sg_connect i (sg_all sg)) (topo_connect i (sg_all sg)) sg' t'"
        using \<open>i \<in> set (sg_all sg)\<close> \<open>sg_wf sg'\<close> s sg_all_members [of sg]
        by (intro connect_refines) (auto simp: list_all_iff member_def)
      ultimately show "refines (ConnectOne i) (topo_connect i (sg_all sg)) sg' t'"
        by (simp add: refines_def ConnectOne_def)
    qed
    from refines_ok [OF this ok] GConnectAll show ?thesis by (simp add: sg_ConnectAll_def)
  qed
qed

lemma grp_run_ok:
  assumes "program_ok pr"
  shows "grp_ok names n sg t \<Longrightarrow> list_all (grp_op_ok n) ops \<Longrightarrow>
    \<exists>sg' t'. grp_run names pr ops sg t = Ret (sg', t') \<and> grp_ok names n sg' t'"
proof (induction ops arbitrary: sg t)
  case (Cons oper ops)
  then obtain sg1 t1 where "grp_step names pr oper sg t = Ret (sg1, t1)" "grp_ok names n sg1 t1"
    using grp_step_ok [OF Cons.prems(1) _ assms, of oper] by auto
  with Cons show ?case by simp
qed simp

lemma makeSrvGrp_ok:
  fixes t :: "'w Tester"
  assumes "names_fresh names t"
  shows "\<exists>(sg :: 's ServerGrp) t'. makeSrvGrp names gid n t = Ret (sg, t') \<and> grp_ok names n sg t'"
  using makeSrvGrp_wf [OF assms, of gid n] unfolding grp_ok_def by blast

section \<open>Properties\<close>

text \<open>
  C22: groups are type safe. Take a group that \<open>makeSrvGrp\<close> made with fresh end names and any sequence of
  starts, shutdowns, connections, disconnections and partitions that names servers of the group. With
  a program that makes proper services, every operation returns (no index is out of range, no end is
  made twice), and at the end the group still has its servers, with one end per pair of servers and no
  end shared by two pairs.
\<close>

theorem group_operations_safe:
  assumes "names_fresh names t" and "program_ok pr" and "list_all (grp_op_ok n) ops"
  shows "\<exists>sg t0 sg' t'. makeSrvGrp names gid n t = Ret (sg, t0) \<and> grp_run names pr ops sg t0 = Ret (sg', t') \<and>
    length (srvs sg') = n \<and> sg_wf sg'"
proof -
  obtain sg :: "'b ServerGrp" and t0 where mk: "makeSrvGrp names gid n t = Ret (sg, t0)" "grp_ok names n sg t0"
    using makeSrvGrp_ok [OF assms(1)] by blast
  from grp_run_ok [OF assms(2) mk(2) assms(3)] obtain sg' t' where
    "grp_run names pr ops sg t0 = Ret (sg', t')" "grp_ok names n sg' t'" by blast
  with mk(1) show ?thesis unfolding grp_ok_def by blast
qed

theorem group_operations_safe_witness:
  "\<exists>(sg :: nat ServerGrp) t0 sg' t'.
     makeSrvGrp (\<lambda>k. replicate k (CHR ''x'')) 0 3
       \<lparr>tnet = MakeNetwork (\<lambda>p. MakeServer) (0 :: nat), drawn = 0, pmem = (\<lambda>p. MakePersister), pnext = 0,
        snext = 0, cmem = (\<lambda>c. makeClntTo None), cnext = 0\<rparr> = Ret (sg, t0) \<and>
     grp_run (\<lambda>k. replicate k (CHR ''x''))
       \<lparr>ps_Kill = (\<lambda>s w. w), ps_MakeService = (\<lambda>s. Ret \<lparr>svc_name = ''S'', svc_methods = []\<rparr>), ps_mks = (\<lambda>es g i p w pm. ([Some 5], w, pm))\<rparr>
       [GStart 0, GStart 1, GStart 2, GConnectAll, GPartition [0, 1] [2], GShutdown 1, GStart 1, GConnect 1 [0]] sg t0 = Ret (sg', t') \<and>
     length (srvs sg') = 3"
proof -
  let ?names = "\<lambda>k. replicate k (CHR ''x'')"
  let ?t = "\<lparr>tnet = MakeNetwork (\<lambda>p. MakeServer) (0 :: nat), drawn = 0, pmem = (\<lambda>p. MakePersister), pnext = 0,
        snext = 0, cmem = (\<lambda>c. makeClntTo None), cnext = 0\<rparr>"
  let ?pr = "\<lparr>ps_Kill = (\<lambda>s w. w), ps_MakeService = (\<lambda>s. Ret \<lparr>svc_name = ''S'', svc_methods = []\<rparr>),
     ps_mks = (\<lambda>es g i p w pm. ([Some 5], w, pm))\<rparr> :: (nat, nat) program"
  have "inj ?names" by (rule injI) (metis length_replicate)
  then have "names_fresh ?names ?t" by (simp add: names_fresh_def MakeNetwork_def)
  moreover have "program_ok ?pr" by (simp add: program_ok_def)
  moreover have "list_all (grp_op_ok 3) [GStart 0, GStart 1, GStart 2, GConnectAll, GPartition [0, 1] [2], GShutdown 1, GStart 1, GConnect 1 [0]]"
    by (simp add: is_member_def)
  ultimately show ?thesis using group_operations_safe [of ?names ?t ?pr 3] by blast
qed

end
