(* ===== verification/ShardTest.thy ===== *)
theory ShardTest
  imports ShardCfg GroupOps KvRaft
begin

text \<open>
  The tests of the sharded key/value service (\<open>shardkv1/test.go\<close>) with the skeletons they run on: the client
  (\<open>shardkv1/client.go\<close>), the controller (\<open>shardctrler.go\<close>) and the group servers (\<open>shardgrp\<close>), whose bodies the lab
  leaves empty. The helpers make groups of servers, let them join and leave through a controller and check
  that they are members. They take the controller's operations as an argument, of which the code's
  skeleton is one instance: with it every helper stops at the nil configuration. With a controller that
  keeps the configuration it is given they do what they are written for.
\<close>

section \<open>The skeletons\<close>

record kvsrv_Clerk =
  kc_clnt :: nat
  kc_server :: string

definition kvsrv_MakeClerk :: "nat \<Rightarrow> string \<Rightarrow> kvsrv_Clerk" where
  "kvsrv_MakeClerk clnt server = \<lparr>kc_clnt = clnt, kc_server = server\<rparr>"

record ShardCtrler =
  sck_clnt :: nat
  sck_IKVClerk :: kvsrv_Clerk
  sck_killed :: int

definition MakeShardCtrler :: "nat \<Rightarrow> ShardCtrler" where
  "MakeShardCtrler clnt =
     \<lparr>sck_clnt = clnt, sck_IKVClerk = kvsrv_MakeClerk clnt (ServerName GRP0 0), sck_killed = 0\<rparr>"

text \<open>
  The operations of a controller on the state \<open>'c\<close> that controllers share (it is meant to be in the
  key/value server of group 0). \<open>Query\<close> returns a pointer, \<open>None\<close> if it is nil.
\<close>

record 'c controller =
  c_InitController :: "ShardCtrler \<Rightarrow> 'c \<Rightarrow> 'c"
  c_InitConfig :: "ShardCtrler \<Rightarrow> ShardConfig \<Rightarrow> 'c \<Rightarrow> 'c"
  c_ChangeConfigTo :: "ShardCtrler \<Rightarrow> ShardConfig \<Rightarrow> 'c \<Rightarrow> 'c"
  c_Query :: "ShardCtrler \<Rightarrow> 'c \<Rightarrow> ShardConfig option \<times> 'c"

definition shardctrler :: "'c controller" where
  "shardctrler = \<lparr>c_InitController = (\<lambda>sck c. c), c_InitConfig = (\<lambda>sck cfg c. c),
     c_ChangeConfigTo = (\<lambda>sck new c. c), c_Query = (\<lambda>sck c. (None, c))\<rparr>"

record shardkv_Clerk =
  sk_clnt :: nat
  sk_sck :: ShardCtrler

definition shardkv_MakeClerk :: "nat \<Rightarrow> ShardCtrler \<Rightarrow> shardkv_Clerk" where
  "shardkv_MakeClerk clnt sck = \<lparr>sk_clnt = clnt, sk_sck = sck\<rparr>"

definition shardkv_Get :: "shardkv_Clerk \<Rightarrow> string \<Rightarrow> string \<times> Tversion \<times> Err" where
  "shardkv_Get ck key = ('''', 0, ErrZero)"

definition shardkv_Put :: "shardkv_Clerk \<Rightarrow> string \<Rightarrow> string \<Rightarrow> Tversion \<Rightarrow> Err" where
  "shardkv_Put ck key value version = ErrZero"

text \<open>The RPCs that move shards (\<open>shardrpc.go\<close>), and the clerk of a group, whose bodies are empty too.\<close>

record FreezeShardArgs =
  fsa_Shard :: Tshid
  fsa_Num :: Tnum

record FreezeShardReply =
  fsr_State :: "char list option"
  fsr_Num :: Tnum
  fsr_Err :: Err

record InstallShardArgs =
  isa_Shard :: Tshid
  isa_State :: "char list option"
  isa_Num :: Tnum

record InstallShardReply =
  isr_Err :: Err

record DeleteShardArgs =
  dsa_Shard :: Tshid
  dsa_Num :: Tnum

record DeleteShardReply =
  dsr_Err :: Err

record shardgrp_Clerk =
  gk_clnt :: nat
  gk_servers :: "string list"

definition shardgrp_MakeClerk :: "nat \<Rightarrow> string list \<Rightarrow> shardgrp_Clerk" where
  "shardgrp_MakeClerk clnt ss = \<lparr>gk_clnt = clnt, gk_servers = ss\<rparr>"

definition shardgrp_Get :: "shardgrp_Clerk \<Rightarrow> string \<Rightarrow> string \<times> Tversion \<times> Err" where
  "shardgrp_Get ck key = ('''', 0, ErrZero)"

definition shardgrp_Put :: "shardgrp_Clerk \<Rightarrow> string \<Rightarrow> string \<Rightarrow> Tversion \<Rightarrow> Err" where
  "shardgrp_Put ck key value version = ErrZero"

definition ck_FreezeShard :: "shardgrp_Clerk \<Rightarrow> Tshid \<Rightarrow> Tnum \<Rightarrow> char list option \<times> Err" where
  "ck_FreezeShard ck s num = (None, ErrZero)"

definition ck_InstallShard :: "shardgrp_Clerk \<Rightarrow> Tshid \<Rightarrow> char list option \<Rightarrow> Tnum \<Rightarrow> Err" where
  "ck_InstallShard ck s bs num = ErrZero"

definition ck_DeleteShard :: "shardgrp_Clerk \<Rightarrow> Tshid \<Rightarrow> Tnum \<Rightarrow> Err" where
  "ck_DeleteShard ck s num = ErrZero"

text \<open>A server of a group: \<open>Raft\<close> is the peer that \<open>MakeRSM\<close> made.\<close>

record 'c shardgrp_KVServer =
  sgs_me :: int
  sgs_dead :: int
  sgs_rsm :: "'c RSM option"
  sgs_gid :: int

definition sgs_DoOp :: "'c shardgrp_KVServer \<Rightarrow> 'q \<Rightarrow> 'r option" where
  "sgs_DoOp kv rq = None"

definition sgs_Snapshot :: "'c shardgrp_KVServer \<Rightarrow> 'b list option" where
  "sgs_Snapshot kv = None"

definition sgs_Restore :: "'b list \<Rightarrow> 'c shardgrp_KVServer \<Rightarrow> 'c shardgrp_KVServer" where
  "sgs_Restore bs kv = kv"

text \<open>The handlers \<open>Get\<close>, \<open>Put\<close>, \<open>FreezeShard\<close>, \<open>InstallShard\<close> and \<open>DeleteShard\<close> leave reply and server alone.\<close>

definition sgs_handle :: "'a \<Rightarrow> 'r \<Rightarrow> 'c shardgrp_KVServer \<Rightarrow> 'r \<times> 'c shardgrp_KVServer" where
  "sgs_handle args reply kv = (reply, kv)"

definition sgs_Kill :: "'c shardgrp_KVServer \<Rightarrow> 'c shardgrp_KVServer" where
  "sgs_Kill kv = kv\<lparr>sgs_dead := 1\<rparr>"

definition sgs_killed :: "'c shardgrp_KVServer \<Rightarrow> bool" where
  "sgs_killed kv = (let z = sgs_dead kv in z = 1)"

text \<open>
  \<open>StartServerShardGrp\<close> registers the types it lists with \<open>labgob\<close> (\<open>register\<close>, which may stop the process) and
  returns the server and its Raft peer as services.
\<close>

datatype 'c shard_service = SvcKV "'c shardgrp_KVServer" | SvcRaft "'c Raft option"

definition registered_types :: "string list" where
  "registered_types = [''rpc.PutArgs'', ''rpc.GetArgs'', ''shardrpc.FreezeShardArgs'', ''shardrpc.InstallShardArgs'',
     ''shardrpc.DeleteShardArgs'', ''rsm.Op'']"

definition StartServerShardGrp ::
  "(string \<Rightarrow> 'l \<Rightarrow> 'l go) \<Rightarrow> bool \<Rightarrow> int \<Rightarrow> string list \<Rightarrow> int \<Rightarrow> int \<Rightarrow> Persister \<Rightarrow> int \<Rightarrow> 'l \<Rightarrow> ('c shard_service list \<times> 'l) go" where
  "StartServerShardGrp register useRaftStateMachine now eps gid i ps maxraftstate l =
     go_bind (register_all register registered_types l) (\<lambda>l.
       let kv = \<lparr>sgs_me = i, sgs_dead = 0, sgs_rsm = None, sgs_gid = gid\<rparr>;
           kv = kv\<lparr>sgs_rsm := Some (MakeRSM useRaftStateMachine now eps i ps maxraftstate)\<rparr>
       in go_bind (RSM_Raft (sgs_rsm kv)) (\<lambda>rf. Ret ([SvcKV kv, SvcRaft rf], l)))"

section \<open>The state of a test\<close>

text \<open>
  The configuration of \<open>tester1\<close> and its network, the controllers' state, and what \<open>kvtest1\<close> keeps. \<open>names\<close> are the
  random names of end points, \<open>pr\<close> is the program of a group's servers (\<open>ts.StartServerShardGrp\<close>).
\<close>

record ('w, 's, 'c, 'k) shard_test =
  sht_Config :: "'s Config"
  sht_net :: "'w Tester"
  sht_sys :: 'c
  sht_kv :: "'k kv_test"
  sht_sck :: "ShardCtrler option"
  sht_partition :: bool
  sht_maxraftstate :: int
  sht_ngid :: int

definition Gid1 :: int where
  "Gid1 = 1"

definition NSRV :: nat where
  "NSRV = 3"

text \<open>\<open>on_config\<close> runs an operation of \<open>ts.Config\<close>.\<close>

definition on_config ::
  "('s Config \<Rightarrow> 'w Tester \<Rightarrow> ('s Config \<times> 'w Tester) go) \<Rightarrow> ('w, 's, 'c, 'k) shard_test \<Rightarrow> ('w, 's, 'c, 'k) shard_test go" where
  "on_config f ts = go_bind (f (sht_Config ts) (sht_net ts)) (\<lambda>(cfg, t). Ret (ts\<lparr>sht_Config := cfg, sht_net := t\<rparr>))"

definition MakeTestMaxRaft ::
  "(nat \<Rightarrow> string) \<Rightarrow> ('w, 's) program \<Rightarrow> bool \<Rightarrow> bool \<Rightarrow> int \<Rightarrow> 'w Tester \<Rightarrow> 'c \<Rightarrow> 'k kv_test \<Rightarrow> ('w, 's, 'c, 'k) shard_test go" where
  "MakeTestMaxRaft names kvsrv rel partn maxraftstate t c kt =
     go_bind (MakeConfig names kvsrv 1 rel t) (\<lambda>(cfg, t).
       Ret \<lparr>sht_Config = Config_Begin cfg t, sht_net = t, sht_sys = c, sht_kv = kt, sht_sck = None,
            sht_partition = partn, sht_maxraftstate = maxraftstate, sht_ngid = Gid1 + 1\<rparr>)"

definition shard_MakeTest ::
  "(nat \<Rightarrow> string) \<Rightarrow> ('w, 's) program \<Rightarrow> bool \<Rightarrow> 'w Tester \<Rightarrow> 'c \<Rightarrow> 'k kv_test \<Rightarrow> ('w, 's, 'c, 'k) shard_test go" where
  "shard_MakeTest names kvsrv rel = MakeTestMaxRaft names kvsrv rel False (-1)"

definition MakeTestLeases ::
  "(nat \<Rightarrow> string) \<Rightarrow> ('w, 's) program \<Rightarrow> bool \<Rightarrow> 'w Tester \<Rightarrow> 'c \<Rightarrow> 'k kv_test \<Rightarrow> ('w, 's, 'c, 'k) shard_test go" where
  "MakeTestLeases names kvsrv rel = MakeTestMaxRaft names kvsrv rel True (-1)"

definition test_MakeClient :: "('w, 's, 'c, 'k) shard_test \<Rightarrow> (nat \<times> ('w, 's, 'c, 'k) shard_test) go" where
  "test_MakeClient ts =
     go_bind (MakeClient (Clnts (sht_Config ts)) (sht_net ts)) (\<lambda>(clnt, cs, t).
       Ret (clnt, ts\<lparr>sht_Config := (sht_Config ts)\<lparr>Clnts := cs\<rparr>, sht_net := t\<rparr>))"

definition test_DeleteClient :: "nat \<Rightarrow> ('w, 's, 'c, 'k) shard_test \<Rightarrow> ('w, 's, 'c, 'k) shard_test go" where
  "test_DeleteClient clnt ts =
     go_bind (DeleteClient clnt (Clnts (sht_Config ts)) (sht_net ts)) (\<lambda>(cs, t).
       Ret (ts\<lparr>sht_Config := (sht_Config ts)\<lparr>Clnts := cs\<rparr>, sht_net := t\<rparr>))"

definition makeShardCtrlerClnt :: "('w, 's, 'c, 'k) shard_test \<Rightarrow> ((ShardCtrler \<times> nat) \<times> ('w, 's, 'c, 'k) shard_test) go" where
  "makeShardCtrlerClnt ts = go_bind (test_MakeClient ts) (\<lambda>(clnt, ts). Ret ((MakeShardCtrler clnt, clnt), ts))"

definition makeShardCtrler :: "('w, 's, 'c, 'k) shard_test \<Rightarrow> (ShardCtrler \<times> ('w, 's, 'c, 'k) shard_test) go" where
  "makeShardCtrler ts = go_bind (makeShardCtrlerClnt ts) (\<lambda>((ck, _), ts). Ret (ck, ts))"

text \<open>\<open>MakeClerk\<close> returns the clerk and its client, the fields of a \<open>kvtest.TestClerk\<close>.\<close>

definition shard_MakeClerk :: "('w, 's, 'c, 'k) shard_test \<Rightarrow> ((shardkv_Clerk \<times> nat) \<times> ('w, 's, 'c, 'k) shard_test) go" where
  "shard_MakeClerk ts =
     go_bind (test_MakeClient ts) (\<lambda>(clnt, ts).
       go_bind (makeShardCtrler ts) (\<lambda>(sck, ts). Ret ((shardkv_MakeClerk clnt sck, clnt), ts)))"

definition shard_DeleteClerk :: "shardkv_Clerk \<times> nat \<Rightarrow> ('w, 's, 'c, 'k) shard_test \<Rightarrow> ('w, 's, 'c, 'k) shard_test go" where
  "shard_DeleteClerk tck ts = test_DeleteClient (snd tck) ts"

definition makeKVClerk :: "('w, 's, 'c, 'k) shard_test \<Rightarrow> (kvsrv_Clerk \<times> ('w, 's, 'c, 'k) shard_test) go" where
  "makeKVClerk ts =
     (let srv = ServerName GRP0 0
      in go_bind (test_MakeClient ts) (\<lambda>(clnt, ts). Ret (kvsrv_MakeClerk clnt srv, ts)))"

definition newGid :: "('w, 's, 'c, 'k) shard_test \<Rightarrow> int \<times> ('w, 's, 'c, 'k) shard_test" where
  "newGid ts = (let gid = sht_ngid ts in (gid, ts\<lparr>sht_ngid := sht_ngid ts + 1\<rparr>))"

fun test_groups :: "nat \<Rightarrow> ('w, 's, 'c, 'k) shard_test \<Rightarrow> int list \<times> ('w, 's, 'c, 'k) shard_test" where
  "test_groups 0 ts = ([], ts)"
| "test_groups (Suc n) ts =
     (case newGid ts of (gid, ts) \<Rightarrow> case test_groups n ts of (grps, ts) \<Rightarrow> (gid # grps, ts))"

section \<open>Joining and leaving through a controller\<close>

text \<open>The servers of group \<open>gid\<close>; a missing group is a nil pointer.\<close>

definition group_SrvNames :: "int \<Rightarrow> ('w, 's, 'c, 'k) shard_test \<Rightarrow> string list go" where
  "group_SrvNames gid ts =
     (case lookupGroup gid (Tester.Config.Groups (sht_Config ts)) of None \<Rightarrow> Panic | Some sg \<Rightarrow> Ret (SrvNames sg))"

definition setupKVService ::
  "(nat \<Rightarrow> string) \<Rightarrow> ('w, 's) program \<Rightarrow> 'c controller \<Rightarrow> ('w, 's, 'c, 'k) shard_test \<Rightarrow> (int \<times> ('w, 's, 'c, 'k) shard_test) go" where
  "setupKVService names pr ctl ts =
     go_bind (makeShardCtrler ts) (\<lambda>(sck, ts).
       let ts = ts\<lparr>sht_sck := Some sck\<rparr>; scfg = MakeShardConfig
       in go_bind (on_config (MakeGroupStart names pr Gid1 NSRV) ts) (\<lambda>ts.
            go_bind (group_SrvNames Gid1 ts) (\<lambda>srvs.
              go_bind (JoinBalance scfg [(Gid1, srvs)]) (\<lambda>(scfg, ok).
                Ret (Gid1, ts\<lparr>sht_sys := c_InitConfig ctl sck scfg (sht_sys ts)\<rparr>)))))"

definition checkMember ::
  "'c controller \<Rightarrow> ShardCtrler \<Rightarrow> int \<Rightarrow> ('w, 's, 'c, 'k) shard_test \<Rightarrow> (bool \<times> ('w, 's, 'c, 'k) shard_test) go" where
  "checkMember ctl sck gid ts =
     (case c_Query ctl sck (sht_sys ts) of (cfg, c) \<Rightarrow>
        case cfg of None \<Rightarrow> Panic | Some cfg \<Rightarrow> Ret (IsMember cfg gid, ts\<lparr>sht_sys := c\<rparr>))"

definition test_join ::
  "'c controller \<Rightarrow> ShardCtrler \<Rightarrow> int \<Rightarrow> string list \<Rightarrow> ('w, 's, 'c, 'k) shard_test \<Rightarrow> ('w, 's, 'c, 'k) shard_test go" where
  "test_join ctl sck gid ss ts =
     (case c_Query ctl sck (sht_sys ts) of (cfg, c) \<Rightarrow>
        case cfg of
          None \<Rightarrow> Panic
        | Some cfg \<Rightarrow>
            go_bind (JoinBalance (ShardConfig_Copy cfg) [(gid, ss)]) (\<lambda>(newcfg, ok).
              if \<not> ok then Fatal else Ret (ts\<lparr>sht_sys := c_ChangeConfigTo ctl sck newcfg c\<rparr>)))"

fun joinGroups ::
  "(nat \<Rightarrow> string) \<Rightarrow> ('w, 's) program \<Rightarrow> 'c controller \<Rightarrow> ShardCtrler \<Rightarrow> int list \<Rightarrow> ('w, 's, 'c, 'k) shard_test \<Rightarrow>
   (bool \<times> ('w, 's, 'c, 'k) shard_test) go" where
  "joinGroups names pr ctl sck [] ts = Ret (True, ts)"
| "joinGroups names pr ctl sck (gid # gs) ts =
     go_bind (on_config (MakeGroupStart names pr gid NSRV) ts) (\<lambda>ts.
       go_bind (group_SrvNames gid ts) (\<lambda>srvs.
         go_bind (test_join ctl sck gid srvs ts) (\<lambda>ts.
           go_bind (checkMember ctl sck gid ts) (\<lambda>(ok, ts).
             if \<not> ok then Ret (False, ts) else joinGroups names pr ctl sck gs ts))))"

definition test_leave ::
  "'c controller \<Rightarrow> ShardCtrler \<Rightarrow> int \<Rightarrow> ('w, 's, 'c, 'k) shard_test \<Rightarrow> ('w, 's, 'c, 'k) shard_test go" where
  "test_leave ctl sck gid ts =
     (case c_Query ctl sck (sht_sys ts) of (cfg, c) \<Rightarrow>
        case cfg of
          None \<Rightarrow> Panic
        | Some cfg \<Rightarrow>
            go_bind (LeaveBalance (ShardConfig_Copy cfg) [gid]) (\<lambda>(newcfg, ok).
              if \<not> ok then Fatal else Ret (ts\<lparr>sht_sys := c_ChangeConfigTo ctl sck newcfg c\<rparr>)))"

fun leaveGroups ::
  "('w, 's) program \<Rightarrow> 'c controller \<Rightarrow> ShardCtrler \<Rightarrow> int list \<Rightarrow> ('w, 's, 'c, 'k) shard_test \<Rightarrow> (bool \<times> ('w, 's, 'c, 'k) shard_test) go" where
  "leaveGroups pr ctl sck [] ts = Ret (True, ts)"
| "leaveGroups pr ctl sck (gid # gs) ts =
     go_bind (test_leave ctl sck gid ts) (\<lambda>ts.
       go_bind (checkMember ctl sck gid ts) (\<lambda>(ok, ts).
         if ok then Ret (False, ts)
         else go_bind (on_config (ExitGroup pr gid) ts) (\<lambda>ts. leaveGroups pr ctl sck gs ts)))"

section \<open>Leaders, shutdowns and controllers that fail\<close>

definition disconnectClntFromLeader ::
  "('s \<Rightarrow> (int \<times> bool) option) \<Rightarrow> ('w, 's) program \<Rightarrow> int \<Rightarrow> ('w, 's, 'c, 'k) shard_test \<Rightarrow> (int \<times> ('w, 's, 'c, 'k) shard_test) go" where
  "disconnectClntFromLeader raft_of pr gid ts =
     (case lookupGroup gid (Tester.Config.Groups (sht_Config ts)) of
        None \<Rightarrow> Panic
      | Some sg \<Rightarrow>
          (case rsm_Leader raft_of sg of (ok, l) \<Rightarrow>
             if \<not> ok then Fatal
             else go_bind (on_config (on_group gid (ShutdownServer pr l)) ts) (\<lambda>ts. Ret (l, ts))))"

text \<open>
  \<open>checkShutdownSharding\<close> makes a clerk for every key and gets all keys at the same time. \<open>rets\<close> lists the gets
  that return before two seconds pass without one, in their order, with their values.
\<close>

fun make_clerks :: "nat \<Rightarrow> ('w, 's, 'c, 'k) shard_test \<Rightarrow> ('w, 's, 'c, 'k) shard_test go" where
  "make_clerks 0 ts = Ret ts"
| "make_clerks (Suc n) ts = go_bind (shard_MakeClerk ts) (\<lambda>(ck, ts). make_clerks n ts)"

fun count_done :: "string list \<Rightarrow> (nat \<times> string) list \<Rightarrow> nat \<Rightarrow> nat go" where
  "count_done va [] ndone = Ret ndone"
| "count_done va ((i, v) # rets) ndone =
     go_bind (idx va (int i)) (\<lambda>x. if v \<noteq> x then Fatal else count_done va rets (ndone + 1))"

definition checkShutdownSharding ::
  "(nat \<Rightarrow> string) \<Rightarrow> ('w, 's) program \<Rightarrow> int \<Rightarrow> string list \<Rightarrow> string list \<Rightarrow> (nat \<times> string) list \<Rightarrow> ('w, 's, 'c, 'k) shard_test \<Rightarrow>
   ('w, 's, 'c, 'k) shard_test go" where
  "checkShutdownSharding names pr down ka va rets ts =
     go_bind (on_config (on_group down (Shutdown pr)) ts) (\<lambda>ts.
       let n = length ka
       in go_bind (make_clerks n ts) (\<lambda>ts.
            go_bind (count_done va rets 0) (\<lambda>ndone.
              if ndone \<ge> n then Fatal
              else on_config (on_group down (StartServers names pr)) ts)))"

text \<open>
  The goroutine of \<open>partitionCtrler\<close> and those of \<open>concurCtrler\<close> join a new group and let it leave, again and again.
  The shared variables \<open>state\<close> and \<open>ngid\<close> are part of the state; \<open>joined\<close> is the state once \<open>joinGroups\<close> has
  returned, whose result the code does not use.
\<close>

definition JOIN :: int where "JOIN = 1"
definition LEAVE :: int where "LEAVE = 2"

definition ctrler_round ::
  "(nat \<Rightarrow> string) \<Rightarrow> ('w, 's) program \<Rightarrow> 'c controller \<Rightarrow> ShardCtrler \<Rightarrow> ('w, 's, 'c, 'k) shard_test \<Rightarrow>
   (bool \<times> int \<times> int \<times> ('w, 's, 'c, 'k) shard_test) go" where
  "ctrler_round names pr ctl sck ts =
     (case newGid ts of (ngid, ts) \<Rightarrow>
        go_bind (joinGroups names pr ctl sck [ngid] ts) (\<lambda>(joined, ts).
          go_bind (checkMember ctl sck ngid ts) (\<lambda>(ok, ts).
            if ok then go_bind (leaveGroups pr ctl sck [ngid] ts) (\<lambda>(left, ts). Ret (True, LEAVE, ngid, ts))
            else Ret (False, JOIN, ngid, ts))))"

definition concur_round ::
  "(nat \<Rightarrow> string) \<Rightarrow> ('w, 's) program \<Rightarrow> 'c controller \<Rightarrow> ('w, 's, 'c, 'k) shard_test \<Rightarrow> ('w, 's, 'c, 'k) shard_test go" where
  "concur_round names pr ctl ts =
     (case newGid ts of (ngid, ts) \<Rightarrow>
        go_bind (makeShardCtrler ts) (\<lambda>(sck, ts).
          let ts = ts\<lparr>sht_sys := c_InitController ctl sck (sht_sys ts)\<rparr>
          in go_bind (joinGroups names pr ctl sck [ngid] ts) (\<lambda>(joined, ts).
               go_bind (checkMember ctl sck ngid ts) (\<lambda>(ok, ts).
                 if ok then go_bind (leaveGroups pr ctl sck [ngid] ts) (\<lambda>(left, ts). Ret ts)
                 else Ret ts))))"

text \<open>The gets at the end: every key has its value at version 1.\<close>

definition check_all_gets ::
  "(nat \<Rightarrow> int) \<Rightarrow> 'k IKVClerk \<Rightarrow> string list \<Rightarrow> string list \<Rightarrow> ('w, 's, 'c, 'k) shard_test \<Rightarrow> ('w, 's, 'c, 'k) shard_test go" where
  "check_all_gets time ck ka va ts =
     go_bind (check_gets time ck (zip ka va) (sht_kv ts)) (\<lambda>kt.
       if length va < length ka then Panic else Ret (ts\<lparr>sht_kv := kt\<rparr>))"

text \<open>
  \<open>partitionCtrler\<close>. The goroutine runs while the main thread sleeps: \<open>bg1\<close> before group \<open>gid\<close> is shut down, \<open>bg2\<close> until
  the controller is cut off, \<open>bg3\<close> until the new controller takes over, each taking and giving \<open>(state, ngid)\<close>.
\<close>

definition partitionCtrler ::
  "(nat \<Rightarrow> int) \<Rightarrow> (nat \<Rightarrow> string) \<Rightarrow> ('w, 's) program \<Rightarrow> 'c controller \<Rightarrow>
   (ShardCtrler \<Rightarrow> int \<times> int \<times> ('w, 's, 'c, 'k) shard_test \<Rightarrow> (int \<times> int \<times> ('w, 's, 'c, 'k) shard_test) go) \<Rightarrow>
   (ShardCtrler \<Rightarrow> int \<times> int \<times> ('w, 's, 'c, 'k) shard_test \<Rightarrow> (int \<times> int \<times> ('w, 's, 'c, 'k) shard_test) go) \<Rightarrow>
   (ShardCtrler \<Rightarrow> int \<times> int \<times> ('w, 's, 'c, 'k) shard_test \<Rightarrow> (int \<times> int \<times> ('w, 's, 'c, 'k) shard_test) go) \<Rightarrow>
   'k IKVClerk \<Rightarrow> int \<Rightarrow> string list \<Rightarrow> string list \<Rightarrow> ('w, 's, 'c, 'k) shard_test \<Rightarrow> ('w, 's, 'c, 'k) shard_test go" where
  "partitionCtrler time names pr ctl bg1 bg2 bg3 ck gid ka va ts =
     go_bind (makeShardCtrlerClnt ts) (\<lambda>((sck, clnt), ts).
       let ts = ts\<lparr>sht_sys := c_InitController ctl sck (sht_sys ts)\<rparr>
       in case sht_sck ts of
            None \<Rightarrow> Panic
          | Some sck1 \<Rightarrow>
          (case c_Query ctl sck1 (sht_sys ts) of (cfg, c) \<Rightarrow>
             case cfg of
               None \<Rightarrow> Panic
             | Some cfg \<Rightarrow>
               (let num = Num cfg
                in go_bind (bg1 sck (0, 0, ts\<lparr>sht_sys := c\<rparr>)) (\<lambda>(state, ngid, ts).
                     go_bind (on_config (on_group gid (Shutdown pr)) ts) (\<lambda>ts.
                       go_bind (bg2 sck (state, ngid, ts)) (\<lambda>(state, ngid, ts).
                         case Clnt_DisconnectAll (cmem (sht_net ts) clnt) (sht_net ts) of (cl, t) \<Rightarrow>
                         let ts = ts\<lparr>sht_net := t\<lparr>cmem := (cmem t)(clnt := cl)\<rparr>\<rparr>
                         in go_bind (on_config (on_group gid (StartServers names pr)) ts) (\<lambda>ts.
                              go_bind (bg3 sck (state, ngid, ts)) (\<lambda>(state, ngid, ts).
                                go_bind (makeShardCtrlerClnt ts) (\<lambda>((sck0, clnt0), ts).
                                  case c_Query ctl sck0 (c_InitController ctl sck0 (sht_sys ts)) of (cfg, c) \<Rightarrow>
                                  let ts = ts\<lparr>sht_sys := c\<rparr>
                                  in case cfg of
                                       None \<Rightarrow> Panic
                                     | Some cfg \<Rightarrow>
                                       if Num cfg \<le> num then Fatal
                                       else let present = IsMember cfg ngid
                                            in if state = JOIN \<and> \<not> present \<or> state = LEAVE \<and> present then Fatal
                                               else go_bind (if state = JOIN \<and> present
                                                      then go_bind (leaveGroups pr ctl sck0 [ngid] ts) (\<lambda>(left, ts). Ret ts)
                                                      else Ret ts) (\<lambda>ts.
                                                 let ts = (if sht_partition ts
                                                     then case Clnt_ConnectAll (cmem (sht_net ts) clnt) (sht_net ts) of (cl, t) \<Rightarrow>
                                                            ts\<lparr>sht_net := t\<lparr>cmem := (cmem t)(clnt := cl)\<rparr>\<rparr>
                                                     else ts)
                                                 in go_bind (check_all_gets time ck ka va ts) (\<lambda>ts.
                                                      go_bind (test_DeleteClient clnt ts) (test_DeleteClient clnt0))))))))))))"

section \<open>The groups of a test\<close>

text \<open>Every operation on a group keeps the names of its servers, and names once drawn stay drawn.\<close>

lemma makeServer_ends_drawn: "makeServer_ends names gid js t = Ret (es, t') \<Longrightarrow> drawn t \<le> drawn t'"
proof (induction js arbitrary: t es)
  case (Cons j js)
  then obtain rn es' where "makeServer_ends names gid js (t\<lparr>drawn := drawn t + 1, tnet := Connect (names (drawn t)) (ServerName gid (int j)) rn\<rparr>) = Ret (es', t')"
    by (auto simp: Randstring_def go_simps)
  from Cons.IH [OF this] show ?case by simp
qed simp

lemma StartServer_keeps: "StartServer names pr i sg t = Ret (sg', t') \<Longrightarrow> servernames sg' = servernames sg \<and> drawn t \<le> drawn t'"
  by (auto simp: StartServer_def startServer_def makeServer_def go_simps new_persister_def Let_def
      dest!: makeServer_ends_drawn split: option.splits prod.splits if_splits)

lemma sg_connect_keeps: "sg_connect i to sg t = Ret (sg', t') \<Longrightarrow> servernames sg' = servernames sg \<and> drawn t \<le> drawn t'"
  by (auto simp: sg_connect_def go_simps Let_def)

lemma sg_disconnect_keeps: "sg_disconnect i fr sg t = Ret (sg', t') \<Longrightarrow> servernames sg' = servernames sg \<and> drawn t \<le> drawn t'"
  by (auto simp: sg_disconnect_def go_simps Let_def)

lemma ShutdownServer_keeps: "ShutdownServer pr i sg t = Ret (sg', t') \<Longrightarrow> servernames sg' = servernames sg \<and> drawn t \<le> drawn t'"
  by (auto simp: ShutdownServer_def shutdownServer_def go_simps new_persister_def Let_def
      dest!: sg_disconnect_keeps split: option.splits prod.splits)

lemma ConnectOne_keeps: "ConnectOne i sg t = Ret (sg', t') \<Longrightarrow> servernames sg' = servernames sg \<and> drawn t \<le> drawn t'"
  by (simp add: ConnectOne_def sg_connect_keeps)

lemma isolate_keeps: "isolate m others i sg t = Ret (sg', t') \<Longrightarrow> servernames sg' = servernames sg \<and> drawn t \<le> drawn t'"
  by (auto simp: isolate_def go_simps dest!: sg_connect_keeps sg_disconnect_keeps)

lemma each_server_keeps:
  assumes "\<And>i sg t sg' t'. f i sg t = Ret (sg', t') \<Longrightarrow> servernames sg' = servernames sg \<and> drawn t \<le> drawn t'"
  shows "each_server f is sg t = Ret (sg', t') \<Longrightarrow> servernames sg' = servernames sg \<and> drawn t \<le> drawn t'"
proof (induction "is" arbitrary: sg t)
  case (Cons i "is")
  then obtain sg1 t1 where 1: "f i sg t = Ret (sg1, t1)" "each_server f is sg1 t1 = Ret (sg', t')" by (auto simp: go_simps)
  from assms [OF 1(1)] Cons.IH [OF 1(2)] show ?case by simp
qed simp

lemma grp_step_keeps:
  assumes "grp_step names pr oper sg t = Ret (sg', t')"
  shows "servernames sg' = servernames sg \<and> drawn t \<le> drawn t'"
proof (cases oper)
  case (GPartition p1 p2)
  then obtain sg1 t1 where p: "each_server (isolate p1 p2) p1 sg t = Ret (sg1, t1)" "each_server (isolate p2 p1) p2 sg1 t1 = Ret (sg', t')"
    using assms by (auto simp: Tester.Partition_def go_simps)
  have "servernames sg1 = servernames sg \<and> drawn t \<le> drawn t1" by (rule each_server_keeps [OF _ p(1)]) (rule isolate_keeps)
  moreover have "servernames sg' = servernames sg1 \<and> drawn t1 \<le> drawn t'" by (rule each_server_keeps [OF _ p(2)]) (rule isolate_keeps)
  ultimately show ?thesis by simp
next
  case GConnectAll
  then have c: "each_server ConnectOne (sg_all sg) sg t = Ret (sg', t')" using assms by (simp add: sg_ConnectAll_def)
  show ?thesis by (rule each_server_keeps [OF _ c]) (rule ConnectOne_keeps)
qed (use assms in \<open>auto dest: StartServer_keeps sg_connect_keeps sg_disconnect_keeps ShutdownServer_keeps\<close>)

lemma grp_run_keeps: "grp_run names pr ops sg t = Ret (sg', t') \<Longrightarrow> servernames sg' = servernames sg \<and> drawn t \<le> drawn t'"
proof (induction ops arbitrary: sg t)
  case (Cons oper ops)
  then obtain sg1 t1 where 1: "grp_step names pr oper sg t = Ret (sg1, t1)" "grp_run names pr ops sg1 t1 = Ret (sg', t')"
    by (auto simp: go_simps)
  from grp_step_keeps [OF 1(1)] Cons.IH [OF 1(2)] show ?case by simp
qed simp

text \<open>Starting all servers of a group, and shutting them all down, are runs of group operations.\<close>

lemma each_start_run:
  "go_bind (each_server (StartServer names pr) is sg t) (\<lambda>(sg, t). grp_run names pr ops sg t) = grp_run names pr (map GStart is @ ops) sg t"
proof (induction "is" arbitrary: sg t)
  case (Cons i "is")
  then show ?case by (cases "StartServer names pr i sg t") (simp_all add: split_beta)
qed simp

lemma each_shutdown_run: "each_server (ShutdownServer pr) is sg t = grp_run names pr (map GShutdown is) sg t"
proof (induction "is" arbitrary: sg t)
  case (Cons i "is")
  then show ?case by (cases "ShutdownServer pr i sg t") (simp_all add: split_beta)
qed simp

lemma StartServers_run: "StartServers names pr sg t = grp_run names pr (map GStart (sg_all sg) @ [GConnectAll]) sg t"
proof -
  have "grp_run names pr [GConnectAll] sg t = sg_ConnectAll sg t" for sg t
    by (cases "sg_ConnectAll sg t") (auto simp: split_beta)
  then show ?thesis by (simp add: StartServers_def sg_start_def flip: each_start_run)
qed

lemma sg_all_ok: "list_all (is_member (length (srvs sg))) (sg_all sg)"
  by (auto simp: sg_all_def is_member_def list_all_iff)

text \<open>All groups of the test are well formed, with room for fresh names.\<close>

definition groups_ok :: "(nat \<Rightarrow> string) \<Rightarrow> ('w, 's, 'c, 'k) shard_test \<Rightarrow> bool" where
  "groups_ok names ts \<longleftrightarrow> names_fresh names (sht_net ts) \<and>
     (\<forall>g sg. map_of (Tester.Config.Groups (sht_Config ts)) g = Some sg \<longrightarrow> grp_ok names (length (srvs sg)) sg (sht_net ts))"

lemma grp_ok_later:
  "grp_ok names n sg t \<Longrightarrow> names_fresh names t' \<Longrightarrow> drawn t \<le> drawn t' \<Longrightarrow> grp_ok names n sg t'"
  unfolding grp_ok_def by (meson order_less_le_trans)

text \<open>What an operation on one group leaves of the others.\<close>

lemma groups_ok_update:
  assumes "groups_ok names ts" and "grp_ok names n sg t" and "drawn (sht_net ts) \<le> drawn t"
    and "sht_net ts' = t" and "\<And>h. map_of (Tester.Config.Groups (sht_Config ts')) h = (if h = g then Some sg else map_of (Tester.Config.Groups (sht_Config ts)) h)"
  shows "groups_ok names ts'"
proof -
  have fresh: "names_fresh names t" and n: "length (srvs sg) = n" using assms(2) by (auto simp: grp_ok_def)
  have "grp_ok names (length (srvs x)) x t" if "map_of (Tester.Config.Groups (sht_Config ts')) h = Some x" for h x
  proof (cases "h = g")
    case False
    with that assms(1,5) have "grp_ok names (length (srvs x)) x (sht_net ts)" by (auto simp: groups_ok_def)
    then show ?thesis using grp_ok_later [OF _ fresh assms(3)] by blast
  qed (use that assms(2,5) n in auto)
  with fresh assms(4) show ?thesis by (auto simp: groups_ok_def)
qed

definition gid_names :: "int \<Rightarrow> string list" where
  "gid_names gid = map (\<lambda>i. ServerName gid (int i)) [0..<NSRV]"

text \<open>\<open>same_control\<close>: the fields that operations on groups do not touch.\<close>

definition same_control :: "('w, 's, 'c, 'k) shard_test \<Rightarrow> ('w, 's, 'c, 'k) shard_test \<Rightarrow> bool" where
  "same_control ts ts' \<longleftrightarrow> sht_sys ts' = sht_sys ts \<and> sht_ngid ts' = sht_ngid ts \<and> sht_sck ts' = sht_sck ts \<and>
     Clnts (sht_Config ts') = Clnts (sht_Config ts)"

lemma MakeGroupStart_made:
  fixes ts :: "('w, 's, 'c, 'k) shard_test"
  assumes ok: "groups_ok names ts" and pr: "program_ok pr"
  shows "\<exists>ts'. on_config (MakeGroupStart names pr gid n) ts = Ret ts' \<and> groups_ok names ts' \<and> same_control ts ts' \<and>
    (\<exists>sg. lookupGroup gid (Tester.Config.Groups (sht_Config ts')) = Some sg \<and> SrvNames sg = map (\<lambda>i. ServerName gid (int i)) [0..<n] \<and>
      length (srvs sg) = n) \<and>
    (\<forall>h. h \<noteq> gid \<longrightarrow> lookupGroup h (Tester.Config.Groups (sht_Config ts')) = lookupGroup h (Tester.Config.Groups (sht_Config ts)))"
proof -
  let ?t = "sht_net ts" and ?cfg = "sht_Config ts"
  have fresh: "names_fresh names ?t" using ok by (simp add: groups_ok_def)
  obtain sg :: "'s ServerGrp" and t1 where mk: "makeSrvGrp names gid n ?t = Ret (sg, t1)" "grp_ok names n sg t1"
    using makeSrvGrp_ok [OF fresh] by blast
  obtain ss :: "'s TServer list" and t2 where "makeServers names gid n n ?t = Ret (ss, t2)" "drawn ?t \<le> drawn t2"
    using makeServers_eq [OF fresh, of gid n n] by (metis le_add1)
  with mk have sg: "servernames sg = map (\<lambda>i. ServerName gid (int i)) [0..<n]" "drawn ?t \<le> drawn t1" "length (srvs sg) = n"
    by (auto simp: makeSrvGrp_def go_simps grp_ok_def)
  let ?ops = "map GStart (sg_all sg) @ [GConnectAll]"
  have "list_all (grp_op_ok n) ?ops" using sg_all_ok [of sg] sg(3) by (simp add: list_all_iff)
  from grp_run_ok [OF pr mk(2) this] obtain sg' t' where
    run: "grp_run names pr ?ops sg t1 = Ret (sg', t')" "grp_ok names n sg' t'" by blast
  note keep = grp_run_keeps [OF run(1)]
  let ?cfg1 = "?cfg\<lparr>Tester.Config.Groups := AList.update gid sg (Tester.Config.Groups ?cfg)\<rparr>"
  let ?ts = "ts\<lparr>sht_Config := ?cfg1\<lparr>Tester.Config.Groups := AList.update gid sg' (Tester.Config.Groups ?cfg1)\<rparr>, sht_net := t'\<rparr>"
  have "on_config (MakeGroupStart names pr gid n) ts = Ret ?ts"
    using mk(1) run(1) by (simp add: on_config_def MakeGroupStart_def MakeGroup_def on_group_def lookupGroup_def update_conv' flip: StartServers_run)
  moreover have "groups_ok names ?ts"
    using sg(2) keep by (intro groups_ok_update [OF ok run(2), of _ gid]) (auto simp: update_conv')
  moreover have "lookupGroup gid (Tester.Config.Groups (sht_Config ?ts)) = Some sg'" "SrvNames sg' = map (\<lambda>i. ServerName gid (int i)) [0..<n]"
    "length (srvs sg') = n"
    using sg(1) keep run(2) by (simp_all add: lookupGroup_def update_conv' SrvNames_def grp_ok_def)
  ultimately show ?thesis
    by (intro exI [of _ ?ts]) (auto simp: same_control_def lookupGroup_def update_conv')
qed

lemma MakeGroupStart_ok:
  fixes ts :: "('w, 's, 'c, 'k) shard_test"
  assumes "groups_ok names ts" and "program_ok pr"
  shows "\<exists>ts'. on_config (MakeGroupStart names pr gid NSRV) ts = Ret ts' \<and> groups_ok names ts' \<and> same_control ts ts' \<and>
    group_SrvNames gid ts' = Ret (gid_names gid) \<and>
    (\<forall>h. h \<noteq> gid \<longrightarrow> lookupGroup h (Tester.Config.Groups (sht_Config ts')) = lookupGroup h (Tester.Config.Groups (sht_Config ts)))"
proof -
  obtain ts' sg where ts': "on_config (MakeGroupStart names pr gid NSRV) ts = Ret ts'" "groups_ok names ts'" "same_control ts ts'"
    "lookupGroup gid (Tester.Config.Groups (sht_Config ts')) = Some sg" "SrvNames sg = gid_names gid"
    "\<forall>h. h \<noteq> gid \<longrightarrow> lookupGroup h (Tester.Config.Groups (sht_Config ts')) = lookupGroup h (Tester.Config.Groups (sht_Config ts))"
    using MakeGroupStart_made [OF assms, of gid NSRV] unfolding gid_names_def by blast
  then show ?thesis by (intro exI [of _ ts']) (simp add: group_SrvNames_def)
qed

lemma ExitGroup_ok:
  fixes ts :: "('w, 's, 'c, 'k) shard_test"
  assumes ok: "groups_ok names ts" and pr: "program_ok pr" and lk: "lookupGroup gid (Tester.Config.Groups (sht_Config ts)) \<noteq> None"
  shows "\<exists>ts'. on_config (ExitGroup pr gid) ts = Ret ts' \<and> groups_ok names ts' \<and> same_control ts ts' \<and>
    (\<forall>h. h \<noteq> gid \<longrightarrow> lookupGroup h (Tester.Config.Groups (sht_Config ts')) = lookupGroup h (Tester.Config.Groups (sht_Config ts)))"
proof -
  let ?t = "sht_net ts" and ?cfg = "sht_Config ts"
  obtain sg where sg: "map_of (Tester.Config.Groups ?cfg) gid = Some sg" using lk by (auto simp: lookupGroup_def)
  then have grp: "grp_ok names (length (srvs sg)) sg ?t" using ok by (simp add: groups_ok_def)
  have "list_all (grp_op_ok (length (srvs sg))) (map GShutdown (sg_all sg))" using sg_all_ok [of sg] by (simp add: list_all_iff)
  from grp_run_ok [OF pr grp this] obtain sg' t' where
    run: "grp_run names pr (map GShutdown (sg_all sg)) sg ?t = Ret (sg', t')" "grp_ok names (length (srvs sg)) sg' t'" by blast
  note keep = grp_run_keeps [OF run(1)]
  let ?cfg1 = "?cfg\<lparr>Tester.Config.Groups := AList.update gid sg' (Tester.Config.Groups ?cfg)\<rparr>"
  let ?ts1 = "ts\<lparr>sht_Config := ?cfg1, sht_net := t'\<rparr>"
  let ?ts = "?ts1\<lparr>sht_Config := ?cfg1\<lparr>Tester.Config.Groups := Groups_delete gid (Tester.Config.Groups ?cfg1)\<rparr>\<rparr>"
  have "on_config (ExitGroup pr gid) ts = Ret ?ts"
    using sg run(1) by (simp add: on_config_def ExitGroup_def on_group_def lookupGroup_def Shutdown_def flip: each_shutdown_run)
  moreover have "groups_ok names ?ts1"
    using keep by (intro groups_ok_update [OF ok run(2), of _ gid]) (auto simp: update_conv')
  then have "groups_ok names ?ts"
    by (auto simp: groups_ok_def Groups_delete_def delete_conv' split: if_splits)
  ultimately show ?thesis
    by (intro exI [of _ ?ts]) (auto simp: same_control_def lookupGroup_def update_conv' Groups_delete_def delete_conv')
qed

section \<open>Server names and memberships\<close>

lemma dash_prefix:
  assumes "a @ CHR ''-'' # x = b @ CHR ''-'' # y" and "CHR ''-'' \<notin> set a" and "CHR ''-'' \<notin> set b"
  shows "a = b"
  using assms
proof (induction a arbitrary: b)
  case Nil
  then show ?case by (cases b) auto
next
  case (Cons c a)
  then show ?case by (cases b) auto
qed

lemma ServerName_gid:
  assumes "ServerName g i = ServerName h j" and "0 \<le> g" and "0 \<le> h"
  shows "g = h"
proof -
  have "Itoa g = digits (nat g)" "Itoa h = digits (nat h)" using assms(2,3) by (simp_all add: Itoa_def)
  then have "digits (nat g) @ CHR ''-'' # Itoa i = digits (nat h) @ CHR ''-'' # Itoa j"
    using assms(1) by (simp add: ServerName_def)
  then have "digits (nat g) = digits (nat h)" by (rule dash_prefix) (rule digits_no_dash)+
  with assms(2,3) show ?thesis by simp
qed

text \<open>\<open>cfg_ok\<close>: every group of the configuration is run by three servers of its own.\<close>

definition cfg_ok :: "('w, 's, 'c, 'k) shard_test \<Rightarrow> ShardConfig \<Rightarrow> bool" where
  "cfg_ok ts cfg \<longleftrightarrow> cfg_wf cfg \<and> (\<forall>(g, ss)\<in>set (ShardCfg.ShardConfig.Groups cfg). 1 \<le> g \<and> ss = gid_names g \<and>
     lookupGroup g (Tester.Config.Groups (sht_Config ts)) \<noteq> None)"

lemma gid_names_disjoint:
  assumes "0 \<le> g" and "\<And>h ss. (h, ss) \<in> set gs \<Longrightarrow> 1 \<le> h \<and> ss = gid_names h" and "g \<notin> fst ` set gs"
  shows "\<not> shares_server (gid_names g) gs"
proof
  assume "shares_server (gid_names g) gs"
  then obtain h ss s where h: "(h, ss) \<in> set gs" "s \<in> set ss" "s \<in> set (gid_names g)" by (auto simp: shares_server_def)
  with assms(2) [OF h(1)] obtain i j where "ServerName h (int i) = ServerName g (int j)" by (auto simp: gid_names_def)
  then have "h = g" using ServerName_gid assms(1,2) h(1) by force
  with h(1) assms(3) show False by force
qed

lemma Copy_same:
  assumes "cfg_wf cfg"
  shows "ShardConfig_Copy cfg = cfg"
proof -
  have "foldl (\<lambda>gs (k, srvs). AList.update k srvs gs) acc gs = acc @ gs" if "distinct (map fst (acc @ gs))" for acc gs :: "(int \<times> string list) list"
    using that by (induction gs arbitrary: acc) (auto simp: update_fresh image_iff)
  from this [of "[]" "ShardCfg.ShardConfig.Groups cfg"] assms show ?thesis
    by (simp add: ShardConfig_Copy_def MakeShardConfig_def cfg_wf_def gm_wf_def)
qed

lemma load_sum:
  assumes "cfg_wf c" and "assigned c"
  shows "(\<Sum>g\<in>gids c. load c g) = NShards"
  using assms sum_count_set [of "Shards c" "gids c"] by (simp add: cfg_wf_def assigned_def)

text \<open>In a balanced configuration with at most as many groups as shards every group has a shard.\<close>

lemma balanced_member:
  assumes "cfg_wf c" and "assigned c" and "balanced c" and "length (ShardCfg.ShardConfig.Groups c) \<le> NShards" and "g \<in> gids c"
  shows "IsMember c g"
proof (rule ccontr)
  assume "\<not> IsMember c g"
  then have "load c g = 0" by (auto simp: IsMember_def count_list_0_iff)
  then have le: "load c h \<le> 1" if "h \<in> gids c" for h using assms(3,5) that unfolding balanced_def by force
  have fin: "finite (gids c)" by simp
  have "(\<Sum>h\<in>gids c. load c h) = (\<Sum>h\<in>gids c - {g}. load c h)"
    using fin assms(5) \<open>load c g = 0\<close> by (simp add: sum.remove)
  also have "\<dots> \<le> card (gids c - {g})" using sum_mono [of "gids c - {g}" "load c" "\<lambda>h. 1"] le by simp
  also have "\<dots> < card (gids c)" using fin assms(5) by (intro psubset_card_mono) auto
  also have "\<dots> \<le> NShards" using assms(4) card_length [of "map fst (ShardCfg.ShardConfig.Groups c)"] by simp
  finally show False using load_sum [OF assms(1,2)] by simp
qed

lemma balanced_not_member:
  assumes "ShardCfg.ShardConfig.Groups c \<noteq> [] \<Longrightarrow> assigned c" and "ShardCfg.ShardConfig.Groups c = [] \<Longrightarrow> set (Shards c) \<subseteq> {0}"
    and "g \<notin> gids c" and "g \<noteq> 0"
  shows "\<not> IsMember c g"
  using assms by (cases "ShardCfg.ShardConfig.Groups c = []") (auto simp: IsMember_def assigned_def)

section \<open>Joining and leaving, one group at a time\<close>

lemma then_Rebalance_result:
  assumes "cfg_wf c" and "m = Ret (c\<lparr>Num := n, ShardCfg.ShardConfig.Groups := gs\<rparr>, True)" and "gm_wf gs"
  shows "\<exists>c'. then_Rebalance m = Ret (c', True) \<and> cfg_wf c' \<and> Num c' = n \<and> ShardCfg.ShardConfig.Groups c' = gs \<and>
    (gs \<noteq> [] \<longrightarrow> assigned c') \<and> (gs = [] \<longrightarrow> set (Shards c') \<subseteq> {0}) \<and> balanced c'"
proof -
  let ?d = "c\<lparr>Num := n, ShardCfg.ShardConfig.Groups := gs\<rparr>"
  have wf: "cfg_wf ?d" using assms by (simp add: cfg_wf_def)
  from Rebalance_total [OF this] obtain c' where
    c': "Rebalance ?d = Some c'" "frame ?d c'" "gs \<noteq> [] \<longrightarrow> assigned c'" "balanced c'" by auto
  moreover have "gs = [] \<longrightarrow> set (Shards c') \<subseteq> {0}" using c'(1) by (auto simp: Rebalance_def)
  ultimately show ?thesis
    using assms(2) frame_wf [OF _ wf] by (auto simp: then_Rebalance_def frame_def)
qed

lemma JoinBalance_new:
  assumes "cfg_wf c" and "g \<notin> gids c" and "\<not> shares_server ss (ShardCfg.ShardConfig.Groups c)"
  shows "\<exists>c'. JoinBalance c [(g, ss)] = Ret (c', True) \<and> cfg_wf c' \<and> Num c' = Num c + 1 \<and>
    ShardCfg.ShardConfig.Groups c' = ShardCfg.ShardConfig.Groups c @ [(g, ss)] \<and> assigned c' \<and> balanced c'"
proof -
  let ?gs = "ShardCfg.ShardConfig.Groups c @ [(g, ss)]"
  have wf: "gm_wf ?gs" using assms(1,2) by (auto simp: cfg_wf_def gm_wf_def)
  have "Join c [(g, ss)] = Ret (c\<lparr>Num := Num c + 1, ShardCfg.ShardConfig.Groups := ?gs\<rparr>, True)"
    using assms(2,3) map_of_None_gids [of c g] by (simp add: Join_def update_fresh)
  from then_Rebalance_result [OF assms(1) this wf] show ?thesis by (simp add: JoinBalance_def)
qed

lemma LeaveBalance_member:
  assumes "cfg_wf c" and "g \<in> gids c"
  shows "\<exists>c'. LeaveBalance c [g] = Ret (c', True) \<and> cfg_wf c' \<and> Num c' = Num c + 1 \<and>
    ShardCfg.ShardConfig.Groups c' = AList.delete g (ShardCfg.ShardConfig.Groups c) \<and>
    (ShardCfg.ShardConfig.Groups c' \<noteq> [] \<longrightarrow> assigned c') \<and> (ShardCfg.ShardConfig.Groups c' = [] \<longrightarrow> set (Shards c') \<subseteq> {0})"
proof -
  let ?gs = "AList.delete g (ShardCfg.ShardConfig.Groups c)"
  have wf: "gm_wf ?gs" using assms(1) by (simp add: cfg_wf_def gm_wf_def distinct_delete)
  have "Leave c [g] = Ret (c\<lparr>Num := Num c + 1, ShardCfg.ShardConfig.Groups := ?gs\<rparr>, True)"
    using assms(2) map_of_None_gids [of c g] by (simp add: Leave_def)
  from then_Rebalance_result [OF assms(1) this wf] show ?thesis by (auto simp: LeaveBalance_def)
qed

text \<open>
  A controller that keeps the configuration it is given: \<open>Query\<close> returns the current one, which \<open>InitConfig\<close> and
  \<open>ChangeConfigTo\<close> set, and \<open>InitController\<close> does not lose it.
\<close>

definition controller_ok :: "'c controller \<Rightarrow> ('c \<Rightarrow> ShardConfig option) \<Rightarrow> bool" where
  "controller_ok ctl cur \<longleftrightarrow> (\<forall>sck new c. cur (c_ChangeConfigTo ctl sck new c) = Some new \<and> cur (c_InitConfig ctl sck new c) = Some new \<and>
     cur (c_InitController ctl sck c) = cur c \<and> fst (c_Query ctl sck c) = cur c \<and> cur (snd (c_Query ctl sck c)) = cur c)"

lemma checkMember_eq:
  assumes "controller_ok ctl cur" and "cur (sht_sys ts) = Some cfg"
  shows "\<exists>c. checkMember ctl sck g ts = Ret (IsMember cfg g, ts\<lparr>sht_sys := c\<rparr>) \<and> cur c = Some cfg"
proof -
  obtain x c where q: "c_Query ctl sck (sht_sys ts) = (x, c)" by force
  have "x = Some cfg" "cur c = Some cfg" using assms q by (metis controller_ok_def fst_conv, metis controller_ok_def snd_conv)
  with q show ?thesis by (intro exI [of _ c]) (simp add: checkMember_def)
qed

lemma test_join_eq:
  assumes "controller_ok ctl cur" and "cur (sht_sys ts) = Some cfg" and "cfg_wf cfg" and "JoinBalance cfg [(g, ss)] = Ret (cfg', True)"
  shows "\<exists>c. test_join ctl sck g ss ts = Ret (ts\<lparr>sht_sys := c\<rparr>) \<and> cur c = Some cfg'"
proof -
  obtain x c where q: "c_Query ctl sck (sht_sys ts) = (x, c)" by force
  have "x = Some cfg" using assms(1,2) q by (metis controller_ok_def fst_conv)
  with q assms show ?thesis
    by (intro exI [of _ "c_ChangeConfigTo ctl sck cfg' c"]) (simp add: test_join_def Copy_same controller_ok_def)
qed

lemma test_leave_eq:
  assumes "controller_ok ctl cur" and "cur (sht_sys ts) = Some cfg" and "cfg_wf cfg" and "LeaveBalance cfg [g] = Ret (cfg', True)"
  shows "\<exists>c. test_leave ctl sck g ts = Ret (ts\<lparr>sht_sys := c\<rparr>) \<and> cur c = Some cfg'"
proof -
  obtain x c where q: "c_Query ctl sck (sht_sys ts) = (x, c)" by force
  have "x = Some cfg" using assms(1,2) q by (metis controller_ok_def fst_conv)
  with q assms show ?thesis
    by (intro exI [of _ "c_ChangeConfigTo ctl sck cfg' c"]) (simp add: test_leave_def Copy_same controller_ok_def)
qed

text \<open>The state of a test between two operations: the controllers' configuration is \<open>cfg\<close>.\<close>

definition test_ok :: "(nat \<Rightarrow> string) \<Rightarrow> ('c \<Rightarrow> ShardConfig option) \<Rightarrow> ('w, 's, 'c, 'k) shard_test \<Rightarrow> ShardConfig \<Rightarrow> bool" where
  "test_ok names cur ts cfg \<longleftrightarrow> groups_ok names ts \<and> cur (sht_sys ts) = Some cfg \<and> cfg_ok ts cfg"

lemma test_ok_sys:
  "test_ok names cur ts cfg \<Longrightarrow> cur c = Some cfg' \<Longrightarrow> cfg_ok ts cfg' \<Longrightarrow> test_ok names cur (ts\<lparr>sht_sys := c\<rparr>) cfg'"
  by (simp add: test_ok_def groups_ok_def cfg_ok_def)

lemma join_one:
  fixes ts :: "('w, 's, 'c, 'k) shard_test"
  assumes ctl: "controller_ok ctl cur" and pr: "program_ok pr" and ok: "test_ok names cur ts cfg"
    and g: "1 \<le> g" "g \<notin> gids cfg" and room: "length (ShardCfg.ShardConfig.Groups cfg) < NShards"
  shows "\<exists>ts' cfg'. joinGroups names pr ctl sck (g # gs) ts = joinGroups names pr ctl sck gs ts' \<and> test_ok names cur ts' cfg' \<and>
    ShardCfg.ShardConfig.Groups cfg' = ShardCfg.ShardConfig.Groups cfg @ [(g, gid_names g)] \<and> Num cfg' = Num cfg + 1 \<and>
    assigned cfg' \<and> balanced cfg' \<and> sht_ngid ts' = sht_ngid ts"
proof -
  have cfg: "groups_ok names ts" "cur (sht_sys ts) = Some cfg" "cfg_wf cfg"
    "\<And>h ss. (h, ss) \<in> set (ShardCfg.ShardConfig.Groups cfg) \<Longrightarrow> 1 \<le> h \<and> ss = gid_names h \<and>
       lookupGroup h (Tester.Config.Groups (sht_Config ts)) \<noteq> None"
    using ok by (auto simp: test_ok_def cfg_ok_def)
  obtain ts1 where ts1: "on_config (MakeGroupStart names pr g NSRV) ts = Ret ts1" "groups_ok names ts1" "same_control ts ts1"
    "group_SrvNames g ts1 = Ret (gid_names g)"
    "\<And>h. h \<noteq> g \<Longrightarrow> lookupGroup h (Tester.Config.Groups (sht_Config ts1)) = lookupGroup h (Tester.Config.Groups (sht_Config ts))"
    using MakeGroupStart_ok [OF cfg(1) pr] by blast
  have "\<not> shares_server (gid_names g) (ShardCfg.ShardConfig.Groups cfg)"
    using g cfg(4) by (intro gid_names_disjoint) auto
  from JoinBalance_new [OF cfg(3) g(2) this] obtain cfg' where
    j: "JoinBalance cfg [(g, gid_names g)] = Ret (cfg', True)" "cfg_wf cfg'" "Num cfg' = Num cfg + 1"
       "ShardCfg.ShardConfig.Groups cfg' = ShardCfg.ShardConfig.Groups cfg @ [(g, gid_names g)]" "assigned cfg'" "balanced cfg'" by blast
  have c1: "cur (sht_sys ts1) = Some cfg" using ts1(3) cfg(2) by (simp add: same_control_def)
  obtain c2 where c2: "test_join ctl sck g (gid_names g) ts1 = Ret (ts1\<lparr>sht_sys := c2\<rparr>)" "cur c2 = Some cfg'"
    using test_join_eq [OF ctl c1 cfg(3) j(1)] by blast
  obtain c3 where c3: "checkMember ctl sck g (ts1\<lparr>sht_sys := c2\<rparr>) = Ret (IsMember cfg' g, ts1\<lparr>sht_sys := c3\<rparr>)" "cur c3 = Some cfg'"
    using checkMember_eq [OF ctl, of "ts1\<lparr>sht_sys := c2\<rparr>" cfg'] c2(2) by auto
  have "IsMember cfg' g" using room by (intro balanced_member j) (auto simp: j(4))
  moreover have "lookupGroup g (Tester.Config.Groups (sht_Config ts1)) \<noteq> None"
    using ts1(4) by (auto simp: group_SrvNames_def split: option.splits)
  then have "cfg_ok ts1 cfg'" using cfg(4) j(2,4) g(1) ts1(5) by (fastforce simp: cfg_ok_def)
  ultimately show ?thesis
    using ts1(1-4) c2 c3 j by (intro exI [of _ "ts1\<lparr>sht_sys := c3\<rparr>"] exI [of _ cfg'])
      (auto simp: test_ok_def groups_ok_def cfg_ok_def same_control_def)
qed

lemma joinGroups_ok:
  fixes ts :: "('w, 's, 'c, 'k) shard_test"
  assumes ctl: "controller_ok ctl cur" and pr: "program_ok pr"
  shows "test_ok names cur ts cfg \<Longrightarrow> distinct gs \<Longrightarrow> (\<forall>g\<in>set gs. 1 \<le> g \<and> g \<notin> gids cfg) \<Longrightarrow>
    length (ShardCfg.ShardConfig.Groups cfg) + length gs \<le> NShards \<Longrightarrow>
    \<exists>ts' cfg'. joinGroups names pr ctl sck gs ts = Ret (True, ts') \<and> test_ok names cur ts' cfg' \<and>
      ShardCfg.ShardConfig.Groups cfg' = ShardCfg.ShardConfig.Groups cfg @ map (\<lambda>g. (g, gid_names g)) gs \<and>
      Num cfg' = Num cfg + int (length gs) \<and> (gs \<noteq> [] \<longrightarrow> assigned cfg' \<and> balanced cfg') \<and> sht_ngid ts' = sht_ngid ts"
proof (induction gs arbitrary: ts cfg)
  case (Cons g gs)
  from Cons.prems obtain ts1 cfg1 where 1: "joinGroups names pr ctl sck (g # gs) ts = joinGroups names pr ctl sck gs ts1"
    "test_ok names cur ts1 cfg1" "ShardCfg.ShardConfig.Groups cfg1 = ShardCfg.ShardConfig.Groups cfg @ [(g, gid_names g)]"
    "Num cfg1 = Num cfg + 1" "assigned cfg1" "balanced cfg1" "sht_ngid ts1 = sht_ngid ts"
    using join_one [OF ctl pr Cons.prems(1), of g sck gs] by auto
  show ?case
  proof (cases "gs = []")
    case True
    then show ?thesis using 1 by auto
  next
    case False
    with Cons.IH [OF 1(2)] Cons.prems 1 show ?thesis by (auto simp: add.assoc)
  qed
qed auto

lemma leave_one:
  fixes ts :: "('w, 's, 'c, 'k) shard_test"
  assumes ctl: "controller_ok ctl cur" and pr: "program_ok pr" and ok: "test_ok names cur ts cfg" and g: "g \<in> gids cfg"
  shows "\<exists>ts' cfg'. leaveGroups pr ctl sck (g # gs) ts = leaveGroups pr ctl sck gs ts' \<and> test_ok names cur ts' cfg' \<and>
    ShardCfg.ShardConfig.Groups cfg' = AList.delete g (ShardCfg.ShardConfig.Groups cfg) \<and> Num cfg' = Num cfg + 1 \<and> sht_ngid ts' = sht_ngid ts"
proof -
  have cfg: "groups_ok names ts" "cur (sht_sys ts) = Some cfg" "cfg_wf cfg"
    "\<And>h ss. (h, ss) \<in> set (ShardCfg.ShardConfig.Groups cfg) \<Longrightarrow> 1 \<le> h \<and> ss = gid_names h \<and>
       lookupGroup h (Tester.Config.Groups (sht_Config ts)) \<noteq> None"
    using ok by (auto simp: test_ok_def cfg_ok_def)
  from LeaveBalance_member [OF cfg(3) g] obtain cfg' where
    l: "LeaveBalance cfg [g] = Ret (cfg', True)" "cfg_wf cfg'" "Num cfg' = Num cfg + 1"
       "ShardCfg.ShardConfig.Groups cfg' = AList.delete g (ShardCfg.ShardConfig.Groups cfg)"
       "ShardCfg.ShardConfig.Groups cfg' \<noteq> [] \<longrightarrow> assigned cfg'" "ShardCfg.ShardConfig.Groups cfg' = [] \<longrightarrow> set (Shards cfg') \<subseteq> {0}" by blast
  obtain c2 where c2: "test_leave ctl sck g ts = Ret (ts\<lparr>sht_sys := c2\<rparr>)" "cur c2 = Some cfg'"
    using test_leave_eq [OF ctl cfg(2,3) l(1)] by blast
  obtain c3 where c3: "checkMember ctl sck g (ts\<lparr>sht_sys := c2\<rparr>) = Ret (IsMember cfg' g, ts\<lparr>sht_sys := c3\<rparr>)" "cur c3 = Some cfg'"
    using checkMember_eq [OF ctl, of "ts\<lparr>sht_sys := c2\<rparr>" cfg'] c2(2) by auto
  obtain ss where ss: "(g, ss) \<in> set (ShardCfg.ShardConfig.Groups cfg)" using g by auto
  have "\<not> IsMember cfg' g" using l(5,6) cfg(4) [OF ss] by (intro balanced_not_member) (auto simp: l(4) AList.delete_eq)
  moreover obtain ts4 where ts4: "on_config (ExitGroup pr g) (ts\<lparr>sht_sys := c3\<rparr>) = Ret ts4" "groups_ok names ts4" "same_control (ts\<lparr>sht_sys := c3\<rparr>) ts4"
    "\<And>h. h \<noteq> g \<Longrightarrow> lookupGroup h (Tester.Config.Groups (sht_Config ts4)) = lookupGroup h (Tester.Config.Groups (sht_Config ts))"
    using ExitGroup_ok [OF _ pr, of names "ts\<lparr>sht_sys := c3\<rparr>" g] cfg(1) cfg(4) [OF ss] by (auto simp: groups_ok_def)
  moreover have "cfg_ok ts4 cfg'" using cfg(4) l(2,4) ts4(4) by (fastforce simp: cfg_ok_def AList.delete_eq)
  ultimately show ?thesis
    using c2 c3 l(3,4) by (intro exI [of _ ts4] exI [of _ cfg']) (auto simp: test_ok_def same_control_def)
qed

lemma leaveGroups_ok:
  fixes ts :: "('w, 's, 'c, 'k) shard_test"
  assumes ctl: "controller_ok ctl cur" and pr: "program_ok pr"
  shows "test_ok names cur ts cfg \<Longrightarrow> distinct gs \<Longrightarrow> set gs \<subseteq> gids cfg \<Longrightarrow>
    \<exists>ts' cfg'. leaveGroups pr ctl sck gs ts = Ret (True, ts') \<and> test_ok names cur ts' cfg' \<and>
      ShardCfg.ShardConfig.Groups cfg' = filter (\<lambda>e. fst e \<notin> set gs) (ShardCfg.ShardConfig.Groups cfg) \<and>
      Num cfg' = Num cfg + int (length gs) \<and> sht_ngid ts' = sht_ngid ts"
proof (induction gs arbitrary: ts cfg)
  case (Cons g gs)
  from Cons.prems obtain ts1 cfg1 where 1: "leaveGroups pr ctl sck (g # gs) ts = leaveGroups pr ctl sck gs ts1"
    "test_ok names cur ts1 cfg1" "ShardCfg.ShardConfig.Groups cfg1 = AList.delete g (ShardCfg.ShardConfig.Groups cfg)"
    "Num cfg1 = Num cfg + 1" "sht_ngid ts1 = sht_ngid ts"
    using leave_one [OF ctl pr Cons.prems(1), of g sck gs] by auto
  have "set gs \<subseteq> gids cfg1" using Cons.prems(2,3) by (force simp: 1(3) AList.delete_eq)
  from Cons.IH [OF 1(2) _ this] Cons.prems(2) obtain ts2 cfg2 where
    "leaveGroups pr ctl sck gs ts1 = Ret (True, ts2)" "test_ok names cur ts2 cfg2"
    "ShardCfg.ShardConfig.Groups cfg2 = filter (\<lambda>e. fst e \<notin> set gs) (ShardCfg.ShardConfig.Groups cfg1)"
    "Num cfg2 = Num cfg1 + int (length gs)" "sht_ngid ts2 = sht_ngid ts1" by auto
  with 1 show ?case by (intro exI [of _ ts2] exI [of _ cfg2]) (simp add: delete_filter)
qed auto

lemma test_groups_eq: "test_groups n ts = (map int [nat (sht_ngid ts)..<nat (sht_ngid ts) + n], ts\<lparr>sht_ngid := sht_ngid ts + int n\<rparr>)"
  if "0 \<le> sht_ngid ts"
  using that
proof (induction n arbitrary: ts)
  case (Suc n)
  then have "nat (sht_ngid ts + 1) = Suc (nat (sht_ngid ts))" by simp
  with Suc.IH [of "ts\<lparr>sht_ngid := sht_ngid ts + 1\<rparr>"] Suc.prems show ?case
    by (simp add: newGid_def upt_conv_Cons add.assoc del: upt_Suc)
qed simp

lemma test_MakeClient_ok:
  assumes "groups_ok names ts" and "Clnts (sht_Config ts) \<noteq> None"
  shows "\<exists>clnt ts'. test_MakeClient ts = Ret (clnt, ts') \<and> groups_ok names ts' \<and> sht_sys ts' = sht_sys ts \<and> sht_ngid ts' = sht_ngid ts \<and>
    Clnts (sht_Config ts') \<noteq> None \<and> Tester.Config.Groups (sht_Config ts') = Tester.Config.Groups (sht_Config ts)"
  using assms by (auto simp: test_MakeClient_def MakeClient_def MakeClientTo_def groups_ok_def grp_ok_def names_fresh_def Let_def)

lemma setup_made:
  fixes ts :: "('w, 's, 'c, 'k) shard_test"
  assumes pr: "program_ok pr" and ok: "groups_ok names ts" and cl: "Clnts (sht_Config ts) \<noteq> None"
  shows "\<exists>ts' clnt cfg sg. setupKVService names pr ctl ts = Ret (Gid1, ts') \<and> sht_sck ts' = Some (MakeShardCtrler clnt) \<and>
    sht_sys ts' = c_InitConfig ctl (MakeShardCtrler clnt) cfg (sht_sys ts) \<and> cfg_wf cfg \<and> assigned cfg \<and> balanced cfg \<and> Num cfg = 1 \<and>
    ShardCfg.ShardConfig.Groups cfg = [(Gid1, gid_names Gid1)] \<and> Shards cfg = replicate NShards Gid1 \<and>
    lookupGroup Gid1 (Tester.Config.Groups (sht_Config ts')) = Some sg \<and> SrvNames sg = gid_names Gid1 \<and> length (srvs sg) = NSRV \<and>
    (\<forall>h. h \<noteq> Gid1 \<longrightarrow> lookupGroup h (Tester.Config.Groups (sht_Config ts')) = lookupGroup h (Tester.Config.Groups (sht_Config ts))) \<and>
    groups_ok names ts' \<and> sht_ngid ts' = sht_ngid ts \<and> Clnts (sht_Config ts') \<noteq> None"
proof -
  obtain clnt ts1 where ts1: "test_MakeClient ts = Ret (clnt, ts1)" "groups_ok names ts1" "sht_ngid ts1 = sht_ngid ts" "Clnts (sht_Config ts1) \<noteq> None"
    "sht_sys ts1 = sht_sys ts" "Tester.Config.Groups (sht_Config ts1) = Tester.Config.Groups (sht_Config ts)"
    using test_MakeClient_ok [OF ok cl] by blast
  let ?sck = "MakeShardCtrler clnt" and ?ts1 = "ts1\<lparr>sht_sck := Some (MakeShardCtrler clnt)\<rparr>"
  have "groups_ok names ?ts1" using ts1(2) by (simp add: groups_ok_def)
  from MakeGroupStart_made [OF this pr, of Gid1 NSRV] obtain ts2 sg where
    ts2: "on_config (MakeGroupStart names pr Gid1 NSRV) ?ts1 = Ret ts2" "groups_ok names ts2" "same_control ?ts1 ts2"
      "lookupGroup Gid1 (Tester.Config.Groups (sht_Config ts2)) = Some sg" "SrvNames sg = gid_names Gid1" "length (srvs sg) = NSRV"
      "\<forall>h. h \<noteq> Gid1 \<longrightarrow> lookupGroup h (Tester.Config.Groups (sht_Config ts2)) = lookupGroup h (Tester.Config.Groups (sht_Config ?ts1))"
    unfolding gid_names_def by blast
  have wf: "cfg_wf MakeShardConfig" by (simp add: cfg_wf_def MakeShardConfig_def gm_wf_def)
  have "\<exists>c'. JoinBalance MakeShardConfig [(Gid1, gid_names Gid1)] = Ret (c', True) \<and> cfg_wf c' \<and> Num c' = Num MakeShardConfig + 1 \<and>
    ShardCfg.ShardConfig.Groups c' = ShardCfg.ShardConfig.Groups MakeShardConfig @ [(Gid1, gid_names Gid1)] \<and> assigned c' \<and> balanced c'"
    by (rule JoinBalance_new [OF wf]) (simp_all add: MakeShardConfig_def shares_server_def)
  then obtain cfg where j: "JoinBalance MakeShardConfig [(Gid1, gid_names Gid1)] = Ret (cfg, True)" "cfg_wf cfg" "Num cfg = 1"
       "ShardCfg.ShardConfig.Groups cfg = [(Gid1, gid_names Gid1)]" "assigned cfg" "balanced cfg"
    by (auto simp: MakeShardConfig_def)
  have "Shards cfg = replicate NShards Gid1"
    using j(2,4,5) by (intro replicate_eqI) (auto simp: cfg_wf_def assigned_def)
  with ts1 ts2 j show ?thesis
    by (intro exI [of _ "ts2\<lparr>sht_sys := c_InitConfig ctl ?sck cfg (sht_sys ts2)\<rparr>"] exI [of _ clnt] exI [of _ cfg] exI [of _ sg])
      (simp add: setupKVService_def makeShardCtrler_def makeShardCtrlerClnt_def group_SrvNames_def groups_ok_def same_control_def)
qed

lemma setup_ok:
  fixes ts :: "('w, 's, 'c, 'k) shard_test"
  assumes ctl: "controller_ok ctl cur" and "program_ok pr" and "groups_ok names ts" and "Clnts (sht_Config ts) \<noteq> None"
  shows "\<exists>ts' cfg. setupKVService names pr ctl ts = Ret (Gid1, ts') \<and> test_ok names cur ts' cfg \<and> Num cfg = 1 \<and>
    ShardCfg.ShardConfig.Groups cfg = [(Gid1, gid_names Gid1)] \<and> Shards cfg = replicate NShards Gid1 \<and>
    sht_ngid ts' = sht_ngid ts \<and> Clnts (sht_Config ts') \<noteq> None"
  using setup_made [OF assms(2-4), of ctl] ctl
  by (elim exE conjE) (auto simp: test_ok_def cfg_ok_def controller_ok_def Gid1_def)

text \<open>A new test: its network has no end points yet, so the names drawn are fresh.\<close>

lemma MakeTestMaxRaft_ok:
  fixes t :: "'w Tester" and kvsrv :: "('w, 's) program" and c :: 'c and kt :: "'k kv_test"
  assumes "inj names" and pr: "program_ok kvsrv"
  shows "\<exists>ts sg. MakeTestMaxRaft names kvsrv rel partn maxraftstate t c kt = Ret ts \<and> groups_ok names ts \<and> Clnts (sht_Config ts) \<noteq> None \<and>
    sht_sys ts = c \<and> sht_ngid ts = 2 \<and> lookupGroup GRP0 (Tester.Config.Groups (sht_Config ts)) = Some sg \<and> SrvNames sg = [ServerName GRP0 0]"
proof -
  let ?t = "t\<lparr>tnet := MakeNetwork (store (tnet t)) (world (tnet t))\<rparr>"
  let ?ts = "\<lparr>sht_Config = \<lparr>Clnts = None, Tester.Config.Groups = newGroups, rpcs0 = 0, cfg_ops = 0\<rparr>, sht_net = ?t, sht_sys = c, sht_kv = kt,
     sht_sck = None, sht_partition = partn, sht_maxraftstate = maxraftstate, sht_ngid = Gid1 + 1\<rparr> :: ('w, 's, 'c, 'k) shard_test"
  have "groups_ok names ?ts" using assms(1) by (simp add: groups_ok_def names_fresh_def MakeNetwork_def newGroups_def)
  from MakeGroupStart_made [OF this pr, of GRP0 1] obtain ts1 sg where
    ts1: "on_config (MakeGroupStart names kvsrv GRP0 1) ?ts = Ret ts1" "groups_ok names ts1"
      "lookupGroup GRP0 (Tester.Config.Groups (sht_Config ts1)) = Some sg" "SrvNames sg = [ServerName GRP0 0]" by auto
  from ts1(1) obtain cfg t1 where mk: "MakeGroupStart names kvsrv GRP0 1 (sht_Config ?ts) ?t = Ret (cfg, t1)"
    "ts1 = ?ts\<lparr>sht_Config := cfg, sht_net := t1\<rparr>"
    by (auto simp: on_config_def go_simps)
  let ?t1 = "t1\<lparr>tnet := Reliable rel (tnet t1)\<rparr>"
  have "names_fresh names ?t1 = names_fresh names t1" "grp_ok names n g ?t1 = grp_ok names n g t1" for n and g :: "'s ServerGrp"
    by (simp_all add: names_fresh_def grp_ok_def Reliable_def)
  with ts1(2-4) mk show ?thesis
    by (simp add: MakeTestMaxRaft_def MakeConfig_def Config_Begin_def makeClnts_def groups_ok_def Gid1_def)
qed

text \<open>With the controller of the repository, whose \<open>Query\<close> returns nil, every join and every leave panics.\<close>

lemma skeleton_stops:
  "test_join shardctrler sck g ss ts = Panic" "test_leave shardctrler sck g ts = Panic" "checkMember shardctrler sck g ts = Panic"
  "leaveGroups pr shardctrler sck (g # gs) ts = Panic"
  by (simp_all add: test_join_def test_leave_def checkMember_def shardctrler_def)

lemma skeleton_join_stops:
  assumes "groups_ok names ts" and "program_ok pr"
  shows "joinGroups names pr shardctrler sck (g # gs) ts = Panic"
  using MakeGroupStart_ok [OF assms, of g] by (elim exE conjE) (simp add: skeleton_stops(1))

section \<open>Properties\<close>


text \<open>A program of one service per server, and the state before a test.\<close>

definition one_service :: "(nat, nat) program" where
  "one_service = \<lparr>ps_Kill = (\<lambda>s w. w), ps_MakeService = (\<lambda>s. Ret \<lparr>svc_name = ''S'', svc_methods = []\<rparr>),
     ps_mks = (\<lambda>es g i p w pm. ([Some 5], w, pm))\<rparr>"

definition no_network :: "nat Tester" where
  "no_network = \<lparr>tnet = MakeNetwork (\<lambda>p. MakeServer) 0, drawn = 0, pmem = (\<lambda>p. MakePersister), pnext = 0,
     snext = 0, cmem = (\<lambda>c. makeClntTo None), cnext = 0\<rparr>"


text \<open>
  The groups of a test join and leave, with a controller that does what its comments ask for, which the
  skeleton under \<open>src\<close> does not. Take a test whose groups are well formed, and new group numbers from \<open>groups\<close>. As long as
  there are not more groups than the twelve shards, \<open>joinGroups\<close> returns true, and the configuration then has the old groups
  and the new ones, passes \<open>CheckConfig\<close>, and its number has grown by one per group; letting the new groups leave
  in any order returns true as well, and the groups are the old ones again.
\<close>

lemma groups_join_and_leave:
  assumes "controller_ok ctl cur" and "program_ok pr" and ok: "test_ok names cur ts cfg" and n: "0 < n"
    and "1 \<le> sht_ngid ts" and "\<forall>g\<in>gids cfg. g < sht_ngid ts" and "length (ShardCfg.ShardConfig.Groups cfg) + n \<le> NShards"
    and gs: "test_groups n ts = (gs, ts1)" and "mset leaving = mset gs"
  shows "\<exists>ts2 cfg2 ts3 cfg3. joinGroups names pr ctl sck gs ts1 = Ret (True, ts2) \<and> cur (sht_sys ts2) = Some cfg2 \<and>
    ShardCfg.ShardConfig.Groups cfg2 = ShardCfg.ShardConfig.Groups cfg @ map (\<lambda>g. (g, gid_names g)) gs \<and> Num cfg2 = Num cfg + int n \<and>
    CheckConfig cfg2 (map fst (ShardCfg.ShardConfig.Groups cfg2)) = Ret () \<and>
    leaveGroups pr ctl sck leaving ts2 = Ret (True, ts3) \<and> cur (sht_sys ts3) = Some cfg3 \<and>
    ShardCfg.ShardConfig.Groups cfg3 = ShardCfg.ShardConfig.Groups cfg \<and> Num cfg3 = Num cfg + 2 * int n"
proof -
  let ?G = "ShardCfg.ShardConfig.Groups"
  have eq: "gs = map int [nat (sht_ngid ts)..<nat (sht_ngid ts) + n]" "ts1 = ts\<lparr>sht_ngid := sht_ngid ts + int n\<rparr>"
    using gs test_groups_eq [of ts n] assms(5) by auto
  have new: "distinct gs" "\<forall>g\<in>set gs. 1 \<le> g \<and> g \<notin> gids cfg" "length gs = n"
    using assms(5) by (auto simp: eq(1) distinct_map) (use assms(5,6) in force)
  have "test_ok names cur ts1 cfg" using ok by (simp add: eq(2) test_ok_def groups_ok_def cfg_ok_def)
  from joinGroups_ok [OF assms(1,2) this new(1,2), of sck] assms(7) new(3) n obtain ts2 cfg2 where
    j: "joinGroups names pr ctl sck gs ts1 = Ret (True, ts2)" "test_ok names cur ts2 cfg2"
       "?G cfg2 = ?G cfg @ map (\<lambda>g. (g, gid_names g)) gs" "Num cfg2 = Num cfg + int n" "assigned cfg2" "balanced cfg2" by auto
  have wf: "cfg_wf cfg2" "cur (sht_sys ts2) = Some cfg2" using j(2) by (auto simp: test_ok_def cfg_ok_def)
  have check: "CheckConfig cfg2 (map fst (?G cfg2)) = Ret ()"
    using wf(1) j(5,6) by (intro CheckConfig_ok) (auto simp: cfg_wf_def gm_wf_def)
  have lv: "distinct leaving" "set leaving = set gs" "length leaving = n"
    using assms(9) new(1,3) by (metis mset_eq_imp_distinct_iff, metis set_mset_mset, metis size_mset)
  have "set leaving \<subseteq> gids cfg2" by (force simp: lv(2) j(3))
  from leaveGroups_ok [OF assms(1,2) j(2) lv(1) this, of sck] obtain ts3 cfg3 where
    l: "leaveGroups pr ctl sck leaving ts2 = Ret (True, ts3)" "test_ok names cur ts3 cfg3"
       "?G cfg3 = filter (\<lambda>e. fst e \<notin> set leaving) (?G cfg2)" "Num cfg3 = Num cfg2 + int (length leaving)" by auto
  have "filter (\<lambda>e. fst e \<notin> set gs) (?G cfg) = ?G cfg" using new(2) by (intro filter_True) force
  then have "?G cfg3 = ?G cfg" by (simp add: l(3) lv(2) j(3) filter_map o_def)
  with j l wf check lv(3) show ?thesis
    by (intro exI [of _ ts2] exI [of _ cfg2] exI [of _ ts3] exI [of _ cfg3]) (simp add: test_ok_def)
qed

text \<open>
  More groups than shards. When every shard has a group of its own, a further group joins the
  configuration but gets no shard, so \<open>checkMember\<close> does not see it and \<open>joinGroups\<close> returns false for a join that
  succeeded.
\<close>

lemma join_without_shard:
  assumes ctl: "controller_ok ctl cur" and "program_ok pr" and ok: "test_ok names cur ts cfg"
    and "1 \<le> g" and "g \<notin> gids cfg" and "assigned cfg" and one: "\<forall>h\<in>gids cfg. load cfg h = 1"
  shows "\<exists>ts'. joinGroups names pr ctl sck [g] ts = Ret (False, ts') \<and>
    cur (sht_sys ts') = Some (cfg\<lparr>Num := Num cfg + 1, ShardCfg.ShardConfig.Groups := ShardCfg.ShardConfig.Groups cfg @ [(g, gid_names g)]\<rparr>)"
proof -
  let ?gs = "ShardCfg.ShardConfig.Groups cfg @ [(g, gid_names g)]"
  let ?new = "cfg\<lparr>Num := Num cfg + 1, ShardCfg.ShardConfig.Groups := ?gs\<rparr>"
  have cfg: "groups_ok names ts" "cur (sht_sys ts) = Some cfg" "cfg_wf cfg"
    "\<And>h ss. (h, ss) \<in> set (ShardCfg.ShardConfig.Groups cfg) \<Longrightarrow> 1 \<le> h \<and> ss = gid_names h"
    using ok by (auto simp: test_ok_def cfg_ok_def)
  obtain ts1 where ts1: "on_config (MakeGroupStart names pr g NSRV) ts = Ret ts1" "same_control ts ts1"
    "group_SrvNames g ts1 = Ret (gid_names g)"
    using MakeGroupStart_ok [OF cfg(1) assms(2)] by blast
  have none: "g \<notin> set (Shards cfg)" using assms(5,6) by (auto simp: assigned_def)
  have "load cfg g = 0" using none by (simp add: count_list_0_iff)
  then have bal: "cfg_wf ?new" "assigned ?new" "balanced ?new"
    using cfg(3) assms(5,6) one by (auto simp: cfg_wf_def gm_wf_def assigned_def balanced_def)
  have disj: "\<not> shares_server (gid_names g) (ShardCfg.ShardConfig.Groups cfg)"
    using assms(4,5) cfg(4) by (intro gid_names_disjoint) auto
  have "Join cfg [(g, gid_names g)] = Ret (?new, True)"
    using assms(5) disj map_of_None_gids [of cfg g] by (simp add: Join_def update_fresh)
  moreover have "Rebalance ?new = Some ?new" using Rebalance_fixed_point [OF bal(1) _ bal(2,3)] by simp
  ultimately have "JoinBalance cfg [(g, gid_names g)] = Ret (?new, True)" by (simp add: JoinBalance_def then_Rebalance_def)
  moreover have "cur (sht_sys ts1) = Some cfg" using ts1(2) cfg(2) by (simp add: same_control_def)
  ultimately obtain c2 where c2: "test_join ctl sck g (gid_names g) ts1 = Ret (ts1\<lparr>sht_sys := c2\<rparr>)" "cur c2 = Some ?new"
    using test_join_eq [OF ctl _ cfg(3)] by blast
  obtain c3 where "checkMember ctl sck g (ts1\<lparr>sht_sys := c2\<rparr>) = Ret (IsMember ?new g, ts1\<lparr>sht_sys := c3\<rparr>)" "cur c3 = Some ?new"
    using checkMember_eq [OF ctl, of "ts1\<lparr>sht_sys := c2\<rparr>" ?new] c2(2) by auto
  moreover have "\<not> IsMember ?new g" using none by (simp add: IsMember_def)
  ultimately show ?thesis using ts1 c2 by simp
qed

text \<open>One round of \<open>concurCtrler\<close>, alone, leaves the groups as it found them.\<close>

lemma concur_round_restores:
  fixes ts :: "('w, 's, 'c, 'k) shard_test"
  assumes ctl: "controller_ok ctl cur" and pr: "program_ok pr" and ok: "test_ok names cur ts cfg" and cl: "Clnts (sht_Config ts) \<noteq> None"
    and "1 \<le> sht_ngid ts" and "\<forall>g\<in>gids cfg. g < sht_ngid ts" and "length (ShardCfg.ShardConfig.Groups cfg) < NShards"
  shows "\<exists>ts' cfg'. concur_round names pr ctl ts = Ret ts' \<and> test_ok names cur ts' cfg' \<and>
    ShardCfg.ShardConfig.Groups cfg' = ShardCfg.ShardConfig.Groups cfg \<and> Num cfg' = Num cfg + 2 \<and> sht_ngid ts' = sht_ngid ts + 1"
proof -
  let ?G = "ShardCfg.ShardConfig.Groups" and ?g = "sht_ngid ts" and ?ts = "ts\<lparr>sht_ngid := sht_ngid ts + 1\<rparr>"
  have "groups_ok names ?ts" "Clnts (sht_Config ?ts) \<noteq> None" using ok cl by (auto simp: test_ok_def groups_ok_def)
  from test_MakeClient_ok [OF this] obtain clnt ts1 where
    ts1: "test_MakeClient ?ts = Ret (clnt, ts1)" "groups_ok names ts1" "sht_sys ts1 = sht_sys ts" "sht_ngid ts1 = ?g + 1"
      "Tester.Config.Groups (sht_Config ts1) = Tester.Config.Groups (sht_Config ts)" by auto
  let ?sck = "MakeShardCtrler clnt"
  let ?ts1 = "ts1\<lparr>sht_sys := c_InitController ctl (MakeShardCtrler clnt) (sht_sys ts1)\<rparr>"
  have ok1: "test_ok names cur ?ts1 cfg"
    using ok ts1(2,3,5) ctl by (auto simp: test_ok_def groups_ok_def cfg_ok_def controller_ok_def)
  have new: "?g \<notin> gids cfg" using assms(6) by auto
  from joinGroups_ok [OF ctl pr ok1, of "[?g]" ?sck] assms(5,7) new obtain ts2 cfg2 where
    j: "joinGroups names pr ctl ?sck [?g] ?ts1 = Ret (True, ts2)" "test_ok names cur ts2 cfg2"
       "?G cfg2 = ?G cfg @ [(?g, gid_names ?g)]" "Num cfg2 = Num cfg + 1" "assigned cfg2" "balanced cfg2" "sht_ngid ts2 = ?g + 1"
    using ts1(4) by auto
  have "cur (sht_sys ts2) = Some cfg2" "cfg_wf cfg2" using j(2) by (auto simp: test_ok_def cfg_ok_def)
  then obtain c where c: "checkMember ctl ?sck ?g ts2 = Ret (IsMember cfg2 ?g, ts2\<lparr>sht_sys := c\<rparr>)" "cur c = Some cfg2"
    using checkMember_eq [OF ctl] by blast
  have mem: "IsMember cfg2 ?g" using assms(7) \<open>cfg_wf cfg2\<close> j(5,6) by (intro balanced_member) (auto simp: j(3))
  have ok2: "test_ok names cur (ts2\<lparr>sht_sys := c\<rparr>) cfg2" using test_ok_sys [OF j(2) c(2)] j(2) by (simp add: test_ok_def)
  from leaveGroups_ok [OF ctl pr ok2, of "[?g]" ?sck] obtain ts3 cfg3 where
    l: "leaveGroups pr ctl ?sck [?g] (ts2\<lparr>sht_sys := c\<rparr>) = Ret (True, ts3)" "test_ok names cur ts3 cfg3"
       "?G cfg3 = filter (\<lambda>e. fst e \<notin> {?g}) (?G cfg2)" "Num cfg3 = Num cfg2 + 1" "sht_ngid ts3 = ?g + 1"
    using j(3,7) by auto
  have "filter (\<lambda>e. fst e \<notin> {?g}) (?G cfg) = ?G cfg" using new by (intro filter_True) force
  with ts1 j c mem l show ?thesis
    by (intro exI [of _ ts3] exI [of _ cfg3])
      (simp add: concur_round_def newGid_def Let_def makeShardCtrler_def makeShardCtrlerClnt_def)
qed

end
