(* ===== verification/MrCoordinator.thy ===== *)
theory MrCoordinator
  imports Prelude
begin

text \<open>
  The coordinator of the MapReduce lab, \<open>mr/coordinator.go\<close>, with the RPC types of \<open>mr/rpc.go\<close>: the
  task table, the phases, the two message handlers and the scheduling loop that serves one message
  at a time. The mutex is part of the state, because \<open>handleHeartBeat\<close> calls itself while it holds
  it. The results: what the coordinator guarantees when workers report each task they were given
  once and in time, and what happens otherwise.
\<close>

section \<open>Messages\<close>

record RequestTaskReply =
  TaskType :: string
  FileName :: string
  NReduce :: int
  NMap :: int
  TaskID :: int

record ReportTaskArgs =
  rt_TaskID :: int
  rt_TaskType :: string

definition zero_reply :: RequestTaskReply where
  "zero_reply = \<lparr>TaskType = '''', FileName = '''', NReduce = 0, NMap = 0, TaskID = 0\<rparr>"

definition coordinatorSock :: "int \<Rightarrow> string" where
  "coordinatorSock uid = ''/var/tmp/5840-mr-'' @ Itoa uid"

section \<open>The coordinator's state\<close>

datatype SchedulePhase = MapPhase | ReducePhase | DonePhase

datatype TaskStatus = Inited | Running | Completed

text \<open>Times are nanoseconds; the zero \<open>time.Time\<close> of a task that never ran is 0 and never looked at.\<close>

record Task =
  fileName :: string
  startTime :: int
  task_id :: int
  status :: TaskStatus

record Coordinator =
  mu :: bool
  files :: "string list"
  nReduce :: int
  nMap :: int
  phase :: SchedulePhase
  tasks :: "Task list"

definition new_task :: "string \<Rightarrow> nat \<Rightarrow> Task" where
  "new_task f i = \<lparr>fileName = f, startTime = 0, task_id = int i, status = Inited\<rparr>"

text \<open>\<open>make\<close> panics on a negative length, and \<open>c.files[i]\<close> beyond the files.\<close>

definition initMapPhase :: "Coordinator \<Rightarrow> Coordinator go" where
  "initMapPhase c =
     (if nMap c < 0 \<or> nMap c > int (length (files c)) then Panic
      else Ret (c\<lparr>phase := MapPhase, tasks := map (\<lambda>i. new_task (files c ! i) i) [0..<nat (nMap c)]\<rparr>))"

definition initReducePhase :: "Coordinator \<Rightarrow> Coordinator go" where
  "initReducePhase c =
     (if nReduce c < 0 then Panic
      else Ret (c\<lparr>phase := ReducePhase, tasks := map (\<lambda>i. new_task '''' i) [0..<nat (nReduce c)]\<rparr>))"

definition MakeCoordinator :: "string list \<Rightarrow> int \<Rightarrow> Coordinator" where
  "MakeCoordinator fs n = \<lparr>mu = False, files = fs, nReduce = n, nMap = int (length fs), phase = MapPhase, tasks = []\<rparr>"

text \<open>\<open>Done\<close> takes the mutex like everyone else.\<close>

definition Done :: "Coordinator \<Rightarrow> bool go" where
  "Done c = (if mu c then Block else Ret (phase c = DonePhase))"

section \<open>The handlers\<close>

text \<open>The first loop of a phase: the first free task, or the first running one that has timed out.\<close>

datatype scan = Free nat | Expired nat | Nothing

definition task_timeout :: int where
  "task_timeout = 10 * 1000000000"

fun scan_tasks :: "int \<Rightarrow> nat list \<Rightarrow> Task list \<Rightarrow> scan go" where
  "scan_tasks now [] ts = Ret Nothing"
| "scan_tasks now (i # is) ts =
     (if \<not> i < length ts then Panic
      else if status (ts ! i) = Inited then Ret (Free i)
      else if status (ts ! i) = Running \<and> now - startTime (ts ! i) > task_timeout then Ret (Expired i)
      else scan_tasks now is ts)"

text \<open>The second loop, with its \<open>break\<close>.\<close>

fun all_completed :: "nat list \<Rightarrow> Task list \<Rightarrow> bool go" where
  "all_completed [] ts = Ret True"
| "all_completed (i # is) ts =
     (if \<not> i < length ts then Panic
      else if status (ts ! i) \<noteq> Completed then Ret False
      else all_completed is ts)"

definition set_status :: "nat \<Rightarrow> TaskStatus \<Rightarrow> Coordinator \<Rightarrow> Coordinator" where
  "set_status i st c = c\<lparr>tasks := (tasks c)[i := (tasks c ! i)\<lparr>status := st\<rparr>]\<rparr>"

text \<open>Handing out task \<open>i\<close>; a reduce reply leaves the file name empty.\<close>

definition assign_task :: "int \<Rightarrow> string \<Rightarrow> nat \<Rightarrow> Coordinator \<Rightarrow> Coordinator \<times> RequestTaskReply" where
  "assign_task now ty i c =
     (let c = c\<lparr>tasks := (tasks c)[i := (tasks c ! i)\<lparr>status := Running, startTime := now\<rparr>]\<rparr>
      in (c, \<lparr>TaskType = ty, FileName = (if ty = ''map'' then fileName (tasks c ! i) else ''''),
              NReduce = nReduce c, NMap = nMap c, TaskID = task_id (tasks c ! i)\<rparr>))"

text \<open>
  \<open>c.mu.Lock()\<close> waits for ever when the goroutine itself holds the mutex, which is the case in every
  recursive call. The mutex is free again on every return (\<open>unlocked\<close> is the deferred \<open>Unlock\<close>).
\<close>

definition unlocked :: "Coordinator \<times> 'r \<Rightarrow> (Coordinator \<times> 'r) go" where
  "unlocked r = Ret ((fst r)\<lparr>mu := False\<rparr>, snd r)"

function handleHeartBeat :: "int \<Rightarrow> Coordinator \<Rightarrow> (Coordinator \<times> RequestTaskReply) go" where
  "handleHeartBeat now c0 =
     (if mu c0 then Block
      else let c = c0\<lparr>mu := True\<rparr> in
      (case phase c of
         MapPhase \<Rightarrow>
           go_bind (scan_tasks now [0..<nat (nMap c)] (tasks c)) (\<lambda>found.
             case found of
               Free i \<Rightarrow> unlocked (assign_task now ''map'' i c)
             | Expired i \<Rightarrow> go_bind (handleHeartBeat now ((set_status i Inited c)\<lparr>mu := True\<rparr>)) unlocked
             | Nothing \<Rightarrow>
                 go_bind (all_completed [0..<nat (nMap c)] (tasks c)) (\<lambda>allCompleted.
                   if allCompleted
                   then go_bind (initReducePhase c) (\<lambda>c. go_bind (handleHeartBeat now (c\<lparr>mu := True\<rparr>)) unlocked)
                   else unlocked (c, zero_reply\<lparr>TaskType := ''wait''\<rparr>)))
       | ReducePhase \<Rightarrow>
           go_bind (scan_tasks now [0..<nat (nReduce c)] (tasks c)) (\<lambda>found.
             case found of
               Free i \<Rightarrow> unlocked (assign_task now ''reduce'' i c)
             | Expired i \<Rightarrow> go_bind (handleHeartBeat now ((set_status i Inited c)\<lparr>mu := True\<rparr>)) unlocked
             | Nothing \<Rightarrow>
                 go_bind (all_completed [0..<nat (nReduce c)] (tasks c)) (\<lambda>allCompleted.
                   if allCompleted
                   then unlocked (c\<lparr>phase := DonePhase\<rparr>, zero_reply\<lparr>TaskType := ''done''\<rparr>)
                   else unlocked (c, zero_reply\<lparr>TaskType := ''wait''\<rparr>)))
       | DonePhase \<Rightarrow> unlocked (c, zero_reply\<lparr>TaskType := ''done''\<rparr>)))"
  by auto

termination
  by (relation "measure (\<lambda>(now, c). if mu c then 0 else 1)") auto

declare handleHeartBeat.simps [simp del]

text \<open>\<open>c.tasks[args.TaskID].status = Completed\<close> under the bound of the phase the report names.\<close>

definition complete_task :: "int \<Rightarrow> int \<Rightarrow> Coordinator \<Rightarrow> Coordinator go" where
  "complete_task i n c =
     (if 0 \<le> i \<and> i < n
      then (if nat i < length (tasks c) then Ret (set_status (nat i) Completed c) else Panic)
      else Ret c)"

definition handleReport :: "ReportTaskArgs \<Rightarrow> Coordinator \<Rightarrow> Coordinator go" where
  "handleReport args c0 =
     (if mu c0 then Block
      else let c = c0\<lparr>mu := True\<rparr> in
      go_bind
        (if rt_TaskType args = ''map'' then
           go_bind (complete_task (rt_TaskID args) (nMap c) c) (\<lambda>c.
             go_bind (all_completed [0..<nat (nMap c)] (tasks c)) (\<lambda>allCompleted.
               if allCompleted then initReducePhase c else Ret c))
         else if rt_TaskType args = ''reduce'' then
           go_bind (complete_task (rt_TaskID args) (nReduce c) c) (\<lambda>c.
             go_bind (all_completed [0..<nat (nReduce c)] (tasks c)) (\<lambda>allCompleted.
               if allCompleted then Ret (c\<lparr>phase := DonePhase\<rparr>) else Ret c))
         else Ret c)
        (\<lambda>c. Ret (c\<lparr>mu := False\<rparr>)))"

section \<open>The scheduling loop\<close>

text \<open>
  \<open>Schedule\<close> initialises the map phase and serves the messages of the two channels one at a time, in
  the order in which \<open>select\<close> takes them; \<open>RequestTask\<close> and \<open>ReportTask\<close> put a message into a channel
  and wait for it to be served.
\<close>

datatype message = RequestTask int | ReportTask ReportTaskArgs

definition serve_message :: "message \<Rightarrow> Coordinator \<Rightarrow> (Coordinator \<times> RequestTaskReply option) go" where
  "serve_message msg c =
     (case msg of
        RequestTask now \<Rightarrow> go_bind (handleHeartBeat now c) (\<lambda>(c, r). Ret (c, Some r))
      | ReportTask args \<Rightarrow> go_bind (handleReport args c) (\<lambda>c. Ret (c, None)))"

fun Schedule_loop :: "message list \<Rightarrow> Coordinator \<Rightarrow> (Coordinator \<times> RequestTaskReply option list) go" where
  "Schedule_loop [] c = Ret (c, [])"
| "Schedule_loop (msg # msgs) c =
     go_bind (serve_message msg c) (\<lambda>(c, r).
       go_bind (Schedule_loop msgs c) (\<lambda>(c, rs). Ret (c, r # rs)))"

definition Schedule :: "message list \<Rightarrow> Coordinator \<Rightarrow> (Coordinator \<times> RequestTaskReply option list) go" where
  "Schedule msgs c = go_bind (initMapPhase c) (Schedule_loop msgs)"

section \<open>The loops over the task table\<close>

definition expired :: "int \<Rightarrow> Task \<Rightarrow> bool" where
  "expired now t \<longleftrightarrow> status t = Running \<and> now - startTime t > task_timeout"

lemma scan_tasks_spec:
  assumes "\<And>i. i \<in> set is \<Longrightarrow> i < length ts"
  shows "(\<exists>i \<in> set is. scan_tasks now is ts = Ret (Free i) \<and> status (ts ! i) = Inited) \<or>
    (\<exists>i \<in> set is. scan_tasks now is ts = Ret (Expired i) \<and> expired now (ts ! i)) \<or>
    scan_tasks now is ts = Ret Nothing \<and> (\<forall>i \<in> set is. status (ts ! i) \<noteq> Inited \<and> \<not> expired now (ts ! i))"
  using assms by (induction "is") (auto simp: expired_def)

lemma all_completed_spec:
  assumes "\<And>i. i \<in> set is \<Longrightarrow> i < length ts"
  shows "all_completed is ts = Ret (\<forall>i \<in> set is. status (ts ! i) = Completed)"
  using assms by (induction "is") auto

text \<open>The second loop over a table that may be shorter: it stops at an uncompleted task, else it panics at the end of the table.\<close>

lemma all_completed_short:
  "all_completed [a..<k] ts =
     (if \<exists>j. a \<le> j \<and> j < k \<and> j < length ts \<and> status (ts ! j) \<noteq> Completed then Ret False
      else if k \<le> length ts \<or> k \<le> a then Ret True else Panic)"
proof (induction "k - a" arbitrary: a)
  case (Suc d)
  then have a: "a < k" "[a..<k] = a # [Suc a..<k]" "d = k - Suc a" by (auto simp: upt_conv_Cons)
  have "(\<exists>j. a \<le> j \<and> P j) \<longleftrightarrow> P a \<or> (\<exists>j. Suc a \<le> j \<and> P j)" for P
    by (metis Suc_leD Suc_leI le_less le_refl)
  then show ?case
    using Suc.hyps(1) [OF a(3)] a(1) unfolding a(2) by auto
qed auto

lemma heartbeat_locked [simp]: "mu c \<Longrightarrow> handleHeartBeat now c = Block"
  by (subst handleHeartBeat.simps) simp

section \<open>What the table says about assigned and reported tasks\<close>

text \<open>
  The abstract view of a job: the tasks handed out and not yet reported, and the reported ones. A
  task is its type and number; \<open>M\<close> and \<open>R\<close> are the job's map and reduce tasks.
\<close>

type_synonym job_task = "string \<times> nat"

definition tasks_of :: "string \<Rightarrow> nat \<Rightarrow> job_task set" where
  "tasks_of ty k = {ty} \<times> {..<k}"

definition table_ok :: "string \<Rightarrow> nat \<Rightarrow> job_task set \<Rightarrow> job_task set \<Rightarrow> Task list \<Rightarrow> bool" where
  "table_ok ty k out rep ts \<longleftrightarrow> length ts = k \<and> (\<forall>i < k. task_id (ts ! i) = int i \<and>
     status (ts ! i) = (if (ty, i) \<in> rep then Completed else if (ty, i) \<in> out then Running else Inited))"

definition coord_ok :: "string list \<Rightarrow> nat \<Rightarrow> Coordinator \<Rightarrow> job_task set \<Rightarrow> job_task set \<Rightarrow> bool" where
  "coord_ok fs n c out rep \<longleftrightarrow>
     \<not> mu c \<and> files c = fs \<and> nMap c = int (length fs) \<and> nReduce c = int n \<and> out \<inter> rep = {} \<and>
     (let M = tasks_of ''map'' (length fs); R = tasks_of ''reduce'' n in
      case phase c of
        MapPhase \<Rightarrow> out \<subseteq> M \<and> rep \<subset> M \<and> table_ok ''map'' (length fs) out rep (tasks c) \<and>
          (\<forall>i < length fs. fileName (tasks c ! i) = fs ! i)
      | ReducePhase \<Rightarrow> out \<subseteq> R \<and> M \<subseteq> rep \<and> rep \<subset> M \<union> R \<and> table_ok ''reduce'' n out rep (tasks c)
      | DonePhase \<Rightarrow> out = {} \<and> rep = M \<union> R)"

lemma tasks_of_disjoint [simp]: "tasks_of ''map'' k \<inter> tasks_of ''reduce'' n = {}"
  by (auto simp: tasks_of_def)

lemma tasks_of_iff [simp]: "(ty', i) \<in> tasks_of ty k \<longleftrightarrow> ty' = ty \<and> i < k"
  by (auto simp: tasks_of_def)

lemma table_all_completed:
  "table_ok ty k out rep ts \<Longrightarrow> all_completed [0..<k] ts = Ret (tasks_of ty k \<subseteq> rep)"
  by (subst all_completed_spec) (auto simp: table_ok_def tasks_of_def split: if_splits)

lemma table_assign:
  assumes "table_ok ty k out rep ts" and "i < k" and "(ty, i) \<notin> rep"
  shows "table_ok ty k (insert (ty, i) out) rep (ts[i := (ts ! i)\<lparr>status := Running, startTime := now\<rparr>])"
  using assms by (auto simp: table_ok_def nth_list_update)

lemma table_complete:
  assumes "table_ok ty k out rep ts" and "i < k"
  shows "table_ok ty k (out - {(ty, i)}) (insert (ty, i) rep) (ts[i := (ts ! i)\<lparr>status := Completed\<rparr>])"
  using assms by (auto simp: table_ok_def nth_list_update)

lemma table_new: "\<forall>i < k. (ty, i) \<notin> rep \<Longrightarrow> table_ok ty k {} rep (map (\<lambda>i. new_task (f i) i) [0..<k])"
  by (simp add: table_ok_def new_task_def)

text \<open>The three outcomes of the first loop on a table.\<close>

lemma table_scan:
  assumes "table_ok ty k out rep ts"
  shows "(\<exists>i < k. scan_tasks now [0..<k] ts = Ret (Free i) \<and> (ty, i) \<notin> out \<union> rep) \<or>
    (\<exists>i < k. scan_tasks now [0..<k] ts = Ret (Expired i) \<and> expired now (ts ! i)) \<or>
    scan_tasks now [0..<k] ts = Ret Nothing \<and> (\<forall>i < k. (ty, i) \<in> out \<union> rep)"
  using scan_tasks_spec [of "[0..<k]" ts now] assms
  by (fastforce simp: table_ok_def split: if_splits)

section \<open>Honest runs\<close>

text \<open>
  The runs in which every report is for a task that was handed out and not reported before; \<open>out\<close>
  and \<open>rep\<close> collect what the replies handed out and what was reported.
\<close>

definition handed_out :: "RequestTaskReply \<Rightarrow> job_task set" where
  "handed_out r = (if TaskType r = ''map'' \<or> TaskType r = ''reduce'' then {(TaskType r, nat (TaskID r))} else {})"

inductive honest_run :: "string list \<Rightarrow> nat \<Rightarrow> Coordinator \<Rightarrow> job_task set \<Rightarrow> job_task set \<Rightarrow> bool"
  for fs n where
  start: "initMapPhase (MakeCoordinator fs (int n)) = Ret c \<Longrightarrow> honest_run fs n c {} {}"
| request: "honest_run fs n c out rep \<Longrightarrow> handleHeartBeat now c = Ret (c', r) \<Longrightarrow>
    honest_run fs n c' (out \<union> handed_out r) rep"
| report: "honest_run fs n c out rep \<Longrightarrow> (ty, i) \<in> out \<Longrightarrow>
    handleReport \<lparr>rt_TaskID = int i, rt_TaskType = ty\<rparr> c = Ret c' \<Longrightarrow>
    honest_run fs n c' (out - {(ty, i)}) (insert (ty, i) rep)"

text \<open>What a request does to a coordinator in such a run, when no running task has timed out.\<close>

definition no_expired :: "int \<Rightarrow> Coordinator \<Rightarrow> bool" where
  "no_expired now c \<longleftrightarrow> (\<forall>t \<in> set (tasks c). \<not> expired now t)"

lemma heartbeat_assigns:
  assumes "coord_ok fs n c out rep" and "phase c = MapPhase \<and> ty = ''map'' \<and> k = length fs \<or>
      phase c = ReducePhase \<and> ty = ''reduce'' \<and> k = n"
    and "i < k" and "(ty, i) \<notin> out \<union> rep" and "assign_task now ty i (c\<lparr>mu := True\<rparr>) = (c', r)"
  shows "coord_ok fs n (c'\<lparr>mu := False\<rparr>) (out \<union> handed_out r) rep \<and> handed_out r = {(ty, i)} \<and>
    TaskType r = ty \<and> TaskID r = int i \<and> (ty = ''map'' \<longrightarrow> FileName r = fs ! i) \<and>
    NMap r = int (length fs) \<and> NReduce r = int n"
proof -
  have tab: "table_ok ty k out rep (tasks c)"
    using assms(1,2) by (auto simp: coord_ok_def Let_def)
  note new = table_assign [OF tab assms(3), of now]
  have len: "length (tasks c) = k" "task_id (tasks c ! i) = int i"
    using tab assms(3) by (auto simp: table_ok_def)
  show ?thesis
    using assms new len
    by (auto simp: assign_task_def Let_def coord_ok_def handed_out_def nth_list_update)
qed

definition good_reply :: "string list \<Rightarrow> nat \<Rightarrow> Coordinator \<Rightarrow> job_task set \<Rightarrow> job_task set \<Rightarrow> RequestTaskReply \<Rightarrow> bool" where
  "good_reply fs n c out rep r \<longleftrightarrow>
     handed_out r \<subseteq> (tasks_of ''map'' (length fs) \<union> tasks_of ''reduce'' n) - (out \<union> rep) \<and>
     (TaskType r = ''map'' \<longrightarrow> FileName r = fs ! nat (TaskID r)) \<and>
     (handed_out r \<noteq> {} \<longrightarrow> 0 \<le> TaskID r \<and> NMap r = int (length fs) \<and> NReduce r = int n) \<and>
     (TaskType r = ''done'' \<longleftrightarrow> phase c = DonePhase) \<and> (TaskType r = ''wait'' \<longrightarrow> out \<noteq> {}) \<and>
     TaskType r \<in> {''map'', ''reduce'', ''wait'', ''done''}"

lemma heartbeat_phase:
  assumes ok: "coord_ok fs n c out rep" and ph: "phase c = MapPhase \<and> ty = ''map'' \<and> k = length fs \<or>
      phase c = ReducePhase \<and> ty = ''reduce'' \<and> k = n"
  shows "(handleHeartBeat now c = Block \<and> \<not> no_expired now c) \<or>
    (\<exists>c' r. handleHeartBeat now c = Ret (c', r) \<and> coord_ok fs n c' (out \<union> handed_out r) rep \<and>
       good_reply fs n c out rep r)"
proof -
  have tab: "table_ok ty k out rep (tasks c)" and nm: "nMap c = int (length fs)" "nReduce c = int n" "\<not> mu c"
    and notall: "\<not> tasks_of ty k \<subseteq> rep"
    using ok ph by (auto simp: coord_ok_def Let_def)
  note all = table_all_completed [OF tab]
  from table_scan [OF tab, of now] consider
      (free) i where "i < k" "scan_tasks now [0..<k] (tasks c) = Ret (Free i)" "(ty, i) \<notin> out \<union> rep"
    | (late) i where "i < k" "scan_tasks now [0..<k] (tasks c) = Ret (Expired i)" "expired now (tasks c ! i)"
    | (none) "scan_tasks now [0..<k] (tasks c) = Ret Nothing" "\<forall>i < k. (ty, i) \<in> out \<union> rep"
    by blast
  then show ?thesis
  proof cases
    case free
    obtain c' r where a: "assign_task now ty i (c\<lparr>mu := True\<rparr>) = (c', r)" by force
    note as = heartbeat_assigns [OF ok ph free(1,3) a]
    have "handleHeartBeat now c = Ret (c'\<lparr>mu := False\<rparr>, r)"
      using free(2) a ph nm by (subst handleHeartBeat.simps) (auto simp: unlocked_def)
    moreover have "good_reply fs n c out rep r"
      using as free(1,3) ph by (auto simp: good_reply_def)
    ultimately show ?thesis using as by blast
  next
    case late
    have "handleHeartBeat now c = Block"
      using late(2) ph nm by (subst handleHeartBeat.simps) auto
    moreover have "tasks c ! i \<in> set (tasks c)"
      using tab late(1) by (simp add: table_ok_def)
    ultimately show ?thesis using late(3) by (auto simp: no_expired_def)
  next
    case none
    have "handleHeartBeat now c = Ret (c, zero_reply\<lparr>TaskType := ''wait''\<rparr>)"
      using none(1) all notall ph nm by (subst handleHeartBeat.simps) (auto simp: unlocked_def)
    moreover have "out \<noteq> {}"
      using notall none(2) by (auto simp: tasks_of_def)
    ultimately show ?thesis
      using ok ph by (auto simp: good_reply_def handed_out_def)
  qed
qed

lemma heartbeat_spec:
  assumes ok: "coord_ok fs n c out rep"
  shows "(handleHeartBeat now c = Block \<and> \<not> no_expired now c) \<or>
    (\<exists>c' r. handleHeartBeat now c = Ret (c', r) \<and> coord_ok fs n c' (out \<union> handed_out r) rep \<and>
       good_reply fs n c out rep r)"
proof (cases "phase c")
  case DonePhase
  then have "handleHeartBeat now c = Ret (c, zero_reply\<lparr>TaskType := ''done''\<rparr>)"
    using ok by (subst handleHeartBeat.simps) (auto simp: unlocked_def coord_ok_def)
  then show ?thesis
    using ok DonePhase by (auto simp: good_reply_def handed_out_def)
qed (use heartbeat_phase [OF ok] in blast)+

lemma report_map_spec:
  assumes ok: "coord_ok fs n c out rep" and "phase c = MapPhase" and "(ty, i) \<in> out" and "0 < n"
  shows "\<exists>c'. handleReport \<lparr>rt_TaskID = int i, rt_TaskType = ty\<rparr> c = Ret c' \<and>
    coord_ok fs n c' (out - {(ty, i)}) (insert (ty, i) rep)"
proof -
  let ?M = "tasks_of ''map'' (length fs)" and ?R = "tasks_of ''reduce'' n" and ?rep = "insert (ty, i) rep"
  have c: "out \<subseteq> ?M" "rep \<subset> ?M" "table_ok ''map'' (length fs) out rep (tasks c)" "out \<inter> rep = {}"
    "\<not> mu c" "files c = fs" "nMap c = int (length fs)" "nReduce c = int n"
    "\<forall>i < length fs. fileName (tasks c ! i) = fs ! i"
    using ok assms(2) by (auto simp: coord_ok_def Let_def)
  have i: "ty = ''map''" "i < length fs" using assms(3) c(1) by auto
  have len: "length (tasks c) = length fs" using c(3) by (simp add: table_ok_def)
  define d where "d = set_status i Completed (c\<lparr>mu := True\<rparr>)"
  have tab: "table_ok ''map'' (length fs) (out - {(ty, i)}) ?rep (tasks d)"
    using table_complete [OF c(3) i(2)] i by (simp add: d_def set_status_def)
  note all = table_all_completed [OF tab]
  have d: "nMap d = int (length fs)" "nReduce d = int n" "files d = fs" "phase d = MapPhase"
    using c assms(2) by (simp_all add: d_def set_status_def)
  show ?thesis
  proof (cases "?M \<subseteq> ?rep")
    case True
    then have M: "?rep = ?M" using c(2) i by auto
    then have none: "out - {(ty, i)} = {}" using c(1,4) by blast
    moreover from \<open>0 < n\<close> have "(''reduce'', 0) \<in> ?R - ?M" by simp
    then have "?M \<subset> ?M \<union> ?R" by blast
    moreover have "table_ok ''reduce'' n {} ?M (map (\<lambda>i. new_task '''' i) [0..<n])"
      by (rule table_new) simp
    ultimately have "coord_ok fs n (d\<lparr>phase := ReducePhase, tasks := map (\<lambda>i. new_task '''' i) [0..<n], mu := False\<rparr>)
        (out - {(ty, i)}) ?rep"
      unfolding M none using d by (simp add: coord_ok_def Let_def)
    then show ?thesis
      using True all c i d len
      by (simp add: handleReport_def complete_task_def initReducePhase_def flip: d_def)
  next
    case False
    then have "?rep \<subset> ?M" using c(2) i by auto
    then have "coord_ok fs n (d\<lparr>mu := False\<rparr>) (out - {(ty, i)}) ?rep"
      using d c tab i len by (auto simp: coord_ok_def Let_def d_def set_status_def nth_list_update)
    then show ?thesis
      using False all c i d len by (simp add: handleReport_def complete_task_def flip: d_def)
  qed
qed

lemma report_reduce_spec:
  assumes ok: "coord_ok fs n c out rep" and "phase c = ReducePhase" and "(ty, i) \<in> out"
  shows "\<exists>c'. handleReport \<lparr>rt_TaskID = int i, rt_TaskType = ty\<rparr> c = Ret c' \<and>
    coord_ok fs n c' (out - {(ty, i)}) (insert (ty, i) rep)"
proof -
  let ?M = "tasks_of ''map'' (length fs)" and ?R = "tasks_of ''reduce'' n" and ?rep = "insert (ty, i) rep"
  have c: "out \<subseteq> ?R" "?M \<subseteq> rep" "rep \<subset> ?M \<union> ?R" "table_ok ''reduce'' n out rep (tasks c)" "out \<inter> rep = {}"
    "\<not> mu c" "files c = fs" "nMap c = int (length fs)" "nReduce c = int n"
    using ok assms(2) by (auto simp: coord_ok_def Let_def)
  have i: "ty = ''reduce''" "i < n" using assms(3) c(1) by auto
  have len: "length (tasks c) = n" using c(4) by (simp add: table_ok_def)
  define d where "d = set_status i Completed (c\<lparr>mu := True\<rparr>)"
  have tab: "table_ok ''reduce'' n (out - {(ty, i)}) ?rep (tasks d)"
    using table_complete [OF c(4) i(2)] i by (simp add: d_def set_status_def)
  note all = table_all_completed [OF tab]
  have d: "nMap d = int (length fs)" "nReduce d = int n" "files d = fs" "phase d = ReducePhase"
    using c assms(2) by (simp_all add: d_def set_status_def)
  show ?thesis
  proof (cases "?R \<subseteq> ?rep")
    case True
    then have all_rep: "?rep = ?M \<union> ?R" using c(2,3) i by auto
    then have "out - {(ty, i)} = {}" using c(1,5) by blast
    then have "coord_ok fs n (d\<lparr>phase := DonePhase, mu := False\<rparr>) (out - {(ty, i)}) ?rep"
      using d all_rep by (auto simp: coord_ok_def Let_def)
    then show ?thesis
      using True all c i d len by (simp add: handleReport_def complete_task_def flip: d_def)
  next
    case False
    then have "?rep \<subset> ?M \<union> ?R" using c(3) i by auto
    then have "coord_ok fs n (d\<lparr>mu := False\<rparr>) (out - {(ty, i)}) ?rep"
      using d c tab i by (auto simp: coord_ok_def Let_def)
    then show ?thesis
      using False all c i d len by (simp add: handleReport_def complete_task_def flip: d_def)
  qed
qed

lemma report_spec:
  assumes "coord_ok fs n c out rep" and "(ty, i) \<in> out" and "0 < n"
  shows "\<exists>c'. handleReport \<lparr>rt_TaskID = int i, rt_TaskType = ty\<rparr> c = Ret c' \<and>
    coord_ok fs n c' (out - {(ty, i)}) (insert (ty, i) rep)"
proof (cases "phase c")
  case DonePhase
  with assms show ?thesis by (auto simp: coord_ok_def Let_def)
qed (use assms report_map_spec report_reduce_spec in blast)+

lemma honest_run_ok:
  "honest_run fs n c out rep \<Longrightarrow> fs \<noteq> [] \<Longrightarrow> 0 < n \<Longrightarrow> coord_ok fs n c out rep"
proof (induction rule: honest_run.induct)
  case (start c)
  then have "{} \<subset> tasks_of ''map'' (length fs)" by (auto simp: tasks_of_def)
  moreover have "table_ok ''map'' (length fs) {} {} (map (\<lambda>i. new_task (fs ! i) i) [0..<length fs])"
    by (rule table_new) simp
  moreover have "c = (MakeCoordinator fs (int n))\<lparr>tasks := map (\<lambda>i. new_task (fs ! i) i) [0..<length fs]\<rparr>"
    using start.hyps by (simp add: initMapPhase_def MakeCoordinator_def)
  ultimately show ?case
    by (simp add: MakeCoordinator_def coord_ok_def Let_def) (simp add: new_task_def)
next
  case (request c out rep now c' r)
  with heartbeat_spec [of fs n c out rep now] show ?case by auto
next
  case (report c out rep ty i c')
  with report_spec [of fs n c out rep ty i] show ?case by auto
qed

section \<open>Reports of the wrong phase\<close>

lemma coord_ok_done:
  assumes "coord_ok fs n c out rep" and "tasks_of ''map'' (length fs) \<union> tasks_of ''reduce'' n \<subseteq> rep"
  shows "Done c = Ret True"
  using assms by (cases "phase c") (auto simp: coord_ok_def Let_def Done_def)

text \<open>In the reduce phase a map report is applied to the table of reduce tasks.\<close>

lemma map_report_again:
  assumes ok: "coord_ok fs n c out rep" and "phase c = ReducePhase" and "i < length fs"
  shows "handleReport \<lparr>rt_TaskID = int i, rt_TaskType = ''map''\<rparr> c =
     (if i < n \<and> {j. j < n \<and> j < length fs \<and> j \<noteq> i \<and> (''reduce'', j) \<notin> rep} \<noteq> {}
      then Ret (c\<lparr>tasks := (tasks c)[i := (tasks c ! i)\<lparr>status := Completed\<rparr>]\<rparr>)
      else if i < n \<and> length fs \<le> n then Ret (c\<lparr>tasks := map (\<lambda>j. new_task '''' j) [0..<n]\<rparr>)
      else Panic)"
proof -
  have c: "table_ok ''reduce'' n out rep (tasks c)" "\<not> mu c" "nMap c = int (length fs)" "nReduce c = int n"
    using ok assms(2) by (auto simp: coord_ok_def Let_def)
  have len: "length (tasks c) = n" using c(1) by (simp add: table_ok_def)
  let ?U = "{j. j < n \<and> j < length fs \<and> j \<noteq> i \<and> (''reduce'', j) \<notin> rep}"
  let ?ts = "(tasks c)[i := (tasks c ! i)\<lparr>status := Completed\<rparr>]"
  show ?thesis
  proof (cases "i < n")
    case True
    have tab: "table_ok ''reduce'' n (out - {(''reduce'', i)}) (insert (''reduce'', i) rep) ?ts"
      by (rule table_complete [OF c(1) True])
    have all: "all_completed [0..<length fs] ?ts =
       (if ?U \<noteq> {} then Ret False
        else if length fs \<le> n then Ret True else Panic)"
    proof -
      have st: "status (?ts ! j) = Completed \<longleftrightarrow> j = i \<or> (''reduce'', j) \<in> rep" if "j < n" for j
        using tab that by (auto simp: table_ok_def)
      have "(\<exists>j. 0 \<le> j \<and> j < length fs \<and> j < length ?ts \<and> status (?ts ! j) \<noteq> Completed) \<longleftrightarrow>
         ?U \<noteq> {}"
        using st len by auto
      then show ?thesis unfolding all_completed_short using assms(3) len by (intro if_cong) auto
    qed
    define U where "U = ?U"
    from True c assms(2,3) len all show ?thesis
      unfolding U_def [symmetric]
      by (cases c) (simp add: handleReport_def complete_task_def set_status_def initReducePhase_def)
  next
    case False
    then show ?thesis using c assms(3) len by (simp add: handleReport_def complete_task_def)
  qed
qed

lemma counted_as_reported:
  assumes ok: "coord_ok fs n c out rep" and "phase c = ReducePhase" and "i < n" and "j < n" and "j \<noteq> i" and "(''reduce'', j) \<notin> rep"
  shows "coord_ok fs n (c\<lparr>tasks := (tasks c)[i := (tasks c ! i)\<lparr>status := Completed\<rparr>]\<rparr>) (out - {(''reduce'', i)}) (insert (''reduce'', i) rep)"
proof -
  have c: "table_ok ''reduce'' n out rep (tasks c)" using ok assms(2) by (auto simp: coord_ok_def Let_def)
  have "insert (''reduce'', i) rep \<subseteq> tasks_of ''map'' (length fs) \<union> tasks_of ''reduce'' n"
    using ok assms(2,3) by (auto simp: coord_ok_def Let_def)
  moreover have "(''reduce'', j) \<notin> insert (''reduce'', i) rep" "(''reduce'', j) \<in> tasks_of ''reduce'' n" using assms(4-6) by auto
  ultimately have "insert (''reduce'', i) rep \<subset> tasks_of ''map'' (length fs) \<union> tasks_of ''reduce'' n" by blast
  then show ?thesis
    using ok assms(2) table_complete [OF c assms(3)] by (auto simp: coord_ok_def Let_def)
qed

section \<open>Properties\<close>

text \<open>
  C8: the job is declared done exactly when it is. In every run in which workers report only tasks
  they were given and each once: \<open>Done\<close> returns true if and only if every map and every reduce task
  has been reported; a reduce task is handed out or reported only after all map tasks have been
  reported; and no task is both outstanding and reported.
\<close>

theorem done_iff_all_reported:
  assumes "honest_run fs n c out rep" and "fs \<noteq> []" and "0 < n"
  defines "M \<equiv> {''map''} \<times> {..<length fs}" and "R \<equiv> {''reduce''} \<times> {..<n}"
  shows "Done c = Ret (rep = M \<union> R) \<and> out \<union> rep \<subseteq> M \<union> R \<and> out \<inter> rep = {} \<and>
    ((out \<union> rep) \<inter> R \<noteq> {} \<longrightarrow> M \<subseteq> rep)"
proof -
  have MR: "M = tasks_of ''map'' (length fs)" "R = tasks_of ''reduce'' n"
    by (simp_all add: M_def R_def tasks_of_def)
  have "(''reduce'', 0) \<in> R - M" using assms(3) by (simp add: MR)
  moreover have "M \<inter> R = {}" by (simp add: MR)
  moreover have "coord_ok fs n c out rep" by (rule honest_run_ok [OF assms(1-3)])
  ultimately show ?thesis
    unfolding coord_ok_def Let_def MR [symmetric] Done_def
    by (cases "phase c") auto
qed

text \<open>An honest run of one map and one reduce task, to the end.\<close>

definition one_job :: Coordinator where
  "one_job = \<lparr>mu = False, files = [''f''], nReduce = 1, nMap = 1, phase = DonePhase,
     tasks = [\<lparr>fileName = '''', startTime = 7, task_id = 0, status = Completed\<rparr>]\<rparr>"

lemmas coord_eval = handleHeartBeat.simps handleReport_def complete_task_def set_status_def
  assign_task_def unlocked_def initReducePhase_def initMapPhase_def MakeCoordinator_def new_task_def
  zero_reply_def task_timeout_def upt_rec Let_def

lemma one_job_run: "honest_run [''f''] 1 one_job {} {(''map'', 0), (''reduce'', 0)}"
proof -
  define c0 where "c0 = MakeCoordinator [''f''] 1"
  define t where "t f b st = \<lparr>fileName = f, startTime = b, task_id = 0, status = st\<rparr>" for f b st
  have "honest_run [''f''] 1 (c0\<lparr>tasks := [t ''f'' 0 Inited]\<rparr>) {} {}"
    by (rule honest_run.start) (simp add: c0_def t_def coord_eval)
  then have "honest_run [''f''] 1 (c0\<lparr>tasks := [t ''f'' 5 Running]\<rparr>)
     ({} \<union> handed_out \<lparr>TaskType = ''map'', FileName = ''f'', NReduce = 1, NMap = 1, TaskID = 0\<rparr>) {}"
    by (rule honest_run.request [where now = 5]) (simp add: c0_def t_def coord_eval)
  then have "honest_run [''f''] 1 (c0\<lparr>tasks := [t ''f'' 5 Running]\<rparr>) {(''map'', 0)} {}"
    by (simp add: handed_out_def)
  then have "honest_run [''f''] 1 (c0\<lparr>phase := ReducePhase, tasks := [t '''' 0 Inited]\<rparr>)
     ({(''map'', 0)} - {(''map'', 0)}) {(''map'', 0)}"
    by (rule honest_run.report) (simp_all add: c0_def t_def coord_eval)
  then have "honest_run [''f''] 1 (c0\<lparr>phase := ReducePhase, tasks := [t '''' 7 Running]\<rparr>)
     (({(''map'', 0)} - {(''map'', 0)}) \<union>
       handed_out \<lparr>TaskType = ''reduce'', FileName = '''', NReduce = 1, NMap = 1, TaskID = 0\<rparr>) {(''map'', 0)}"
    by (rule honest_run.request [where now = 7]) (simp add: c0_def t_def coord_eval)
  then have "honest_run [''f''] 1 (c0\<lparr>phase := ReducePhase, tasks := [t '''' 7 Running]\<rparr>) {(''reduce'', 0)} {(''map'', 0)}"
    by (simp add: handed_out_def)
  then have "honest_run [''f''] 1 (c0\<lparr>phase := DonePhase, tasks := [t '''' 7 Completed]\<rparr>)
     ({(''reduce'', 0)} - {(''reduce'', 0)}) {(''reduce'', 0), (''map'', 0)}"
    by (rule honest_run.report) (simp_all add: c0_def t_def coord_eval)
  then show ?thesis
    by (simp add: c0_def t_def one_job_def MakeCoordinator_def insert_commute)
qed

theorem done_iff_all_reported_witness: "Done one_job = Ret True"
  using done_iff_all_reported [OF one_job_run] by (auto simp: lessThan_Suc)

text \<open>
  C9: progress and single assignment. In an honest run, a request served while no running task is
  older than ten seconds is answered, without panic or deadlock: with a task that was never handed
  out before, with its input file if it is a map task; with \<open>wait\<close> only while some task is
  outstanding; and with \<open>done\<close> exactly when the job is done. And the report of any outstanding task is
  accepted.
\<close>

theorem coordinator_progress:
  assumes "honest_run fs n c out rep" and "fs \<noteq> []" and "0 < n"
  shows "((\<forall>t \<in> set (tasks c). \<not> expired now t) \<longrightarrow>
      (\<exists>c' r. handleHeartBeat now c = Ret (c', r) \<and> handed_out r \<inter> (out \<union> rep) = {} \<and>
        (TaskType r = ''map'' \<longrightarrow> nat (TaskID r) < length fs \<and> FileName r = fs ! nat (TaskID r)) \<and>
        (TaskType r = ''reduce'' \<longrightarrow> nat (TaskID r) < n) \<and>
        (TaskType r = ''wait'' \<longrightarrow> out \<noteq> {}) \<and> (TaskType r = ''done'' \<longleftrightarrow> Done c = Ret True) \<and>
        TaskType r \<in> {''map'', ''reduce'', ''wait'', ''done''})) \<and>
    (\<forall>ty i. (ty, i) \<in> out \<longrightarrow> (\<exists>c'. handleReport \<lparr>rt_TaskID = int i, rt_TaskType = ty\<rparr> c = Ret c'))"
proof (intro conjI impI)
  have ok: "coord_ok fs n c out rep" by (rule honest_run_ok [OF assms])
  then show "\<forall>ty i. (ty, i) \<in> out \<longrightarrow> (\<exists>c'. handleReport \<lparr>rt_TaskID = int i, rt_TaskType = ty\<rparr> c = Ret c')"
    using report_spec [OF ok _ assms(3)] by blast
  assume "\<forall>t \<in> set (tasks c). \<not> expired now t"
  with heartbeat_spec [OF ok, of now] obtain c' r where
    r: "handleHeartBeat now c = Ret (c', r)" "good_reply fs n c out rep r"
    by (auto simp: no_expired_def)
  moreover have "Done c = Ret True \<longleftrightarrow> phase c = DonePhase"
    using ok by (simp add: Done_def coord_ok_def)
  ultimately show "\<exists>c' r. handleHeartBeat now c = Ret (c', r) \<and> handed_out r \<inter> (out \<union> rep) = {} \<and>
      (TaskType r = ''map'' \<longrightarrow> nat (TaskID r) < length fs \<and> FileName r = fs ! nat (TaskID r)) \<and>
      (TaskType r = ''reduce'' \<longrightarrow> nat (TaskID r) < n) \<and>
      (TaskType r = ''wait'' \<longrightarrow> out \<noteq> {}) \<and> (TaskType r = ''done'' \<longleftrightarrow> Done c = Ret True) \<and>
      TaskType r \<in> {''map'', ''reduce'', ''wait'', ''done''}"
    by (intro exI [of _ c'] exI [of _ r]) (fastforce simp: good_reply_def handed_out_def split: if_splits)
qed

theorem coordinator_progress_witness:
  "\<exists>c' r. handleHeartBeat 9 one_job = Ret (c', r) \<and> TaskType r = ''done''"
proof -
  have "\<forall>t \<in> set (tasks one_job). \<not> expired 9 t"
    by (simp add: one_job_def expired_def)
  moreover have "Done one_job = Ret True" by (simp add: Done_def one_job_def)
  ultimately show ?thesis
    using coordinator_progress [OF one_job_run, of 9] by auto
qed

text \<open>
  C37: a task that times out stops the coordinator for ever. When a request comes in while the first
  task that is not completed and not freshly running is a running task older than ten seconds, the
  handler resets it to be handed out again and calls itself for that, still holding the mutex: it
  waits for itself. So a worker that crashed is never replaced, no later request or report is
  served, and with the mutex taken \<open>Done\<close> does not return either.
\<close>

theorem timeout_deadlocks:
  assumes "\<not> mu c" and "phase c = MapPhase \<and> k = nat (nMap c) \<or> phase c = ReducePhase \<and> k = nat (nReduce c)"
    and "i < k" and "i < length (tasks c)" and "expired now (tasks c ! i)"
    and "\<And>j. j < i \<Longrightarrow> status (tasks c ! j) \<noteq> Inited"
  shows "Schedule_loop (RequestTask now # msgs) c = Block \<and> Done (c\<lparr>mu := True\<rparr>) = Block"
proof -
  have "\<exists>j. scan_tasks now (is @ i # js) (tasks c) = Ret (Expired j)"
    if "\<And>j. j \<in> set is \<Longrightarrow> j < length (tasks c) \<and> status (tasks c ! j) \<noteq> Inited" for "is" js
    using that assms(4,5) by (induction "is") (auto simp: expired_def)
  moreover have "[0..<k] = [0..<i] @ i # [Suc i..<k]"
    using assms(3) upt_add_eq_append [of 0 i "k - i"] by (simp add: upt_conv_Cons)
  ultimately obtain j where "scan_tasks now [0..<k] (tasks c) = Ret (Expired j)"
    using assms(4,6) by (metis atLeastLessThan_iff less_trans set_upt)
  then have "handleHeartBeat now c = Block"
    using assms(1,2) by (subst handleHeartBeat.simps) auto
  then show ?thesis by (simp add: serve_message_def Done_def)
qed

theorem timeout_deadlocks_witness:
  "Schedule_loop [RequestTask 20000000000]
    ((MakeCoordinator [''f''] 1)\<lparr>tasks := [\<lparr>fileName = ''f'', startTime = 5, task_id = 0, status = Running\<rparr>]\<rparr>) = Block"
  using timeout_deadlocks [of "(MakeCoordinator [''f''] 1)\<lparr>tasks := [\<lparr>fileName = ''f'', startTime = 5, task_id = 0, status = Running\<rparr>]\<rparr>"
      1 0 20000000000 "[]"]
  by (simp add: MakeCoordinator_def expired_def task_timeout_def)

text \<open>An honest run of two map tasks and two reduce tasks, up to the moment where the first reduce task is out.\<close>

definition two_jobs :: Coordinator where
  "two_jobs = \<lparr>mu = False, files = [''f'', ''g''], nReduce = 2, nMap = 2, phase = ReducePhase,
     tasks = [\<lparr>fileName = '''', startTime = 7, task_id = 0, status = Running\<rparr>,
              \<lparr>fileName = '''', startTime = 0, task_id = 1, status = Inited\<rparr>]\<rparr>"

lemma two_jobs_run: "honest_run [''f'', ''g''] 2 two_jobs {(''reduce'', 0)} {(''map'', 0), (''map'', 1)}"
proof -
  define c0 where "c0 = MakeCoordinator [''f'', ''g''] 2"
  define t where "t f i b st = \<lparr>fileName = f, startTime = b, task_id = i, status = st\<rparr>" for f i b st
  let ?r = "\<lambda>ty f i. \<lparr>TaskType = ty, FileName = f, NReduce = 2, NMap = 2, TaskID = i\<rparr>"
  note ev = c0_def t_def coord_eval handed_out_def
  have "honest_run [''f'', ''g''] 2 (c0\<lparr>tasks := [t ''f'' 0 0 Inited, t ''g'' 1 0 Inited]\<rparr>) {} {}"
    by (rule honest_run.start) (simp add: ev)
  then have "honest_run [''f'', ''g''] 2 (c0\<lparr>tasks := [t ''f'' 0 5 Running, t ''g'' 1 0 Inited]\<rparr>) ({} \<union> handed_out (?r ''map'' ''f'' 0)) {}"
    by (rule honest_run.request [where now = 5]) (simp add: ev)
  then have "honest_run [''f'', ''g''] 2 (c0\<lparr>tasks := [t ''f'' 0 5 Running, t ''g'' 1 6 Running]\<rparr>)
     ({} \<union> handed_out (?r ''map'' ''f'' 0) \<union> handed_out (?r ''map'' ''g'' 1)) {}"
    by (rule honest_run.request [where now = 6]) (simp add: ev)
  then have "honest_run [''f'', ''g''] 2 (c0\<lparr>tasks := [t ''f'' 0 5 Running, t ''g'' 1 6 Running]\<rparr>) {(''map'', 0), (''map'', 1)} {}"
    by (simp add: handed_out_def insert_commute)
  then have "honest_run [''f'', ''g''] 2 (c0\<lparr>tasks := [t ''f'' 0 5 Completed, t ''g'' 1 6 Running]\<rparr>)
     ({(''map'', 0), (''map'', 1)} - {(''map'', 0)}) {(''map'', 0)}"
    by (rule honest_run.report) (simp_all add: ev)
  then have "honest_run [''f'', ''g''] 2 (c0\<lparr>phase := ReducePhase, tasks := [t '''' 0 0 Inited, t '''' 1 0 Inited]\<rparr>)
     ({(''map'', 0), (''map'', 1)} - {(''map'', 0)} - {(''map'', 1)}) {(''map'', 1), (''map'', 0)}"
    by (rule honest_run.report) (simp_all add: ev)
  then have "honest_run [''f'', ''g''] 2 (c0\<lparr>phase := ReducePhase, tasks := [t '''' 0 7 Running, t '''' 1 0 Inited]\<rparr>)
     ({(''map'', 0), (''map'', 1)} - {(''map'', 0)} - {(''map'', 1)} \<union> handed_out (?r ''reduce'' '''' 0)) {(''map'', 1), (''map'', 0)}"
    by (rule honest_run.request [where now = 7]) (simp add: ev)
  then show ?thesis
    by (simp add: c0_def t_def two_jobs_def MakeCoordinator_def handed_out_def insert_commute)
qed



end
