(* ===== verification/MrWorker.thy ===== *)
theory MrWorker
  imports MrCoordinator "HOL-Library.Char_ord" "HOL-Library.List_Lexorder" "HOL-Library.Multiset"
begin

text \<open>
  The worker of \<open>mr/worker.go\<close> and the sequential MapReduce of \<open>main/mrsequential.go\<close>, over a disk that
  maps file names to contents. The application's \<open>Map\<close> and \<open>Reduce\<close> come from a plugin and are
  arguments. So are two pieces of Go's library: the JSON codec, of which the code needs that decoding
  a file gives back what was encoded into it, and \<open>sort.Sort\<close>, of which it needs a permutation sorted
  by key; how the library orders equal keys is left open. Writes are assumed not to fail (no full disk).
  The main result: whatever order the tasks are executed in, and however often, the output files are
  the sequential program's output, split by the hash of the key.
\<close>

section \<open>Key/value pairs and their partition\<close>

record KeyValue =
  Key :: string
  Value :: string

definition ihash :: "string \<Rightarrow> int" where
  "ihash key = int (unat (fnv32a key AND 0x7fffffff))"

definition ByKey_Less :: "KeyValue \<Rightarrow> KeyValue \<Rightarrow> bool" where
  "ByKey_Less a b \<longleftrightarrow> Key a < Key b"

type_synonym disk = "string \<rightharpoonup> string"

definition inter_name :: "int \<Rightarrow> int \<Rightarrow> string" where
  "inter_name mapID reduceID = ''mr-'' @ Itoa mapID @ ''-'' @ Itoa reduceID"

definition out_name :: "int \<Rightarrow> string" where
  "out_name reduceID = ''mr-out-'' @ Itoa reduceID"

section \<open>Map tasks\<close>

definition add_bucket :: "int \<Rightarrow> KeyValue list list \<Rightarrow> KeyValue \<Rightarrow> KeyValue list list" where
  "add_bucket n buckets kv =
     (let bucketIndex = nat (ihash (Key kv) mod n)
      in buckets[bucketIndex := buckets ! bucketIndex @ [kv]])"

text \<open>\<open>make\<close> panics on a negative length, \<open>%\<close> on zero.\<close>

definition make_buckets :: "int \<Rightarrow> KeyValue list \<Rightarrow> KeyValue list list go" where
  "make_buckets n intermediate =
     (if n < 0 \<or> n = 0 \<and> intermediate \<noteq> [] then Panic
      else Ret (foldl (add_bucket n) (replicate (nat n) []) intermediate))"

definition write_buckets :: "(KeyValue \<Rightarrow> string) \<Rightarrow> int \<Rightarrow> KeyValue list list \<Rightarrow> disk \<Rightarrow> disk" where
  "write_buckets enc mapID buckets d =
     foldl (\<lambda>d i. d(inter_name mapID (int i) \<mapsto> concat (map enc (buckets ! i)))) d [0..<length buckets]"

definition doMapTask ::
  "(KeyValue \<Rightarrow> string) \<Rightarrow> (string \<Rightarrow> string \<Rightarrow> KeyValue list) \<Rightarrow> RequestTaskReply \<Rightarrow> disk \<Rightarrow> disk go" where
  "doMapTask enc mapf reply d =
     (case d (FileName reply) of
        None \<Rightarrow> Ret d
      | Some content \<Rightarrow>
          go_bind (make_buckets (NReduce reply) (mapf (FileName reply) content)) (\<lambda>buckets.
            Ret (write_buckets enc (TaskID reply) buckets d)))"

section \<open>Reduce tasks\<close>

definition read_inter :: "(string \<Rightarrow> KeyValue list) \<Rightarrow> int \<Rightarrow> int \<Rightarrow> disk \<Rightarrow> KeyValue list" where
  "read_inter dec n reduceID d =
     foldl (\<lambda>intermediate i.
       case d (inter_name (int i) reduceID) of
         None \<Rightarrow> intermediate
       | Some content \<Rightarrow> intermediate @ dec content) [] [0..<nat n]"

text \<open>The inner loop: the end of the run of one key; the outer loop goes from run to run.\<close>

function run_end :: "KeyValue list \<Rightarrow> nat \<Rightarrow> nat \<Rightarrow> nat" where
  "run_end kvs i j =
     (if j < length kvs \<and> Key (kvs ! j) = Key (kvs ! i) then run_end kvs i (j + 1) else j)"
  by auto

termination
  by (relation "measure (\<lambda>(kvs, i, j). length kvs - j)") auto

declare run_end.simps [simp del]

lemma run_end_ge: "j \<le> run_end kvs i j"
proof (induction kvs i j rule: run_end.induct)
  case (1 kvs i j)
  then show ?case by (subst run_end.simps) auto
qed

lemma run_end_gt: "i < run_end kvs i (Suc i)"
  using run_end_ge [of "Suc i" kvs i] by simp

function reduce_from :: "(string \<Rightarrow> string list \<Rightarrow> string) \<Rightarrow> KeyValue list \<Rightarrow> nat \<Rightarrow> (string \<times> string) list" where
  "reduce_from reducef kvs i =
     (if i < length kvs
      then let j = run_end kvs i (i + 1);
               values = map (\<lambda>k. Value (kvs ! k)) [i..<j];
               output = reducef (Key (kvs ! i)) values
           in (Key (kvs ! i), output) # reduce_from reducef kvs j
      else [])"
  by auto

termination
  by (relation "measure (\<lambda>(reducef, kvs, i). length kvs - i)")
    (auto intro!: diff_less_mono2 simp: run_end_gt)

declare reduce_from.simps [simp del]

text \<open>\<open>fmt.Fprintf(ofile, "%v %v\n", key, output)\<close>\<close>

definition line :: "string \<times> string \<Rightarrow> string" where
  "line p = fst p @ '' '' @ snd p @ [CHR 0x0A]"

definition doReduceTask ::
  "(string \<Rightarrow> KeyValue list) \<Rightarrow> (KeyValue list \<Rightarrow> KeyValue list) \<Rightarrow> (string \<Rightarrow> string list \<Rightarrow> string) \<Rightarrow>
   RequestTaskReply \<Rightarrow> disk \<Rightarrow> disk go" where
  "doReduceTask dec srt reducef reply d =
     (let intermediate = srt (read_inter dec (NMap reply) (TaskID reply) d)
      in Ret (d(out_name (TaskID reply) \<mapsto> concat (map line (reduce_from reducef intermediate 0)))))"

section \<open>The worker's loop\<close>

text \<open>
  One iteration of \<open>Worker\<close> on the result of its call (\<open>None\<close>: the call failed): the new disk, the
  report it then sends, and whether it goes on.
\<close>

definition Worker_iter ::
  "(KeyValue \<Rightarrow> string) \<Rightarrow> (string \<Rightarrow> KeyValue list) \<Rightarrow> (KeyValue list \<Rightarrow> KeyValue list) \<Rightarrow>
   (string \<Rightarrow> string \<Rightarrow> KeyValue list) \<Rightarrow> (string \<Rightarrow> string list \<Rightarrow> string) \<Rightarrow>
   RequestTaskReply option \<Rightarrow> disk \<Rightarrow> (disk \<times> ReportTaskArgs option \<times> bool) go" where
  "Worker_iter enc dec srt mapf reducef result d =
     (case result of
        None \<Rightarrow> Ret (d, None, True)
      | Some reply \<Rightarrow>
          if TaskType reply = ''map'' then
            go_bind (doMapTask enc mapf reply d) (\<lambda>d.
              Ret (d, Some \<lparr>rt_TaskID = TaskID reply, rt_TaskType = ''map''\<rparr>, True))
          else if TaskType reply = ''reduce'' then
            go_bind (doReduceTask dec srt reducef reply d) (\<lambda>d.
              Ret (d, Some \<lparr>rt_TaskID = TaskID reply, rt_TaskType = ''reduce''\<rparr>, True))
          else if TaskType reply = ''done'' then Ret (d, None, False)
          else Ret (d, None, True))"

text \<open>
  \<open>reportTaskCompletion\<close> calls until a call succeeds; given the results of its calls, the reports it
  sends (\<open>None\<close> while no call has succeeded).
\<close>

fun reportTaskCompletion :: "ReportTaskArgs \<Rightarrow> bool list \<Rightarrow> ReportTaskArgs list option" where
  "reportTaskCompletion args [] = None"
| "reportTaskCompletion args (ok # oks) =
     (if ok then Some [args] else map_option (\<lambda>sent. args # sent) (reportTaskCompletion args oks))"

section \<open>The sequential program\<close>

fun read_all :: "(string \<Rightarrow> string \<Rightarrow> KeyValue list) \<Rightarrow> string list \<Rightarrow> disk \<Rightarrow> KeyValue list go" where
  "read_all mapf [] d = Ret []"
| "read_all mapf (filename # rest) d =
     (case d filename of
        None \<Rightarrow> Fatal
      | Some content \<Rightarrow> go_bind (read_all mapf rest d) (\<lambda>kvs. Ret (mapf filename content @ kvs)))"

definition mrsequential ::
  "(KeyValue list \<Rightarrow> KeyValue list) \<Rightarrow> (string \<Rightarrow> string \<Rightarrow> KeyValue list) \<Rightarrow> (string \<Rightarrow> string list \<Rightarrow> string) \<Rightarrow>
   string list \<Rightarrow> disk \<Rightarrow> disk go" where
  "mrsequential srt mapf reducef fs d =
     go_bind (read_all mapf fs d) (\<lambda>intermediate.
       Ret (d(''mr-out-0'' \<mapsto> concat (map line (reduce_from reducef (srt intermediate) 0)))))"

section \<open>The reduce loop groups by key\<close>

text \<open>What the loop is for: every key once, in order, with all of its values.\<close>

definition key_values :: "string \<Rightarrow> KeyValue list \<Rightarrow> string list" where
  "key_values k kvs = map Value (filter (\<lambda>kv. Key kv = k) kvs)"

definition reduce_pairs :: "(string \<Rightarrow> string list \<Rightarrow> string) \<Rightarrow> KeyValue list \<Rightarrow> (string \<times> string) list" where
  "reduce_pairs reducef kvs = map (\<lambda>k. (k, reducef k (key_values k kvs))) (sorted_list_of_set (Key ` set kvs))"

lemma run_end_eq:
  "run_end kvs i j = j + length (takeWhile (\<lambda>kv. Key kv = Key (kvs ! i)) (drop j kvs))"
proof (induction kvs i j rule: run_end.induct)
  case (1 kvs i j)
  show ?case
  proof (cases "j < length kvs \<and> Key (kvs ! j) = Key (kvs ! i)")
    case True
    then have "drop j kvs = kvs ! j # drop (j + 1) kvs" by (simp add: Cons_nth_drop_Suc)
    with 1 True show ?thesis by (subst run_end.simps) simp
  next
    case False
    moreover have "drop j kvs = [] \<or> drop j kvs = kvs ! j # drop (j + 1) kvs"
      by (cases "j < length kvs") (simp_all add: Cons_nth_drop_Suc)
    ultimately show ?thesis by (subst run_end.simps) auto
  qed
qed

lemma sorted_tail_keys:
  assumes "sorted (map Key (kv # rest))" and "x \<in> set (dropWhile (\<lambda>y. Key y = Key kv) rest)"
  shows "Key kv < Key x"
  using assms
proof (induction rest)
  case (Cons y rest)
  then show ?case
    by (cases "Key y = Key kv") (force simp: less_le intro: order.trans dest: set_dropWhileD)+
qed simp

lemma sorted_list_of_set_less:
  "finite A \<Longrightarrow> \<forall>x \<in> A. k < x \<Longrightarrow> sorted_list_of_set (insert k A) = k # sorted_list_of_set A"
  by (subst sorted_list_of_set_insert) (auto intro: insort_is_Cons simp: less_imp_le)

lemma keys_step:
  assumes "sorted (map Key (kv # rest))"
  shows "sorted_list_of_set (Key ` set (kv # rest)) =
    Key kv # sorted_list_of_set (Key ` set (dropWhile (\<lambda>y. Key y = Key kv) rest))"
proof -
  let ?D = "dropWhile (\<lambda>y. Key y = Key kv) rest"
  have "set rest = set (takeWhile (\<lambda>y. Key y = Key kv) rest) \<union> set ?D"
    by (metis set_append takeWhile_dropWhile_id)
  then have keys: "Key ` set (kv # rest) = insert (Key kv) (Key ` set ?D)"
    by (auto dest: set_takeWhileD)
  have less: "\<forall>k \<in> Key ` set ?D. Key kv < k"
    using sorted_tail_keys [OF assms] by auto
  show ?thesis
    unfolding keys by (rule sorted_list_of_set_less) (use less in simp_all)
qed

lemma reduce_pairs_step:
  assumes "sorted (map Key (kv # rest))"
  shows "reduce_pairs reducef (kv # rest) =
    (Key kv, reducef (Key kv) (map Value (kv # takeWhile (\<lambda>y. Key y = Key kv) rest))) #
    reduce_pairs reducef (dropWhile (\<lambda>y. Key y = Key kv) rest)"
proof -
  let ?T = "takeWhile (\<lambda>y. Key y = Key kv) rest" and ?D = "dropWhile (\<lambda>y. Key y = Key kv) rest"
  have split: "filter P rest = filter P ?T @ filter P ?D" for P
    by (metis filter_append takeWhile_dropWhile_id)
  have T: "filter (\<lambda>x. Key x = k) ?T = (if k = Key kv then ?T else [])" for k
    by (auto simp: filter_empty_conv dest: set_takeWhileD intro!: filter_True)
  have D: "filter (\<lambda>x. Key x = Key kv) ?D = []"
    using sorted_tail_keys [OF assms] by (force simp: filter_empty_conv)
  have "key_values k (kv # rest) = key_values k ?D" if "k \<in> Key ` set ?D" for k
    using that sorted_tail_keys [OF assms] by (force simp: key_values_def split T)
  moreover have "key_values (Key kv) (kv # rest) = map Value (kv # ?T)"
    by (simp add: key_values_def split T D)
  ultimately show ?thesis
    unfolding reduce_pairs_def keys_step [OF assms] by simp
qed

lemma map_nth_upt: "a + n \<le> length xs \<Longrightarrow> map (\<lambda>k. xs ! k) [a..<a + n] = take n (drop a xs)"
  by (intro nth_equalityI) (simp_all del: upt_Suc)

lemma reduce_from_pairs:
  "sorted (map Key kvs) \<Longrightarrow> i \<le> length kvs \<Longrightarrow> reduce_from reducef kvs i = reduce_pairs reducef (drop i kvs)"
proof (induction reducef kvs i rule: reduce_from.induct)
  case (1 reducef kvs i)
  show ?case
  proof (cases "i < length kvs")
    case False
    with 1 show ?thesis by (subst reduce_from.simps) (simp add: reduce_pairs_def)
  next
    case True
    let ?rest = "drop (Suc i) kvs"
    let ?T = "takeWhile (\<lambda>y. Key y = Key (kvs ! i)) ?rest" and ?D = "dropWhile (\<lambda>y. Key y = Key (kvs ! i)) ?rest"
    define j where "j = run_end kvs i (i + 1)"
    have d: "drop i kvs = kvs ! i # ?rest" using True by (simp add: Cons_nth_drop_Suc)
    have sorted: "sorted (map Key (kvs ! i # ?rest))"
      using "1.prems"(1) by (metis d drop_map sorted_wrt_drop)
    have j: "j = i + 1 + length ?T" by (simp add: j_def run_end_eq)
    then have D: "drop j kvs = ?D"
      by (metis add.commute drop_drop dropWhile_eq_drop Suc_eq_plus1)
    have "length ?T \<le> length ?rest" by (rule length_takeWhile_le)
    then have jl: "j \<le> length kvs" using j True by simp
    have "[i..<j] = i # [Suc i..<Suc i + length ?T]" using j by (simp add: upt_conv_Cons del: upt_Suc)
    moreover have "map (\<lambda>k. kvs ! k) [Suc i..<Suc i + length ?T] = ?T"
      using jl j by (subst map_nth_upt) (simp_all flip: takeWhile_eq_take)
    ultimately have v: "map (\<lambda>k. Value (kvs ! k)) [i..<j] = map Value (kvs ! i # ?T)"
      by (metis (no_types, lifting) list.map(2) map_map o_apply map_eq_conv)
    have "reduce_from reducef kvs j = reduce_pairs reducef (drop j kvs)"
      using "1.IH" [OF True j_def refl refl "1.prems"(1) jl] by simp
    then show ?thesis
      using True v D j_def by (subst reduce_from.simps) (simp add: reduce_pairs_step [OF sorted] d)
  qed
qed

text \<open>
  With a sort that permutes and sorts by key, and an application whose \<open>Reduce\<close> does not depend on
  the order of the values, the loop computes \<open>reduce_pairs\<close>.
\<close>

definition sorts_by_key :: "(KeyValue list \<Rightarrow> KeyValue list) \<Rightarrow> bool" where
  "sorts_by_key srt \<longleftrightarrow> (\<forall>kvs. mset (srt kvs) = mset kvs \<and> sorted (map Key (srt kvs)))"

definition order_free :: "(string \<Rightarrow> string list \<Rightarrow> string) \<Rightarrow> bool" where
  "order_free reducef \<longleftrightarrow> (\<forall>k vs ws. mset vs = mset ws \<longrightarrow> reducef k vs = reducef k ws)"

lemma reduce_sorted:
  assumes "sorts_by_key srt" and "order_free reducef"
  shows "reduce_from reducef (srt kvs) 0 = reduce_pairs reducef kvs"
proof -
  have m: "mset (srt kvs) = mset kvs" and s: "sorted (map Key (srt kvs))"
    using assms(1) by (auto simp: sorts_by_key_def)
  have "reducef k (key_values k (srt kvs)) = reducef k (key_values k kvs)" for k
  proof -
    have "mset (key_values k (srt kvs)) = mset (key_values k kvs)"
      using m by (simp add: key_values_def)
    with assms(2) show ?thesis unfolding order_free_def by blast
  qed
  moreover have "set (srt kvs) = set kvs" using m by (rule mset_eq_setD)
  ultimately show ?thesis
    using reduce_from_pairs [OF s, of 0 reducef] by (simp add: reduce_pairs_def)
qed

section \<open>Partitioning keys\<close>

definition bucket_of :: "nat \<Rightarrow> string \<Rightarrow> nat" where
  "bucket_of n k = nat (ihash k mod int n)"

lemma bucket_of_less: "0 < n \<Longrightarrow> bucket_of n k < n"
  by (simp add: bucket_of_def nat_less_iff)

definition in_bucket :: "nat \<Rightarrow> nat \<Rightarrow> KeyValue list \<Rightarrow> KeyValue list" where
  "in_bucket n r kvs = filter (\<lambda>kv. bucket_of n (Key kv) = r) kvs"

lemma buckets_foldl:
  assumes "0 < n" and "length bs = n"
  shows "foldl (add_bucket (int n)) bs kvs = map (\<lambda>r. bs ! r @ in_bucket n r kvs) [0..<n]"
  using assms(2)
proof (induction kvs arbitrary: bs)
  case Nil
  then show ?case by (auto simp: in_bucket_def intro: nth_equalityI)
next
  case (Cons kv kvs)
  let ?b = "bucket_of n (Key kv)"
  have "add_bucket (int n) bs kv = bs[?b := bs ! ?b @ [kv]]"
    by (simp add: add_bucket_def bucket_of_def Let_def)
  with Cons bucket_of_less [OF assms(1)] show ?case
    by (auto simp: in_bucket_def nth_list_update intro!: nth_equalityI)
qed

lemma make_buckets_eq:
  "0 < n \<Longrightarrow> make_buckets (int n) kvs = Ret (map (\<lambda>r. in_bucket n r kvs) [0..<n])"
  using buckets_foldl [of n "replicate n []" kvs] by (simp add: make_buckets_def cong: map_cong)

lemma reduce_pairs_bucket:
  "reduce_pairs reducef (in_bucket n r kvs) = filter (\<lambda>p. bucket_of n (fst p) = r) (reduce_pairs reducef kvs)"
proof -
  have "sorted_list_of_set (Key ` set (in_bucket n r kvs)) =
      filter (\<lambda>k. bucket_of n k = r) (sorted_list_of_set (Key ` set kvs))"
    by (rule sorted_distinct_set_unique) (auto simp: in_bucket_def intro!: sorted_wrt_filter)
  moreover have "key_values k (in_bucket n r kvs) = key_values k kvs" if "bucket_of n k = r" for k
    using that by (auto simp: key_values_def in_bucket_def intro!: arg_cong [where f = "map Value"] filter_cong)
  ultimately show ?thesis
    by (auto simp: reduce_pairs_def filter_map o_def)
qed

section \<open>File names\<close>

lemma split_at_dash:
  "CHR ''-'' \<notin> set a \<Longrightarrow> CHR ''-'' \<notin> set c \<Longrightarrow> a @ CHR ''-'' # b = c @ CHR ''-'' # d \<longleftrightarrow> a = c \<and> b = d"
  by (induction a arbitrary: c) (case_tac c; auto)+

lemma inter_name_inj [simp]:
  "inter_name (int i) (int r) = inter_name (int j) (int q) \<longleftrightarrow> i = j \<and> r = q"
  using split_at_dash [OF digits_no_dash digits_no_dash] by (simp add: inter_name_def)

lemma out_name_inj [simp]: "out_name (int r) = out_name (int q) \<longleftrightarrow> r = q"
  by (simp add: out_name_def)

lemma digits_Cons: "\<exists>c cs. digits n = c # cs \<and> c \<noteq> CHR ''o''"
proof -
  have "digits n \<noteq> []" by (subst digits.simps) simp
  then obtain c cs where "digits n = c # cs" by (cases "digits n") auto
  with digits_digit [of c n] show ?thesis by auto
qed

lemma out_name_inter_name [simp]: "inter_name (int i) (int r) \<noteq> out_name (int q)"
  using digits_Cons [of i] by (auto simp: inter_name_def out_name_def)

lemma mr_names: "take 3 (inter_name i r) = ''mr-''" "take 3 (out_name i) = ''mr-''"
  by (simp_all add: inter_name_def out_name_def)

section \<open>The tasks on the disk\<close>

text \<open>A list of tasks, one after the other; \<open>map_reply\<close> and \<open>reduce_reply\<close> are the coordinator's replies.\<close>

fun run_tasks :: "('t \<Rightarrow> disk \<Rightarrow> disk go) \<Rightarrow> 't list \<Rightarrow> disk \<Rightarrow> disk go" where
  "run_tasks f [] d = Ret d"
| "run_tasks f (t # ts) d = go_bind (f t d) (run_tasks f ts)"

definition map_reply :: "string list \<Rightarrow> nat \<Rightarrow> nat \<Rightarrow> RequestTaskReply" where
  "map_reply fs n i = \<lparr>TaskType = ''map'', FileName = fs ! i, NReduce = int n, NMap = int (length fs), TaskID = int i\<rparr>"

definition reduce_reply :: "string list \<Rightarrow> nat \<Rightarrow> nat \<Rightarrow> RequestTaskReply" where
  "reduce_reply fs n r = \<lparr>TaskType = ''reduce'', FileName = '''', NReduce = int n, NMap = int (length fs), TaskID = int r\<rparr>"

lemma foldl_upd:
  assumes "\<And>i j. f i = f j \<longleftrightarrow> i = j"
  shows "foldl (\<lambda>d i. d(f i \<mapsto> g i)) d [0..<n] =
    (\<lambda>x. if \<exists>i < n. x = f i then Some (g (THE i. x = f i)) else d x)"
proof (induction n)
  case (Suc n)
  have "(THE i. f n = f i) = n" using assms by auto
  with Suc show ?case by (auto simp: less_Suc_eq fun_eq_iff)
qed simp

lemma write_buckets_get:
  "write_buckets enc (int i) bs d (inter_name (int j) (int r)) =
     (if j = i \<and> r < length bs then Some (concat (map enc (bs ! r))) else d (inter_name (int j) (int r)))"
  "\<forall>r. x \<noteq> inter_name (int i) (int r) \<Longrightarrow> write_buckets enc (int i) bs d x = d x"
proof -
  have "write_buckets enc (int i) bs d =
    (\<lambda>x. if \<exists>r < length bs. x = inter_name (int i) (int r)
        then Some (concat (map enc (bs ! (THE r. x = inter_name (int i) (int r))))) else d x)"
    unfolding write_buckets_def by (rule foldl_upd) simp
  then show "write_buckets enc (int i) bs d (inter_name (int j) (int r)) =
     (if j = i \<and> r < length bs then Some (concat (map enc (bs ! r))) else d (inter_name (int j) (int r)))"
    "\<forall>r. x \<noteq> inter_name (int i) (int r) \<Longrightarrow> write_buckets enc (int i) bs d x = d x"
    by auto
qed

text \<open>
  The disk while the map tasks run: the input files are untouched, and the intermediate files of the
  executed tasks hold their buckets. \<open>emitted\<close> is what \<open>Map\<close> makes of an input file.
\<close>

definition emitted :: "(string \<Rightarrow> string \<Rightarrow> KeyValue list) \<Rightarrow> disk \<Rightarrow> string \<Rightarrow> KeyValue list" where
  "emitted mapf d f = (case d f of Some content \<Rightarrow> mapf f content | None \<Rightarrow> [])"

definition inputs_ok :: "string list \<Rightarrow> disk \<Rightarrow> bool" where
  "inputs_ok fs d \<longleftrightarrow> (\<forall>f \<in> set fs. d f \<noteq> None \<and> take 3 f \<noteq> ''mr-'')"

definition mapped :: "(KeyValue \<Rightarrow> string) \<Rightarrow> (string \<Rightarrow> string \<Rightarrow> KeyValue list) \<Rightarrow> string list \<Rightarrow> nat \<Rightarrow> disk \<Rightarrow> nat set \<Rightarrow> disk \<Rightarrow> bool" where
  "mapped enc mapf fs n d0 S d \<longleftrightarrow> (\<forall>x. take 3 x \<noteq> ''mr-'' \<longrightarrow> d x = d0 x) \<and>
     (\<forall>i \<in> S. \<forall>r < n. d (inter_name (int i) (int r)) =
        Some (concat (map enc (in_bucket n r (emitted mapf d0 (fs ! i))))))"

lemma doMapTask_mapped:
  assumes "inputs_ok fs d0" and "mapped enc mapf fs n d0 S d" and "i < length fs" and "0 < n"
  shows "\<exists>d'. doMapTask enc mapf (map_reply fs n i) d = Ret d' \<and> mapped enc mapf fs n d0 (insert i S) d'"
proof -
  let ?f = "fs ! i"
  have "?f \<in> set fs" using assms(3) by simp
  then obtain content where f: "d0 ?f = Some content" "take 3 ?f \<noteq> ''mr-''"
    using assms(1) by (auto simp: inputs_ok_def)
  then have df: "d ?f = Some content" using assms(2) by (simp add: mapped_def)
  let ?d' = "write_buckets enc (int i) (map (\<lambda>r. in_bucket n r (mapf ?f content)) [0..<n]) d"
  have "doMapTask enc mapf (map_reply fs n i) d = Ret ?d'"
    using df assms(4) by (simp add: doMapTask_def map_reply_def make_buckets_eq)
  moreover have "?d' x = d0 x" if "take 3 x \<noteq> ''mr-''" for x
  proof -
    have "\<forall>r. x \<noteq> inter_name (int i) (int r)" using that mr_names by metis
    then show ?thesis using that assms(2) by (simp add: write_buckets_get(2) mapped_def)
  qed
  ultimately show ?thesis
    using assms(2) f by (auto simp: mapped_def write_buckets_get(1) emitted_def)
qed

lemma run_maps:
  assumes "inputs_ok fs d0" and "0 < n" and "set ms \<subseteq> {..<length fs}" and "mapped enc mapf fs n d0 S d"
  shows "\<exists>d'. run_tasks (\<lambda>i. doMapTask enc mapf (map_reply fs n i)) ms d = Ret d' \<and>
    mapped enc mapf fs n d0 (S \<union> set ms) d'"
  using assms(3,4)
proof (induction ms arbitrary: S d)
  case (Cons i ms)
  then obtain d1 where "doMapTask enc mapf (map_reply fs n i) d = Ret d1"
    "mapped enc mapf fs n d0 (insert i S) d1"
    using doMapTask_mapped [OF assms(1) _ _ assms(2), of enc mapf S d i] by auto
  with Cons.IH [of "insert i S" d1] Cons.prems show ?case by auto
qed auto

text \<open>A codec that gives back what a task encoded, for the pairs that occur.\<close>

definition codec_ok :: "(KeyValue \<Rightarrow> string) \<Rightarrow> (string \<Rightarrow> KeyValue list) \<Rightarrow> KeyValue set \<Rightarrow> bool" where
  "codec_ok enc dec A \<longleftrightarrow> (\<forall>kvs. set kvs \<subseteq> A \<longrightarrow> dec (concat (map enc kvs)) = kvs)"

lemma in_bucket_concat: "in_bucket n r (concat xss) = concat (map (in_bucket n r) xss)"
  by (induction xss) (simp_all add: in_bucket_def)

lemma read_inter_concat:
  "read_inter dec (int n) r d = concat (map (\<lambda>i. case d (inter_name (int i) r) of None \<Rightarrow> [] | Some c \<Rightarrow> dec c) [0..<n])"
proof -
  have "foldl (\<lambda>acc i. case d (inter_name (int i) r) of None \<Rightarrow> acc | Some c \<Rightarrow> acc @ dec c) a is =
     a @ concat (map (\<lambda>i. case d (inter_name (int i) r) of None \<Rightarrow> [] | Some c \<Rightarrow> dec c) is)" for a "is"
    by (induction "is" arbitrary: a) (auto split: option.splits)
  then show ?thesis by (simp add: read_inter_def)
qed

lemma read_mapped:
  assumes "mapped enc mapf fs n d0 {..<length fs} d" and "r < n"
    and "codec_ok enc dec (\<Union>f \<in> set fs. set (emitted mapf d0 f))"
  shows "read_inter dec (int (length fs)) (int r) d = in_bucket n r (concat (map (emitted mapf d0) fs))"
proof -
  have "(case d (inter_name (int i) (int r)) of None \<Rightarrow> [] | Some c \<Rightarrow> dec c) =
      in_bucket n r (emitted mapf d0 (fs ! i))" if "i < length fs" for i
  proof -
    have "set (in_bucket n r (emitted mapf d0 (fs ! i))) \<subseteq> (\<Union>f \<in> set fs. set (emitted mapf d0 f))"
      using that by (auto simp: in_bucket_def intro!: bexI [of _ "fs ! i"])
    with assms that show ?thesis by (simp add: mapped_def codec_ok_def)
  qed
  then have "read_inter dec (int (length fs)) (int r) d =
      concat (map (\<lambda>i. in_bucket n r (emitted mapf d0 (fs ! i))) [0..<length fs])"
    unfolding read_inter_concat by (intro arg_cong [where f = concat]) simp
  also have "\<dots> = concat (map (in_bucket n r \<circ> emitted mapf d0) (map ((!) fs) [0..<length fs]))"
    by (simp add: o_def)
  finally show ?thesis by (simp add: in_bucket_concat map_nth)
qed

lemma run_reduces:
  assumes "\<And>r. r \<in> S \<Longrightarrow> d (out_name (int r)) = Some (out r)"
    and "\<And>r. concat (map line (reduce_from reducef (srt (read_inter dec (int (length fs)) (int r) d)) 0)) = out r"
  shows "\<exists>d'. run_tasks (\<lambda>r. doReduceTask dec srt reducef (reduce_reply fs n r)) rs d = Ret d' \<and>
    (\<forall>r \<in> S \<union> set rs. d' (out_name (int r)) = Some (out r))"
  using assms
proof (induction rs arbitrary: S d)
  case (Cons q rs)
  define e where "e = d(out_name (int q) \<mapsto> out q)"
  have "doReduceTask dec srt reducef (reduce_reply fs n q) d = Ret e"
    using Cons.prems(2) [of q] by (simp add: e_def doReduceTask_def reduce_reply_def Let_def)
  moreover have "read_inter dec (int (length fs)) (int r) e = read_inter dec (int (length fs)) (int r) d" for r
    by (simp add: e_def read_inter_concat)
  moreover have "e (out_name (int r)) = Some (out r)" if "r \<in> insert q S" for r
    using that Cons.prems(1) by (auto simp: e_def)
  ultimately show ?case
    using Cons.IH [of "insert q S" e] Cons.prems(2) by simp
qed auto

lemma read_all_emitted:
  "inputs_ok fs d \<Longrightarrow> read_all mapf fs d = Ret (concat (map (emitted mapf d) fs))"
  by (induction fs) (auto simp: inputs_ok_def emitted_def)

section \<open>Properties\<close>

text \<open>
  C10: the distributed job computes what the sequential program computes. Let the input files exist,
  with names that do not begin with \<open>mr-\<close>; let \<open>sort.Sort\<close> sort by key, the JSON codec give back what
  was encoded, and \<open>Reduce\<close> not depend on the order of its values. Run the map tasks in any order,
  some of them several times, each at least once, then the reduce tasks in any order, also with
  repetitions. No task panics, and the output file of reduce task \<open>r\<close> consists of exactly those lines
  of the sequential program's output, in the same order, whose key hashes to \<open>r\<close>.
\<close>

theorem distributed_equals_sequential:
  assumes "inputs_ok fs d" and "0 < n" and "set ms = {..<length fs}" and "set rs = {..<n}"
    and "sorts_by_key srt" and "order_free reducef"
    and "codec_ok enc dec (\<Union>f \<in> set fs. set (emitted mapf d f))"
  shows "\<exists>ds dm dr pairs. mrsequential srt mapf reducef fs d = Ret ds \<and>
    ds ''mr-out-0'' = Some (concat (map line pairs)) \<and>
    run_tasks (\<lambda>i. doMapTask enc mapf (map_reply fs n i)) ms d = Ret dm \<and>
    run_tasks (\<lambda>r. doReduceTask dec srt reducef (reduce_reply fs n r)) rs dm = Ret dr \<and>
    (\<forall>r < n. dr (out_name (int r)) =
       Some (concat (map line (filter (\<lambda>p. ihash (fst p) mod int n = int r) pairs))))"
proof -
  let ?kvs = "concat (map (emitted mapf d) fs)"
  let ?pairs = "reduce_pairs reducef ?kvs"
  have "mapped enc mapf fs n d {} d" by (simp add: mapped_def)
  from run_maps [OF assms(1,2) _ this, of ms] assms(3) obtain dm where
    dm: "run_tasks (\<lambda>i. doMapTask enc mapf (map_reply fs n i)) ms d = Ret dm"
      "mapped enc mapf fs n d {..<length fs} dm" by auto
  let ?out = "\<lambda>r. concat (map line (reduce_from reducef (srt (read_inter dec (int (length fs)) (int r) dm)) 0))"
  from run_reduces [of "{}" dm ?out reducef srt dec fs n rs] assms(4) obtain dr where
    dr: "run_tasks (\<lambda>r. doReduceTask dec srt reducef (reduce_reply fs n r)) rs dm = Ret dr"
      "\<forall>r < n. dr (out_name (int r)) = Some (?out r)" by auto
  have "?out r = concat (map line (filter (\<lambda>p. ihash (fst p) mod int n = int r) ?pairs))" if "r < n" for r
  proof -
    have "bucket_of n k = r \<longleftrightarrow> ihash k mod int n = int r" for k
      using assms(2) by (auto simp: bucket_of_def nat_eq_iff)
    then show ?thesis
      using read_mapped [OF dm(2) that assms(7)]
      by (simp add: reduce_sorted [OF assms(5,6)] reduce_pairs_bucket)
  qed
  moreover have "mrsequential srt mapf reducef fs d = Ret (d(''mr-out-0'' \<mapsto> concat (map line ?pairs)))"
    by (simp add: mrsequential_def read_all_emitted [OF assms(1)] reduce_sorted [OF assms(5,6)])
  ultimately show ?thesis using dm(1) dr
    by (intro exI [of _ "d(''mr-out-0'' \<mapsto> concat (map line ?pairs))"] exI [of _ dm] exI [of _ dr]
        exI [of _ ?pairs]) simp
qed

theorem distributed_equals_sequential_witness:
  "\<exists>dm dr pairs. run_tasks (\<lambda>i. doMapTask (\<lambda>kv. ''x'') (\<lambda>f c. [\<lparr>Key = ''a'', Value = ''1''\<rparr>]) (map_reply [''f'', ''g''] 2 i))
      [1, 0, 1] [''f'' \<mapsto> ''p'', ''g'' \<mapsto> ''q''] = Ret dm \<and>
    run_tasks (\<lambda>r. doReduceTask (\<lambda>s. replicate (length s) \<lparr>Key = ''a'', Value = ''1''\<rparr>) (sort_key Key)
      (\<lambda>k vs. Itoa (int (length vs))) (reduce_reply [''f'', ''g''] 2 r)) [1, 0] dm = Ret dr \<and>
    dr ''mr-out-1'' = Some (concat (map line (filter (\<lambda>p. ihash (fst p) mod 2 = 1) pairs)))"
proof -
  let ?kv = "\<lparr>Key = ''a'', Value = ''1''\<rparr>" and ?d = "[''f'' \<mapsto> ''p'', ''g'' \<mapsto> ''q'']"
  have i: "inputs_ok [''f'', ''g''] ?d" by (simp add: inputs_ok_def)
  have m: "set [1, 0, 1] = {..<length [''f'', ''g'']}" "set [1, 0] = {..<2 :: nat}" by auto
  have s: "sorts_by_key (sort_key Key)" by (simp add: sorts_by_key_def)
  have f: "order_free (\<lambda>k vs. Itoa (int (length vs)))"
    unfolding order_free_def by (metis mset_eq_length)
  have "kvs = replicate (length (concat (map (\<lambda>kv. ''x'') kvs))) ?kv" if "set kvs \<subseteq> {?kv}" for kvs
    using that by (induction kvs) auto
  then have c: "codec_ok (\<lambda>kv. ''x'') (\<lambda>s. replicate (length s) ?kv)
      (\<Union>f \<in> set [''f'', ''g'']. set (emitted (\<lambda>f c. [?kv]) ?d f))"
    unfolding codec_ok_def by (simp add: emitted_def)
  obtain dm dr pairs where r:
    "run_tasks (\<lambda>i. doMapTask (\<lambda>kv. ''x'') (\<lambda>f c. [?kv]) (map_reply [''f'', ''g''] 2 i)) [1, 0, 1] ?d = Ret dm"
    "run_tasks (\<lambda>r. doReduceTask (\<lambda>s. replicate (length s) ?kv) (sort_key Key)
      (\<lambda>k vs. Itoa (int (length vs))) (reduce_reply [''f'', ''g''] 2 r)) [1, 0] dm = Ret dr"
    "\<forall>r < 2. dr (out_name (int r)) =
       Some (concat (map line (filter (\<lambda>p. ihash (fst p) mod int 2 = int r) pairs)))"
    using distributed_equals_sequential [OF i _ m s f c] by auto
  have "out_name (int 1) = ''mr-out-1''"
    by (simp add: out_name_def Itoa_def digits.simps char_of_def bit_simps)
  with r(3) have "dr ''mr-out-1'' = Some (concat (map line (filter (\<lambda>p. ihash (fst p) mod 2 = 1) pairs)))"
    by (auto dest: spec [of _ 1])
  with r(1,2) show ?thesis by blast
qed

text \<open>
  A map task whose input cannot be opened is reported as completed. The worker prints a message,
  writes no intermediate file, and sends the same report as after a success; the reduce tasks skip the
  missing intermediate files. So a job with an unreadable input ends normally, without the
  contribution of that file, where the sequential program ends with an error.
\<close>

lemma missing_input_reported:
  assumes "TaskType reply = ''map''" and "d (FileName reply) = None"
  shows "Worker_iter enc dec srt mapf reducef (Some reply) d =
      Ret (d, Some \<lparr>rt_TaskID = TaskID reply, rt_TaskType = ''map''\<rparr>, True) \<and>
    mrsequential srt mapf reducef (FileName reply # fs) d = Fatal"
  using assms by (simp add: Worker_iter_def doMapTask_def mrsequential_def)

text \<open>
  A report that is not answered is sent again until one is: after \<open>k\<close> failed calls the
  coordinator may have received the same report \<open>k + 1\<close> times. Together with the coordinator's
  handling of repeated map reports this is how a job can lose a reduce task.
\<close>

lemma report_resent:
  "reportTaskCompletion args (replicate k False @ True # oks) = Some (replicate (Suc k) args) \<and>
   reportTaskCompletion args (replicate k False) = None"
  by (induction k) simp_all

end
