(* ===== verification/MrSystem.thy ===== *)
theory MrSystem
  imports MrWorker
begin

text \<open>
  A whole MapReduce job: the coordinator of \<open>mr/coordinator.go\<close>, any number of workers that run the loop of
  \<open>mr/worker.go\<close>, and the disk they share. A worker asks for a task, executes it, reports it, and asks again; steps of
  different workers interleave, and a worker may crash at any time. When the coordinator says that the job is done, the
  output files are those of the sequential program. A call that fails without reaching the coordinator
  leaves everything as it is; one whose reply is lost makes the worker report again, and is the
  subject of \<open>repeated_map_report\<close> in \<open>MrCoordinator\<close>. A task is one step on the disk: tasks that run at the
  same time write different files. A worker that crashes in the middle of a map task leaves the files it has
  renamed so far; a reduce task has one file, so it writes it or not.
\<close>

section \<open>The system\<close>

datatype worker_pc = WIdle | WTask RequestTaskReply | WReport ReportTaskArgs | WStopped

record mr_sys =
  mr_c :: Coordinator
  mr_d :: disk
  mr_w :: "nat \<Rightarrow> worker_pc"

fun after_task :: "ReportTaskArgs option \<Rightarrow> bool \<Rightarrow> worker_pc" where
  "after_task (Some a) goes_on = WReport a"
| "after_task None goes_on = (if goes_on then WIdle else WStopped)"

record application =
  app_enc :: "KeyValue \<Rightarrow> string"
  app_dec :: "string \<Rightarrow> KeyValue list"
  app_sort :: "KeyValue list \<Rightarrow> KeyValue list"
  app_Map :: "string \<Rightarrow> string \<Rightarrow> KeyValue list"
  app_Reduce :: "string \<Rightarrow> string list \<Rightarrow> string"

inductive mr_step :: "application \<Rightarrow> mr_sys \<Rightarrow> mr_sys \<Rightarrow> bool" for A where
  request: "mr_w s w = WIdle \<Longrightarrow> handleHeartBeat now (mr_c s) = Ret (c', r) \<Longrightarrow>
    mr_step A s (s\<lparr>mr_c := c', mr_w := (mr_w s)(w := WTask r)\<rparr>)"
| work: "mr_w s w = WTask r \<Longrightarrow>
    Worker_iter (app_enc A) (app_dec A) (app_sort A) (app_Map A) (app_Reduce A) (Some r) (mr_d s) = Ret (d', rep, goes_on) \<Longrightarrow>
    mr_step A s (s\<lparr>mr_d := d', mr_w := (mr_w s)(w := after_task rep goes_on)\<rparr>)"
| report: "mr_w s w = WReport a \<Longrightarrow> handleReport a (mr_c s) = Ret c' \<Longrightarrow>
    mr_step A s (s\<lparr>mr_c := c', mr_w := (mr_w s)(w := WIdle)\<rparr>)"
| crash: "mr_step A s (s\<lparr>mr_w := (mr_w s)(w := WStopped)\<rparr>)"
| crash_writing: "mr_w s w = WTask r \<Longrightarrow> TaskType r = ''map'' \<Longrightarrow> mr_d s (FileName r) = Some content \<Longrightarrow>
    make_buckets (NReduce r) (app_Map A (FileName r) content) = Ret buckets \<Longrightarrow>
    mr_step A s (s\<lparr>mr_d := write_buckets (app_enc A) (TaskID r) (take k buckets) (mr_d s), mr_w := (mr_w s)(w := WStopped)\<rparr>)"

inductive mr_reach :: "application \<Rightarrow> string list \<Rightarrow> nat \<Rightarrow> disk \<Rightarrow> mr_sys \<Rightarrow> bool" for A fs n d0 where
  start: "initMapPhase (MakeCoordinator fs (int n)) = Ret c \<Longrightarrow>
    mr_reach A fs n d0 \<lparr>mr_c = c, mr_d = d0, mr_w = (\<lambda>w. WIdle)\<rparr>"
| step: "mr_reach A fs n d0 s \<Longrightarrow> mr_step A s t \<Longrightarrow> mr_reach A fs n d0 t"

section \<open>What the workers hold and what is on the disk\<close>

fun held :: "worker_pc \<Rightarrow> job_task set" where
  "held (WTask r) = handed_out r"
| "held (WReport a) = {(rt_TaskType a, nat (rt_TaskID a))}"
| "held pc = {}"

fun pc_ok :: "string list \<Rightarrow> nat \<Rightarrow> worker_pc \<Rightarrow> bool" where
  "pc_ok fs n (WTask r) = (TaskType r \<in> {''map'', ''reduce'', ''wait'', ''done''} \<and>
     (TaskType r = ''map'' \<longrightarrow> FileName r = fs ! nat (TaskID r)) \<and>
     (handed_out r \<noteq> {} \<longrightarrow> 0 \<le> TaskID r \<and> NMap r = int (length fs) \<and> NReduce r = int n))"
| "pc_ok fs n (WReport a) = (0 \<le> rt_TaskID a)"
| "pc_ok fs n pc = True"

fun reporting :: "worker_pc \<Rightarrow> job_task set" where
  "reporting (WReport a) = {(rt_TaskType a, nat (rt_TaskID a))}"
| "reporting pc = {}"

text \<open>The tasks executed so far, as far as they matter: the reported ones and those about to be reported.\<close>

definition executed :: "mr_sys \<Rightarrow> job_task set \<Rightarrow> job_task set" where
  "executed s rep = rep \<union> (\<Union>w. reporting (mr_w s w))"

definition job_pairs :: "application \<Rightarrow> string list \<Rightarrow> disk \<Rightarrow> (string \<times> string) list" where
  "job_pairs A fs d0 = reduce_pairs (app_Reduce A) (concat (map (emitted (app_Map A) d0) fs))"

definition job_out :: "application \<Rightarrow> string list \<Rightarrow> nat \<Rightarrow> disk \<Rightarrow> nat \<Rightarrow> string" where
  "job_out A fs n d0 r = concat (map line (filter (\<lambda>p. ihash (fst p) mod int n = int r) (job_pairs A fs d0)))"

definition disk_ok :: "application \<Rightarrow> string list \<Rightarrow> nat \<Rightarrow> disk \<Rightarrow> disk \<Rightarrow> job_task set \<Rightarrow> bool" where
  "disk_ok A fs n d0 d E \<longleftrightarrow> mapped (app_enc A) (app_Map A) fs n d0 {i. (''map'', i) \<in> E} d \<and>
     (\<forall>r. (''reduce'', r) \<in> E \<longrightarrow> d (out_name (int r)) = Some (job_out A fs n d0 r))"

definition mr_inv :: "application \<Rightarrow> string list \<Rightarrow> nat \<Rightarrow> disk \<Rightarrow> mr_sys \<Rightarrow> job_task set \<Rightarrow> job_task set \<Rightarrow> bool" where
  "mr_inv A fs n d0 s out rep \<longleftrightarrow> coord_ok fs n (mr_c s) out rep \<and>
     (\<forall>w. held (mr_w s w) \<subseteq> out \<and> pc_ok fs n (mr_w s w)) \<and>
     (\<forall>w w'. w \<noteq> w' \<longrightarrow> held (mr_w s w) \<inter> held (mr_w s w') = {}) \<and>
     disk_ok A fs n d0 (mr_d s) (executed s rep)"

definition app_ok :: "application \<Rightarrow> string list \<Rightarrow> disk \<Rightarrow> bool" where
  "app_ok A fs d0 \<longleftrightarrow> sorts_by_key (app_sort A) \<and> order_free (app_Reduce A) \<and>
     codec_ok (app_enc A) (app_dec A) (\<Union>f \<in> set fs. set (emitted (app_Map A) d0 f))"

lemma coord_out_phase:
  assumes "coord_ok fs n c out rep" and "(ty, i) \<in> out"
  shows "ty = ''map'' \<and> i < length fs \<and> phase c = MapPhase \<and> rep \<subseteq> tasks_of ''map'' (length fs) \<and> out \<subseteq> tasks_of ''map'' (length fs) \<or>
    ty = ''reduce'' \<and> i < n \<and> phase c = ReducePhase \<and> tasks_of ''map'' (length fs) \<subseteq> rep"
  using assms by (cases "phase c") (auto simp: coord_ok_def Let_def)

lemma job_out_eq:
  assumes "app_ok A fs d0" and "0 < n" and "r < n" and "mapped (app_enc A) (app_Map A) fs n d0 {..<length fs} d"
  shows "concat (map line (reduce_from (app_Reduce A) (app_sort A (read_inter (app_dec A) (int (length fs)) (int r) d)) 0)) =
    job_out A fs n d0 r"
proof -
  have "bucket_of n k = r \<longleftrightarrow> ihash k mod int n = int r" for k
    using assms(2) by (auto simp: bucket_of_def nat_eq_iff)
  then show ?thesis
    using assms(1) read_mapped [OF assms(4,3)]
    by (simp add: job_out_def job_pairs_def app_ok_def reduce_sorted reduce_pairs_bucket)
qed

section \<open>The invariant is kept\<close>

lemma disk_ok_mono: "disk_ok A fs n d0 d E \<Longrightarrow> E' \<subseteq> E \<Longrightarrow> disk_ok A fs n d0 d E'"
  by (auto simp: disk_ok_def mapped_def)

lemma executed_upd:
  "executed (s\<lparr>mr_w := (mr_w s)(w := pc)\<rparr>) rep = rep \<union> reporting pc \<union> (\<Union>v\<in>- {w}. reporting (mr_w s v))"
  by (auto simp: executed_def split: if_splits)

lemma executed_sub: "rep \<union> (\<Union>v\<in>- {w}. reporting (mr_w s v)) \<subseteq> executed s rep"
  by (auto simp: executed_def)

lemma reporting_held: "reporting pc \<subseteq> held pc"
  by (cases pc) auto

lemma mr_inv_request:
  assumes inv: "mr_inv A fs n d0 s out rep" and w: "mr_w s w = WIdle" and req: "handleHeartBeat now (mr_c s) = Ret (c', r)"
  shows "mr_inv A fs n d0 (s\<lparr>mr_c := c', mr_w := (mr_w s)(w := WTask r)\<rparr>) (out \<union> handed_out r) rep"
proof -
  have ok: "coord_ok fs n (mr_c s) out rep" using inv by (simp add: mr_inv_def)
  have r: "coord_ok fs n c' (out \<union> handed_out r) rep" "MrCoordinator.good_reply fs n (mr_c s) out rep r"
    using heartbeat_spec [OF ok, of now] req by auto
  have new: "handed_out r \<inter> out = {}" "pc_ok fs n (WTask r)" using r(2) by (auto simp: MrCoordinator.good_reply_def)
  have "executed (s\<lparr>mr_c := c', mr_w := (mr_w s)(w := WTask r)\<rparr>) rep \<subseteq> executed s rep"
    using executed_upd [of "s\<lparr>mr_c := c'\<rparr>"] executed_sub [of rep s w] by simp
  with inv have "disk_ok A fs n d0 (mr_d s) (executed (s\<lparr>mr_c := c', mr_w := (mr_w s)(w := WTask r)\<rparr>) rep)"
    using disk_ok_mono by (auto simp: mr_inv_def)
  moreover have "held (mr_w s v) \<subseteq> out" for v using inv by (simp add: mr_inv_def)
  ultimately show ?thesis
    using inv r(1) new unfolding mr_inv_def by (simp add: Int_commute) blast
qed

lemma mr_inv_report:
  assumes inv: "mr_inv A fs n d0 s out rep" and w: "mr_w s w = WReport a" and rep: "handleReport a (mr_c s) = Ret c'" and n: "0 < n"
  defines "t \<equiv> (rt_TaskType a, nat (rt_TaskID a))"
  shows "mr_inv A fs n d0 (s\<lparr>mr_c := c', mr_w := (mr_w s)(w := WIdle)\<rparr>) (out - {t}) (insert t rep)"
proof -
  have ok: "coord_ok fs n (mr_c s) out rep" using inv by (simp add: mr_inv_def)
  have held: "held (mr_w s v) \<subseteq> out" "v \<noteq> w \<Longrightarrow> t \<notin> held (mr_w s v)" for v
    using inv w by (simp add: mr_inv_def, metis (no_types, lifting) disjoint_insert(1) held.simps(2) inv mr_inv_def t_def)
  have "pc_ok fs n (mr_w s w)" using inv unfolding mr_inv_def by blast
  moreover have "t \<in> out" using held(1) [of w] w by (simp add: t_def)
  ultimately have "a = \<lparr>rt_TaskID = int (nat (rt_TaskID a)), rt_TaskType = rt_TaskType a\<rparr>" using w by simp
  then have c': "coord_ok fs n c' (out - {t}) (insert t rep)"
    using report_spec [OF ok, of "rt_TaskType a" "nat (rt_TaskID a)"] \<open>t \<in> out\<close> n rep by (auto simp: t_def)
  have "executed (s\<lparr>mr_c := c', mr_w := (mr_w s)(w := WIdle)\<rparr>) (insert t rep) \<subseteq> executed s rep"
    using executed_upd [of "s\<lparr>mr_c := c'\<rparr>"] w by (auto simp: executed_def t_def intro: exI [of _ w])
  with inv have "disk_ok A fs n d0 (mr_d s) (executed (s\<lparr>mr_c := c', mr_w := (mr_w s)(w := WIdle)\<rparr>) (insert t rep))"
    using disk_ok_mono by (auto simp: mr_inv_def)
  with c' inv held show ?thesis unfolding mr_inv_def by (auto split: if_splits)
qed

lemma mr_inv_stop:
  assumes "mr_inv A fs n d0 s out rep" and "held pc = {}" and "pc_ok fs n pc"
  shows "mr_inv A fs n d0 (s\<lparr>mr_w := (mr_w s)(w := pc)\<rparr>) out rep"
proof -
  have "reporting pc = {}" using assms(2) reporting_held by blast
  then have "executed (s\<lparr>mr_w := (mr_w s)(w := pc)\<rparr>) rep \<subseteq> executed s rep"
    using executed_sub [of rep s w] by (simp add: executed_upd)
  then have "disk_ok A fs n d0 (mr_d s) (executed (s\<lparr>mr_w := (mr_w s)(w := pc)\<rparr>) rep)"
    using assms(1) disk_ok_mono by (auto simp: mr_inv_def)
  with assms show ?thesis unfolding mr_inv_def by simp
qed

text \<open>Executing a task puts its result on the disk.\<close>

lemma doMapTask_disk:
  assumes inputs: "inputs_ok fs d0" and n: "0 < n" and ok: "disk_ok A fs n d0 d E" and E: "E \<subseteq> tasks_of ''map'' (length fs)"
    and r: "FileName r = fs ! i" "NReduce r = int n" "TaskID r = int i" "i < length fs"
  shows "\<exists>d'. doMapTask (app_enc A) (app_Map A) r d = Ret d' \<and> disk_ok A fs n d0 d' (insert (''map'', i) E)"
proof -
  have m: "mapped (app_enc A) (app_Map A) fs n d0 {i. (''map'', i) \<in> E} d" using ok by (simp add: disk_ok_def)
  have "doMapTask (app_enc A) (app_Map A) r d = doMapTask (app_enc A) (app_Map A) (map_reply fs n i) d"
    using r by (simp add: doMapTask_def map_reply_def split: option.split)
  moreover have "insert i {i. (''map'', i) \<in> E} = {j. (''map'', j) \<in> insert (''map'', i) E}" by auto
  moreover have "(''reduce'', x) \<notin> E" for x using E by (auto simp: tasks_of_def)
  ultimately show ?thesis
    using doMapTask_mapped [OF inputs m r(4) n] by (auto simp: disk_ok_def)
qed

lemma mapped_out: "mapped enc mapf fs n d0 S d \<Longrightarrow> mapped enc mapf fs n d0 S (d(out_name (int r) \<mapsto> x))"
  using mr_names(2) [of "int r"] by (auto simp: mapped_def)

lemma doReduceTask_disk:
  assumes app: "app_ok A fs d0" and n: "i < n" and ok: "disk_ok A fs n d0 d E" and E: "tasks_of ''map'' (length fs) \<subseteq> E"
    and r: "NMap r = int (length fs)" "TaskID r = int i"
  shows "\<exists>d'. doReduceTask (app_dec A) (app_sort A) (app_Reduce A) r d = Ret d' \<and> disk_ok A fs n d0 d' (insert (''reduce'', i) E)"
proof -
  have m: "mapped (app_enc A) (app_Map A) fs n d0 {i. (''map'', i) \<in> E} d" using ok by (simp add: disk_ok_def)
  have "{..<length fs} \<subseteq> {i. (''map'', i) \<in> E}" using E by (auto simp: tasks_of_def)
  with m have "mapped (app_enc A) (app_Map A) fs n d0 {..<length fs} d" unfolding mapped_def by blast
  then have "doReduceTask (app_dec A) (app_sort A) (app_Reduce A) r d = Ret (d(out_name (int i) \<mapsto> job_out A fs n d0 i))"
    using job_out_eq [OF app _ n] n r by (simp add: doReduceTask_def Let_def)
  moreover have "disk_ok A fs n d0 (d(out_name (int i) \<mapsto> job_out A fs n d0 i)) (insert (''reduce'', i) E)"
    using ok mapped_out [OF m] by (auto simp: disk_ok_def)
  ultimately show ?thesis by blast
qed

lemma mr_inv_done:
  assumes inv: "mr_inv A fs n d0 s out rep" and w: "mr_w s w = WTask r" and r: "handed_out r = {t}" "t = (rt_TaskType a, nat (rt_TaskID a))"
    and "0 \<le> rt_TaskID a" and disk: "disk_ok A fs n d0 d' (insert t (executed s rep))"
  shows "mr_inv A fs n d0 (s\<lparr>mr_d := d', mr_w := (mr_w s)(w := WReport a)\<rparr>) out rep"
proof -
  have "executed (s\<lparr>mr_d := d', mr_w := (mr_w s)(w := WReport a)\<rparr>) rep \<subseteq> insert t (executed s rep)"
    using executed_upd [of "s\<lparr>mr_d := d'\<rparr>"] executed_sub [of rep s w] r(2) by auto
  then have "disk_ok A fs n d0 d' (executed (s\<lparr>mr_d := d', mr_w := (mr_w s)(w := WReport a)\<rparr>) rep)"
    by (rule disk_ok_mono [OF disk])
  moreover have "held (mr_w (s\<lparr>mr_d := d', mr_w := (mr_w s)(w := WReport a)\<rparr>) v) = held (mr_w s v)" for v using w r by simp
  ultimately show ?thesis using inv assms(5) unfolding mr_inv_def by (simp del: held.simps)
qed

lemma mr_inv_work:
  assumes inv: "mr_inv A fs n d0 s out rep" and w: "mr_w s w = WTask r" and inputs: "inputs_ok fs d0" and n: "0 < n" and app: "app_ok A fs d0"
    and work: "Worker_iter (app_enc A) (app_dec A) (app_sort A) (app_Map A) (app_Reduce A) (Some r) (mr_d s) = Ret (d', rp, goes_on)"
  shows "mr_inv A fs n d0 (s\<lparr>mr_d := d', mr_w := (mr_w s)(w := after_task rp goes_on)\<rparr>) out rep"
proof -
  let ?i = "nat (TaskID r)" and ?E = "executed s rep"
  have ok: "coord_ok fs n (mr_c s) out rep" and disk: "disk_ok A fs n d0 (mr_d s) ?E"
    and held_pc: "\<And>v. held (mr_w s v) \<subseteq> out" "\<And>v. pc_ok fs n (mr_w s v)"
    using inv unfolding mr_inv_def by blast+
  have pc: "pc_ok fs n (WTask r)" and out: "handed_out r \<subseteq> out" using held_pc [of w] w by simp_all
  have E: "?E \<subseteq> rep \<union> out" using held_pc(1) reporting_held by (fastforce simp: executed_def)
  consider "TaskType r = ''map''" | "TaskType r = ''reduce''" | "handed_out r = {}" "TaskType r \<in> {''wait'', ''done''}"
    using pc by (auto simp: handed_out_def)
  then show ?thesis
  proof cases
    case 1
    then have t: "handed_out r = {(''map'', ?i)}" by (simp add: handed_out_def)
    with out coord_out_phase [OF ok, of "''map''" ?i] have i: "?i < length fs" "?E \<subseteq> tasks_of ''map'' (length fs)" using E by auto
    have r: "FileName r = fs ! ?i" "NReduce r = int n" "TaskID r = int ?i" using pc 1 t by auto
    have nn: "0 \<le> TaskID r" using pc t by simp
    obtain d1 where d1: "doMapTask (app_enc A) (app_Map A) r (mr_d s) = Ret d1" "disk_ok A fs n d0 d1 (insert (''map'', ?i) ?E)"
      using doMapTask_disk [OF inputs n disk i(2) r i(1)] by blast
    have res: "d' = d1" "rp = Some \<lparr>rt_TaskID = TaskID r, rt_TaskType = ''map''\<rparr>" using work 1 d1(1) by (simp_all add: Worker_iter_def)
    show ?thesis unfolding res after_task.simps
      by (rule mr_inv_done [OF inv w t]) (use d1(2) nn in simp_all)
  next
    case 2
    then have t: "handed_out r = {(''reduce'', ?i)}" by (simp add: handed_out_def)
    with out coord_out_phase [OF ok, of "''reduce''" ?i] have i: "?i < n" "tasks_of ''map'' (length fs) \<subseteq> ?E" by (auto simp: executed_def)
    have r: "NMap r = int (length fs)" "TaskID r = int ?i" using pc 2 t by auto
    have nn: "0 \<le> TaskID r" using pc t by simp
    obtain d1 where d1: "doReduceTask (app_dec A) (app_sort A) (app_Reduce A) r (mr_d s) = Ret d1" "disk_ok A fs n d0 d1 (insert (''reduce'', ?i) ?E)"
      using doReduceTask_disk [OF app i(1) disk i(2) r] by blast
    have res: "d' = d1" "rp = Some \<lparr>rt_TaskID = TaskID r, rt_TaskType = ''reduce''\<rparr>" using work 2 d1(1) by (simp_all add: Worker_iter_def)
    show ?thesis unfolding res after_task.simps
      by (rule mr_inv_done [OF inv w t]) (use d1(2) nn in simp_all)
  next
    case 3
    then have "d' = mr_d s" "rp = None" using work by (auto simp: Worker_iter_def split: if_splits)
    then show ?thesis using mr_inv_stop [OF inv, of "after_task None goes_on" w] by (cases goes_on) auto
  qed
qed

text \<open>A worker that crashes while it writes leaves some of the files of its task, and they are the right ones.\<close>

lemma mr_inv_crash_writing:
  assumes inv: "mr_inv A fs n d0 s out rep" and w: "mr_w s w = WTask r" "TaskType r = ''map''" and n: "0 < n"
    and inputs: "inputs_ok fs d0" and content: "mr_d s (FileName r) = Some content"
    and buckets: "make_buckets (NReduce r) (app_Map A (FileName r) content) = Ret buckets"
  shows "mr_inv A fs n d0 (s\<lparr>mr_d := write_buckets (app_enc A) (TaskID r) (take k buckets) (mr_d s), mr_w := (mr_w s)(w := WStopped)\<rparr>) out rep"
proof -
  let ?E = "executed s rep" and ?d = "write_buckets (app_enc A) (TaskID r) (take k buckets) (mr_d s)"
  have ok: "coord_ok fs n (mr_c s) out rep" and disk: "disk_ok A fs n d0 (mr_d s) ?E"
    and held_pc: "\<And>v. held (mr_w s v) \<subseteq> out" "\<And>v. pc_ok fs n (mr_w s v)"
    using inv unfolding mr_inv_def by blast+
  have pc: "pc_ok fs n (WTask r)" and out: "handed_out r \<subseteq> out" using held_pc [of w] w by simp_all
  obtain i where ti: "TaskID r = int i" using pc w(2) by (auto simp: handed_out_def elim: nonneg_int_cases)
  have t: "handed_out r = {(''map'', i)}" using w(2) ti by (simp add: handed_out_def)
  have "?E \<subseteq> rep \<union> out" using held_pc(1) reporting_held by (fastforce simp: executed_def)
  with out t coord_out_phase [OF ok, of "''map''" i] have i: "i < length fs" "?E \<subseteq> tasks_of ''map'' (length fs)" by auto
  have r: "FileName r = fs ! i" "NReduce r = int n" using pc w(2) t ti by auto
  have m: "mapped (app_enc A) (app_Map A) fs n d0 {i. (''map'', i) \<in> ?E} (mr_d s)" using disk by (simp add: disk_ok_def)
  have "fs ! i \<in> set fs" using i(1) by simp
  then have f: "d0 (fs ! i) = Some content" using inputs m content r(1) by (auto simp: inputs_ok_def mapped_def)
  have b: "buckets = map (\<lambda>j. in_bucket n j (emitted (app_Map A) d0 (fs ! i))) [0..<n]"
    using buckets n r f by (simp add: make_buckets_eq emitted_def)
  have "?d x = mr_d s x" if "take 3 x \<noteq> ''mr-''" for x
  proof -
    have "\<forall>j. x \<noteq> inter_name (int i) (int j)" using that mr_names by metis
    then show ?thesis using write_buckets_get(2) ti by metis
  qed
  moreover have "?d (inter_name (int j) (int q)) = mr_d s (inter_name (int j) (int q)) \<or>
      j = i \<and> ?d (inter_name (int j) (int q)) = Some (concat (map (app_enc A) (in_bucket n q (emitted (app_Map A) d0 (fs ! j)))))"
    if "q < n" for j q
    using that by (simp add: ti b write_buckets_get(1))
  ultimately have "mapped (app_enc A) (app_Map A) fs n d0 {i. (''map'', i) \<in> ?E} ?d"
    using m unfolding mapped_def by metis
  then have "disk_ok A fs n d0 ?d ?E" using i(2) by (auto simp: disk_ok_def tasks_of_def)
  then have "mr_inv A fs n d0 (s\<lparr>mr_d := ?d\<rparr>) out rep" using inv by (simp add: mr_inv_def executed_def)
  from mr_inv_stop [OF this, of WStopped w] show ?thesis by simp
qed

lemma mr_reach_inv:
  assumes "mr_reach A fs n d0 s" and "fs \<noteq> []" and "0 < n" and "inputs_ok fs d0" and "app_ok A fs d0"
  shows "\<exists>out rep. mr_inv A fs n d0 s out rep"
  using assms(1)
proof (induction rule: mr_reach.induct)
  case (start c)
  have "coord_ok fs n c {} {}" by (rule honest_run_ok [OF honest_run.start [OF start] assms(2,3)])
  then show ?case by (intro exI [of _ "{}"]) (simp add: mr_inv_def executed_def disk_ok_def mapped_def)
next
  case (step s t)
  then obtain out rep where inv: "mr_inv A fs n d0 s out rep" by blast
  from step.hyps(2) show ?case
  proof cases
    case (request w now c' r)
    with mr_inv_request [OF inv] show ?thesis by blast
  next
    case (work w r d' rp goes_on)
    with mr_inv_work [OF inv _ assms(4,3,5)] show ?thesis by blast
  next
    case (report w a c')
    with mr_inv_report [OF inv _ _ assms(3)] show ?thesis by blast
  next
    case (crash w)
    with mr_inv_stop [OF inv, of WStopped] show ?thesis by auto
  next
    case (crash_writing w r content buckets k)
    with mr_inv_crash_writing [OF inv _ _ assms(3,4)] show ?thesis by blast
  qed
qed

section \<open>Properties\<close>

text \<open>
  C7: A finished job has computed what the sequential program computes. In every execution of the coordinator
  with any number of workers that ask for tasks, execute them on the shared disk and report them, interleaved
  in any way and with crashes of workers at any time: whenever \<open>Done\<close> returns true, the output
  file of every reduce task holds exactly the lines of the sequential program's output, in the same order, whose
  key hashes to the task.
\<close>

theorem finished_job_correct:
  assumes "mr_reach A fs n d0 s" and "fs \<noteq> []" and "0 < n" and "inputs_ok fs d0" and "app_ok A fs d0"
    and "Done (mr_c s) = Ret True"
  shows "\<exists>ds pairs. mrsequential (app_sort A) (app_Map A) (app_Reduce A) fs d0 = Ret ds \<and>
    ds ''mr-out-0'' = Some (concat (map line pairs)) \<and>
    (\<forall>r < n. mr_d s (out_name (int r)) =
       Some (concat (map line (filter (\<lambda>p. ihash (fst p) mod int n = int r) pairs))))"
proof -
  obtain out rep where "mr_inv A fs n d0 s out rep" using mr_reach_inv [OF assms(1-5)] by blast
  then have ok: "coord_ok fs n (mr_c s) out rep" "disk_ok A fs n d0 (mr_d s) (executed s rep)" by (simp_all add: mr_inv_def)
  then have "phase (mr_c s) = DonePhase" using assms(6) by (auto simp: Done_def coord_ok_def)
  then have "(''reduce'', r) \<in> executed s rep" if "r < n" for r using ok(1) that by (auto simp: coord_ok_def Let_def executed_def)
  then have "\<forall>r < n. mr_d s (out_name (int r)) = Some (job_out A fs n d0 r)" using ok(2) by (simp add: disk_ok_def)
  moreover have "sorts_by_key (app_sort A)" "order_free (app_Reduce A)" using assms(5) by (simp_all add: app_ok_def)
  then have "mrsequential (app_sort A) (app_Map A) (app_Reduce A) fs d0 = Ret (d0(''mr-out-0'' \<mapsto> concat (map line (job_pairs A fs d0))))"
    by (simp add: mrsequential_def read_all_emitted [OF assms(4)] reduce_sorted job_pairs_def)
  ultimately show ?thesis
    by (intro exI [of _ "d0(''mr-out-0'' \<mapsto> concat (map line (job_pairs A fs d0)))"] exI [of _ "job_pairs A fs d0"])
      (simp add: job_out_def)
qed

text \<open>One worker does a job of one file and one reduce task.\<close>

definition one_app :: application where
  "one_app = \<lparr>app_enc = (\<lambda>kv. ''x''), app_dec = (\<lambda>s. replicate (length s) \<lparr>Key = ''a'', Value = ''1''\<rparr>), app_sort = sort_key Key,
     app_Map = (\<lambda>f c. [\<lparr>Key = ''a'', Value = ''1''\<rparr>]), app_Reduce = (\<lambda>k vs. Itoa (int (length vs)))\<rparr>"

lemma one_app_ok: "app_ok one_app [''f''] [''f'' \<mapsto> ''p'']"
proof -
  have "kvs = replicate (length (concat (map (\<lambda>kv. ''x'') kvs))) kv" if "set kvs \<subseteq> {kv}" for kvs and kv :: KeyValue
    using that by (induction kvs) auto
  moreover have "order_free (\<lambda>k vs. Itoa (int (length vs)))" unfolding order_free_def by (metis mset_eq_length)
  ultimately show ?thesis by (simp add: app_ok_def one_app_def sorts_by_key_def codec_ok_def emitted_def)
qed

lemma one_app_job: "\<exists>s. mr_reach one_app [''f''] 1 [''f'' \<mapsto> ''p''] s \<and> Done (mr_c s) = Ret True"
proof -
  let ?A = one_app and ?d = "[''f'' \<mapsto> ''p'']" and ?idle = "\<lambda>w :: nat. WIdle"
  define c0 where "c0 = MakeCoordinator [''f''] 1"
  define t where "t f b st = \<lparr>fileName = f, startTime = b, task_id = 0, status = st\<rparr>" for f b st
  define m where "m = \<lparr>TaskType = ''map'', FileName = ''f'', NReduce = 1, NMap = 1, TaskID = 0\<rparr>"
  define r where "r = \<lparr>TaskType = ''reduce'', FileName = '''', NReduce = 1, NMap = 1, TaskID = 0\<rparr>"
  let ?c1 = "c0\<lparr>tasks := [t ''f'' 5 Running]\<rparr>" and ?c2 = "c0\<lparr>phase := ReducePhase, tasks := [t '''' 0 Inited]\<rparr>"
  let ?c3 = "c0\<lparr>phase := ReducePhase, tasks := [t '''' 7 Running]\<rparr>" and ?c4 = "c0\<lparr>phase := DonePhase, tasks := [t '''' 7 Completed]\<rparr>"
  obtain d1 where d1: "doMapTask (app_enc ?A) (app_Map ?A) m ?d = Ret d1"
    by (simp add: doMapTask_def m_def make_buckets_def)
  obtain d2 where d2: "doReduceTask (app_dec ?A) (app_sort ?A) (app_Reduce ?A) r d1 = Ret d2"
    by (simp add: doReduceTask_def Let_def)
  have idle: "(\<lambda>w. WIdle)(0 := WIdle) = ?idle" by auto
  have "mr_reach ?A [''f''] 1 ?d \<lparr>mr_c = c0\<lparr>tasks := [t ''f'' 0 Inited]\<rparr>, mr_d = ?d, mr_w = ?idle\<rparr>"
    by (rule mr_reach.start) (simp add: c0_def t_def coord_eval)
  from mr_reach.step [OF this mr_step.request [of _ 0 5 ?c1 m]]
  have "mr_reach ?A [''f''] 1 ?d \<lparr>mr_c = ?c1, mr_d = ?d, mr_w = ?idle(0 := WTask m)\<rparr>"
    by (simp add: c0_def t_def m_def coord_eval)
  from mr_reach.step [OF this mr_step.work [of _ 0 m _ d1 "Some \<lparr>rt_TaskID = 0, rt_TaskType = ''map''\<rparr>" True]]
  have "mr_reach ?A [''f''] 1 ?d \<lparr>mr_c = ?c1, mr_d = d1, mr_w = ?idle(0 := WReport \<lparr>rt_TaskID = 0, rt_TaskType = ''map''\<rparr>)\<rparr>"
    using d1 by (simp add: Worker_iter_def) (simp add: m_def)
  from mr_reach.step [OF this mr_step.report [of _ 0 _ ?c2]]
  have "mr_reach ?A [''f''] 1 ?d \<lparr>mr_c = ?c2, mr_d = d1, mr_w = ?idle\<rparr>"
    by (simp add: c0_def t_def coord_eval idle)
  from mr_reach.step [OF this mr_step.request [of _ 0 7 ?c3 r]]
  have "mr_reach ?A [''f''] 1 ?d \<lparr>mr_c = ?c3, mr_d = d1, mr_w = ?idle(0 := WTask r)\<rparr>"
    by (simp add: c0_def t_def r_def coord_eval)
  from mr_reach.step [OF this mr_step.work [of _ 0 r _ d2 "Some \<lparr>rt_TaskID = 0, rt_TaskType = ''reduce''\<rparr>" True]]
  have "mr_reach ?A [''f''] 1 ?d \<lparr>mr_c = ?c3, mr_d = d2, mr_w = ?idle(0 := WReport \<lparr>rt_TaskID = 0, rt_TaskType = ''reduce''\<rparr>)\<rparr>"
    using d2 by (simp add: Worker_iter_def) (simp add: r_def)
  from mr_reach.step [OF this mr_step.report [of _ 0 _ ?c4]]
  have "mr_reach ?A [''f''] 1 ?d \<lparr>mr_c = ?c4, mr_d = d2, mr_w = ?idle\<rparr>"
    by (simp add: c0_def t_def coord_eval idle)
  then show ?thesis by (rule_tac x = "\<lparr>mr_c = ?c4, mr_d = d2, mr_w = ?idle\<rparr>" in exI) (simp add: Done_def c0_def MakeCoordinator_def)
qed

theorem finished_job_correct_witness:
  "\<exists>s pairs. mr_reach one_app [''f''] 1 [''f'' \<mapsto> ''p''] s \<and>
     mr_d s (out_name (int 0)) = Some (concat (map line (filter (\<lambda>p. ihash (fst p) mod 1 = 0) pairs)))"
proof -
  obtain s where s: "mr_reach one_app [''f''] 1 [''f'' \<mapsto> ''p''] s" "Done (mr_c s) = Ret True" using one_app_job by blast
  have "inputs_ok [''f''] [''f'' \<mapsto> ''p'']" by (simp add: inputs_ok_def)
  from finished_job_correct [OF s(1) _ _ this one_app_ok s(2)] s(1) show ?thesis by fastforce
qed

end
