(* ===== verification/MrApps.thy ===== *)
theory MrApps
  imports MrWorker
begin

text \<open>
  The MapReduce applications of \<open>mrapps\<close>: word count, indexer, and the deterministic parts of the
  test applications. \<open>strings.FieldsFunc\<close>, \<open>strings.Join\<close> and \<open>sort.Strings\<close> are modelled;
  \<open>unicode.IsLetter\<close> is an argument, and a text is the sequence of its characters (for ASCII text the
  bytes). The results: splitting into words is right, every \<open>Reduce\<close> here is independent of the order
  of its values, as the distributed execution needs, and word count counts words.
\<close>

section \<open>String functions\<close>

fun fields_loop :: "(char \<Rightarrow> bool) \<Rightarrow> string \<Rightarrow> string \<Rightarrow> string list" where
  "fields_loop f cur [] = (if cur = [] then [] else [cur])"
| "fields_loop f cur (c # cs) =
     (if f c then (if cur = [] then [] else [cur]) @ fields_loop f [] cs
      else fields_loop f (cur @ [c]) cs)"

definition FieldsFunc :: "string \<Rightarrow> (char \<Rightarrow> bool) \<Rightarrow> string list" where
  "FieldsFunc s f = fields_loop f [] s"

fun strings_Join :: "string list \<Rightarrow> string \<Rightarrow> string" where
  "strings_Join [] sep = ''''"
| "strings_Join [s] sep = s"
| "strings_Join (s # ss) sep = s @ sep @ strings_Join ss sep"

section \<open>The applications\<close>

definition wc_Map :: "(char \<Rightarrow> bool) \<Rightarrow> string \<Rightarrow> string \<Rightarrow> KeyValue list" where
  "wc_Map isLetter filename contents =
     (let words = FieldsFunc contents (\<lambda>r. \<not> isLetter r)
      in map (\<lambda>w. \<lparr>Key = w, Value = ''1''\<rparr>) words)"

definition wc_Reduce :: "string \<Rightarrow> string list \<Rightarrow> string" where
  "wc_Reduce key values = Itoa (int (length values))"

definition indexer_Map :: "(char \<Rightarrow> bool) \<Rightarrow> string \<Rightarrow> string \<Rightarrow> KeyValue list" where
  "indexer_Map isLetter document val =
     (let words = FieldsFunc val (\<lambda>x. \<not> isLetter x);
          m = foldl (\<lambda>m w. AList.update w True m) [] words
      in map (\<lambda>(w, b). \<lparr>Key = w, Value = document\<rparr>) m)"

definition indexer_Reduce :: "string \<Rightarrow> string list \<Rightarrow> string" where
  "indexer_Reduce key values =
     (let values = sort values in Itoa (int (length values)) @ '' '' @ strings_Join values '','')"

definition nocrash_Map :: "string \<Rightarrow> string \<Rightarrow> KeyValue list" where
  "nocrash_Map filename contents =
     [\<lparr>Key = ''a'', Value = filename\<rparr>, \<lparr>Key = ''b'', Value = Itoa (int (length filename))\<rparr>,
      \<lparr>Key = ''c'', Value = Itoa (int (length contents))\<rparr>, \<lparr>Key = ''d'', Value = ''xyzzy''\<rparr>]"

definition nocrash_Reduce :: "string \<Rightarrow> string list \<Rightarrow> string" where
  "nocrash_Reduce key values = strings_Join (sort values) '' ''"

text \<open>\<open>crash.go\<close>: a random number below 330 of 1000 ends the process, one below 660 only delays.\<close>

definition maybeCrash :: "int \<Rightarrow> unit go" where
  "maybeCrash rr = (if rr < 330 then Fatal else Ret ())"

definition crash_Map :: "int \<Rightarrow> string \<Rightarrow> string \<Rightarrow> KeyValue list go" where
  "crash_Map rr filename contents =
     go_bind (maybeCrash rr) (\<lambda>_. Ret
       [\<lparr>Key = ''a'', Value = filename\<rparr>, \<lparr>Key = ''b'', Value = Itoa (int (length filename))\<rparr>,
        \<lparr>Key = ''c'', Value = Itoa (int (length contents))\<rparr>, \<lparr>Key = ''d'', Value = ''xyzzy''\<rparr>])"

definition crash_Reduce :: "int \<Rightarrow> string \<Rightarrow> string list \<Rightarrow> string go" where
  "crash_Reduce rr key values = go_bind (maybeCrash rr) (\<lambda>_. Ret (strings_Join (sort values) '' ''))"

definition early_exit_Map :: "string \<Rightarrow> string \<Rightarrow> KeyValue list" where
  "early_exit_Map filename contents = [\<lparr>Key = filename, Value = ''1''\<rparr>]"

definition early_exit_Reduce :: "string \<Rightarrow> string list \<Rightarrow> string" where
  "early_exit_Reduce key values = Itoa (int (length values))"

definition rtiming_Map :: "string \<Rightarrow> string \<Rightarrow> KeyValue list" where
  "rtiming_Map filename contents =
     map (\<lambda>k. \<lparr>Key = [k], Value = ''1''\<rparr>) ''abcdefghij''"

definition mtiming_Reduce :: "string \<Rightarrow> string list \<Rightarrow> string" where
  "mtiming_Reduce key values = strings_Join (sort values) '' ''"

section \<open>Words\<close>

lemma fields_loop_concat:
  "\<forall>c \<in> set cur. \<not> f c \<Longrightarrow> concat (fields_loop f cur s) = cur @ filter (\<lambda>c. \<not> f c) s"
  by (induction s arbitrary: cur) simp_all

lemma fields_loop_words:
  "\<forall>c \<in> set cur. \<not> f c \<Longrightarrow> w \<in> set (fields_loop f cur s) \<Longrightarrow> w \<noteq> [] \<and> (\<forall>c \<in> set w. \<not> f c)"
proof (induction s arbitrary: cur)
  case (Cons c s)
  show ?case
  proof (cases "f c")
    case True
    with Cons.prems have "w = cur \<and> cur \<noteq> [] \<or> w \<in> set (fields_loop f [] s)" by (auto split: if_splits)
    then show ?thesis
    proof
      assume "w = cur \<and> cur \<noteq> []"
      with Cons.prems(1) show ?thesis by simp
    next
      assume "w \<in> set (fields_loop f [] s)"
      then show ?thesis by (rule Cons.IH [rotated]) simp
    qed
  next
    case False
    with Cons.prems have "w \<in> set (fields_loop f (cur @ [c]) s)" by simp
    then show ?thesis by (rule Cons.IH [rotated]) (use Cons.prems(1) False in auto)
  qed
qed (simp split: if_splits)

lemma foldl_update_keys:
  "distinct (map fst m) \<Longrightarrow> distinct (map fst (foldl (\<lambda>m w. AList.update w b m) m ws)) \<and>
   fst ` set (foldl (\<lambda>m w. AList.update w b m) m ws) = fst ` set m \<union> set ws"
  by (induction ws arbitrary: m) (auto simp: distinct_update dom_update)

lemma order_free_sort: "order_free (\<lambda>k vs. g k (sort vs))"
proof -
  have "sort vs = sort ws" if "mset vs = mset ws" for vs ws :: "string list"
    using that by (intro properties_for_sort) simp_all
  then show ?thesis unfolding order_free_def by metis
qed

lemma order_free_length: "order_free (\<lambda>k vs. g k (length vs))"
  unfolding order_free_def by (metis mset_eq_length)

section \<open>Properties\<close>

text \<open>
  The words of a text. \<open>FieldsFunc\<close>, as word count and the indexer call it, returns non-empty
  words of letters only, and put together they are all the letters of the text in order; the indexer
  emits each word of a document exactly once.
\<close>

lemma words_of_text:
  "concat (map Key (wc_Map isLetter f s)) = filter isLetter s \<and>
   list_all (\<lambda>kv. Key kv \<noteq> [] \<and> list_all isLetter (Key kv) \<and> Value kv = ''1'') (wc_Map isLetter f s) \<and>
   distinct (map Key (indexer_Map isLetter f s)) \<and>
   Key ` set (indexer_Map isLetter f s) = Key ` set (wc_Map isLetter f s)"
proof -
  let ?ws = "FieldsFunc s (\<lambda>r. \<not> isLetter r)"
  have w: "map Key (wc_Map isLetter f s) = ?ws" "Key ` set (wc_Map isLetter f s) = set ?ws"
    by (simp_all add: wc_Map_def Let_def o_def image_image)
  have i: "map Key (indexer_Map isLetter f s) = map fst (foldl (\<lambda>m w. AList.update w True m) [] ?ws)"
    by (simp add: indexer_Map_def Let_def split_def o_def)
  have "Key ` set (indexer_Map isLetter f s) = set (map Key (indexer_Map isLetter f s))" by simp
  also have "\<dots> = set ?ws"
    unfolding i using foldl_update_keys [of "[]" True ?ws] by simp
  finally have k: "Key ` set (indexer_Map isLetter f s) = Key ` set (wc_Map isLetter f s)"
    by (simp only: w)
  have "distinct (map Key (indexer_Map isLetter f s))"
    unfolding i using foldl_update_keys [of "[]" True ?ws] by simp
  moreover have "concat ?ws = filter isLetter s"
    using fields_loop_concat [of "[]" "\<lambda>r. \<not> isLetter r" s] by (simp add: FieldsFunc_def)
  moreover have "w \<noteq> [] \<and> list_all isLetter w" if "w \<in> set ?ws" for w
    using fields_loop_words [of "[]" "\<lambda>r. \<not> isLetter r" w s] that by (simp add: FieldsFunc_def list_all_iff)
  then have "list_all (\<lambda>kv. Key kv \<noteq> [] \<and> list_all isLetter (Key kv) \<and> Value kv = ''1'') (wc_Map isLetter f s)"
    by (simp add: wc_Map_def Let_def list_all_iff)
  ultimately show ?thesis using k w(1) by simp
qed

text \<open>
  The \<open>Reduce\<close> functions of the deterministic applications do not depend on the order in which
  the values of a key arrive, which is what the equality of distributed and sequential execution
  asks of an application.
\<close>

lemma apps_order_free:
  "order_free wc_Reduce \<and> order_free indexer_Reduce \<and> order_free nocrash_Reduce \<and>
   order_free early_exit_Reduce \<and> order_free mtiming_Reduce"
proof -
  have "wc_Reduce = (\<lambda>k vs. Itoa (int (length vs)))" "early_exit_Reduce = (\<lambda>k vs. Itoa (int (length vs)))"
    by (simp_all add: wc_Reduce_def early_exit_Reduce_def fun_eq_iff)
  moreover have "nocrash_Reduce = (\<lambda>k vs. strings_Join (sort vs) '' '')" "mtiming_Reduce = (\<lambda>k vs. strings_Join (sort vs) '' '')"
    "indexer_Reduce = (\<lambda>k vs. Itoa (int (length (sort vs))) @ '' '' @ strings_Join (sort vs) '','')"
    by (simp_all add: nocrash_Reduce_def mtiming_Reduce_def indexer_Reduce_def fun_eq_iff Let_def del: length_sort)
  ultimately show ?thesis
    using order_free_length [of "\<lambda>k n. Itoa (int n)"] order_free_sort [of "\<lambda>k vs. strings_Join vs '' ''"]
      order_free_sort [of "\<lambda>k vs. Itoa (int (length vs)) @ '' '' @ strings_Join vs '',''"] by simp
qed

text \<open>
  C28: word count counts words. On existing input files, with a sort that sorts by key, the sequential
  word count writes for every word that occurs, in increasing order, one line with the word and the
  number of its occurrences in all the files together; by the equality of distributed and sequential
  execution the worker's output files hold the same lines.
\<close>

theorem wc_counts:
  fixes isLetter :: "char \<Rightarrow> bool" and d :: disk and fs :: "string list"
  assumes "inputs_ok fs d" and "sorts_by_key srt"
  defines "words \<equiv> concat (map (\<lambda>f. FieldsFunc (the (d f)) (\<lambda>r. \<not> isLetter r)) fs)"
  shows "mrsequential srt (wc_Map isLetter) wc_Reduce fs d =
    Ret (d(''mr-out-0'' \<mapsto> concat (map (\<lambda>w. w @ '' '' @ Itoa (int (count_list words w)) @ [CHR 0x0A])
      (sorted_list_of_set (set words)))))"
proof -
  let ?kvs = "concat (map (emitted (wc_Map isLetter) d) fs)"
  have "emitted (wc_Map isLetter) d f =
      map (\<lambda>w. \<lparr>Key = w, Value = ''1''\<rparr>) (FieldsFunc (the (d f)) (\<lambda>r. \<not> isLetter r))" if "f \<in> set fs" for f
    using that assms(1) by (auto simp: emitted_def inputs_ok_def wc_Map_def Let_def)
  then have kvs: "?kvs = map (\<lambda>w. \<lparr>Key = w, Value = ''1''\<rparr>) words"
    by (simp add: words_def map_concat o_def cong: map_cong)
  have "order_free wc_Reduce"
    using order_free_length [of "\<lambda>k n. Itoa (int n)"] by (simp add: wc_Reduce_def [abs_def])
  note red = reduce_sorted [OF assms(2) this, of ?kvs]
  have len: "length (key_values w ?kvs) = count_list words w" for w
    unfolding kvs by (induction words) (simp_all add: key_values_def)
  have "Key ` set ?kvs = set words" unfolding kvs by (simp add: image_image)
  then have "concat (map line (reduce_pairs wc_Reduce ?kvs)) =
      concat (map (\<lambda>w. w @ '' '' @ Itoa (int (count_list words w)) @ [CHR 0x0A]) (sorted_list_of_set (set words)))"
    by (simp only: reduce_pairs_def wc_Reduce_def len map_map o_def line_def fst_conv snd_conv)
  then show ?thesis
    by (simp add: mrsequential_def read_all_emitted [OF assms(1)] red)
qed

theorem wc_counts_witness:
  "mrsequential (sort_key Key) (wc_Map (\<lambda>c. c = CHR ''a'')) wc_Reduce [''f''] [''f'' \<mapsto> ''a a''] =
    Ret ([''f'' \<mapsto> ''a a''](''mr-out-0'' \<mapsto> ''a 2'' @ [CHR 0x0A]))"
proof -
  have "digits 2 = ''2''" by (simp add: Itoa_def digits.simps char_of_def bit_simps)
  moreover have "inputs_ok [''f''] [''f'' \<mapsto> ''a a'']" "sorts_by_key (sort_key Key)"
    by (simp_all add: inputs_ok_def sorts_by_key_def)
  ultimately show ?thesis
    using wc_counts [of "[''f'']" "[''f'' \<mapsto> ''a a'']" "sort_key Key" "\<lambda>c. c = CHR ''a''"]
    by (simp add: FieldsFunc_def numeral_2_eq_2)
qed

end
