(* ===== verification/MrMain.thy ===== *)
theory MrMain
  imports MrSystem MrApps
begin

text \<open>
  The programs around MapReduce: the main functions of \<open>main/mrcoordinator.go\<close>, \<open>main/mrworker.go\<close> and
  \<open>main/mrsequential.go\<close> with the loading of a plugin, the loop of \<open>Worker\<close> and the calls of \<open>mr/worker.go\<close>, the
  clean-up of old files, and the applications of \<open>mrapps\<close> that observe other workers through files
  (\<open>jobcount\<close>, \<open>mtiming\<close>, \<open>rtiming\<close>). The working directory is the disk, or the list of its names where only
  those matter. The operating system is an argument: the process id, which processes are alive, which calls succeed.
\<close>

section \<open>Calls to the coordinator\<close>

record ExampleArgs =
  ea_X :: int

record ExampleReply =
  er_Y :: int

definition Example :: "ExampleArgs \<Rightarrow> ExampleReply \<Rightarrow> ExampleReply" where
  "Example args reply = reply\<lparr>er_Y := ea_X args + 1\<rparr>"

text \<open>
  \<open>call\<close>: \<open>dialled\<close> says whether a connection is made, \<open>handler\<close> is what the coordinator does with the call (\<open>None\<close> for an
  error of the RPC library), and the state is that of the coordinator.
\<close>

definition call :: "bool \<Rightarrow> ('a \<Rightarrow> 'r \<Rightarrow> 'c \<Rightarrow> ('r \<times> 'c) option) \<Rightarrow> 'a \<Rightarrow> 'r \<Rightarrow> 'c \<Rightarrow> (bool \<times> 'r) \<times> 'c" where
  "call dialled handler args reply c =
     (if \<not> dialled then ((False, reply), c)
      else case handler args reply c of None \<Rightarrow> ((False, reply), c) | Some (reply', c') \<Rightarrow> ((True, reply'), c'))"

definition CallExample :: "bool \<Rightarrow> 'c \<Rightarrow> string \<times> 'c" where
  "CallExample dialled c =
     (let args = \<lparr>ea_X = 99\<rparr>; reply = \<lparr>er_Y = 0\<rparr>
      in case call dialled (\<lambda>args reply c. Some (Example args reply, c)) args reply c of ((ok, reply), c) \<Rightarrow>
           (if ok then ''reply.Y '' @ Itoa (er_Y reply) else ''call failed!'', c))"

text \<open>
  \<open>Worker\<close>, given the results of its calls for tasks: the disk, the reports it has sent, and whether it has returned. Its
  reports are assumed to reach the coordinator (see \<open>reportTaskCompletion\<close> for the retries).
\<close>

fun Worker_loop :: "application \<Rightarrow> RequestTaskReply option list \<Rightarrow> disk \<Rightarrow> ReportTaskArgs list \<Rightarrow> (disk \<times> ReportTaskArgs list \<times> bool) go" where
  "Worker_loop A [] d sent = Ret (d, sent, False)"
| "Worker_loop A (r # rs) d sent =
     go_bind (Worker_iter (app_enc A) (app_dec A) (app_sort A) (app_Map A) (app_Reduce A) r d) (\<lambda>(d, rep, goes_on).
       let sent = (case rep of None \<Rightarrow> sent | Some a \<Rightarrow> sent @ [a])
       in if goes_on then Worker_loop A rs d sent else Ret (d, sent, True))"

section \<open>Old files\<close>

text \<open>
  \<open>os.RemoveAll\<close> removes the path it is given and what is below it; a pattern is an ordinary name to it. \<open>filepath.Glob\<close>
  finds the names in the working directory that match: a \<open>*\<close> stands for any characters but a slash.
\<close>

definition RemoveAll :: "string \<Rightarrow> disk \<Rightarrow> disk" where
  "RemoveAll p d = (\<lambda>x. if x = p \<or> take (length p + 1) x = p @ ''/'' then None else d x)"

definition Glob_mr :: "disk \<Rightarrow> string set" where
  "Glob_mr d = {x \<in> dom d. take 3 x = ''mr-'' \<and> CHR ''/'' \<notin> set x}"

definition mr_cleanupOldFiles :: "disk \<Rightarrow> disk" where
  "mr_cleanupOldFiles d = RemoveAll ''mr-out-*'' (RemoveAll ''mr-*'' d)"

definition main_cleanupOldFiles :: "disk \<Rightarrow> disk" where
  "main_cleanupOldFiles d = (\<lambda>x. if \<exists>f \<in> Glob_mr d. x = f \<or> take (length f + 1) x = f @ ''/'' then None else d x)"

section \<open>The main programs\<close>

text \<open>
  \<open>mrcoordinator\<close> gives the coordinator and the disk with which its polling loop begins. \<open>polls\<close> are the states in which
  the loop finds the coordinator, one a second; the result is the number of seconds, \<open>None\<close> while it goes on.
\<close>

definition mrcoordinator :: "string list \<Rightarrow> disk \<Rightarrow> (Coordinator \<times> disk) go" where
  "mrcoordinator args d =
     (let d = main_cleanupOldFiles d
      in if length args < 2 then Fatal
         else Ret (MakeCoordinator (drop 1 args) 10, mr_cleanupOldFiles d))"

fun wait_done :: "Coordinator list \<Rightarrow> nat option go" where
  "wait_done [] = Ret None"
| "wait_done (c # cs) =
     go_bind (Done c) (\<lambda>b. if b then Ret (Some 1) else go_bind (wait_done cs) (\<lambda>k. Ret (map_option Suc k)))"

text \<open>
  A plugin is its table of symbols; the assertion of a symbol's type panics on any other type. \<open>loadPlugin\<close> is the same
  in \<open>mrworker.go\<close> and \<open>mrsequential.go\<close>.
\<close>

datatype symbol =
    MapSym "string \<Rightarrow> string \<Rightarrow> KeyValue list"
  | ReduceSym "string \<Rightarrow> string list \<Rightarrow> string"
  | OtherSym

definition loadPlugin ::
  "(string \<Rightarrow> (string \<Rightarrow> symbol option) option) \<Rightarrow> string \<Rightarrow>
   ((string \<Rightarrow> string \<Rightarrow> KeyValue list) \<times> (string \<Rightarrow> string list \<Rightarrow> string)) go" where
  "loadPlugin Open filename =
     (case Open filename of
        None \<Rightarrow> Fatal
      | Some p \<Rightarrow>
          (case p ''Map'' of
             None \<Rightarrow> Fatal
           | Some (MapSym mapf) \<Rightarrow>
               (case p ''Reduce'' of
                  None \<Rightarrow> Fatal
                | Some (ReduceSym reducef) \<Rightarrow> Ret (mapf, reducef)
                | Some _ \<Rightarrow> Panic)
           | Some _ \<Rightarrow> Panic))"

definition mrworker ::
  "(string \<Rightarrow> (string \<Rightarrow> symbol option) option) \<Rightarrow> (KeyValue \<Rightarrow> string) \<Rightarrow> (string \<Rightarrow> KeyValue list) \<Rightarrow> (KeyValue list \<Rightarrow> KeyValue list) \<Rightarrow>
   string list \<Rightarrow> RequestTaskReply option list \<Rightarrow> disk \<Rightarrow> (disk \<times> ReportTaskArgs list \<times> bool) go" where
  "mrworker Open enc dec srt args replies d =
     (if length args \<noteq> 2 then Fatal
      else go_bind (loadPlugin Open (args ! 1)) (\<lambda>(mapf, reducef).
        Worker_loop \<lparr>app_enc = enc, app_dec = dec, app_sort = srt, app_Map = mapf, app_Reduce = reducef\<rparr> replies d []))"

definition mrsequential_main ::
  "(string \<Rightarrow> (string \<Rightarrow> symbol option) option) \<Rightarrow> (KeyValue list \<Rightarrow> KeyValue list) \<Rightarrow> string list \<Rightarrow> disk \<Rightarrow> disk go" where
  "mrsequential_main Open srt args d =
     (if length args < 3 then Fatal
      else go_bind (loadPlugin Open (args ! 1)) (\<lambda>(mapf, reducef). mrsequential srt mapf reducef (drop 2 args) d))"

section \<open>Applications that look at the working directory\<close>

text \<open>The names in the directory; writing a file adds its name.\<close>

definition WriteFile :: "string \<Rightarrow> string list \<Rightarrow> string list" where
  "WriteFile f names = (if f \<in> set names then names else names @ [f])"

definition job_name :: "nat \<Rightarrow> nat \<Rightarrow> string" where
  "job_name me cnt = ''mr-worker-jobcount-'' @ Itoa (int me) @ ''-'' @ Itoa (int cnt)"

definition jobcount_Map :: "nat \<Rightarrow> string \<Rightarrow> string \<Rightarrow> nat \<times> string list \<Rightarrow> KeyValue list \<times> nat \<times> string list" where
  "jobcount_Map me filename contents = (\<lambda>(cnt, names).
     ([\<lparr>Key = ''a'', Value = ''x''\<rparr>], cnt + 1, WriteFile (job_name me cnt) names))"

definition jobcount_Reduce :: "string \<Rightarrow> string list \<Rightarrow> string list \<Rightarrow> string" where
  "jobcount_Reduce key values names =
     (let invocations = foldl (\<lambda>k name. if take 18 name = ''mr-worker-jobcount'' then k + 1 else k) 0 names
      in Itoa invocations)"

text \<open>
  \<open>fmt.Sscanf (name, "mr-worker-PHASE-%d", &xpid)\<close>: the text of the pattern, then a number with an optional sign, of which at
  least one digit must be there; what follows it is not looked at.
\<close>

definition is_digit :: "char \<Rightarrow> bool" where
  "is_digit c \<longleftrightarrow> 48 \<le> (of_char c :: nat) \<and> (of_char c :: nat) < 58"

definition worker_file :: "string \<Rightarrow> string" where
  "worker_file ph = ''mr-worker-'' @ ph @ ''-''"

definition scan_int :: "string \<Rightarrow> int option" where
  "scan_int s =
     (let neg = (s \<noteq> [] \<and> hd s = CHR ''-'');
          body = (if s \<noteq> [] \<and> (hd s = CHR ''-'' \<or> hd s = CHR ''+'') then tl s else s);
          ds = takeWhile is_digit body
      in if ds = [] then None else Some (if neg then - int (undigits ds) else int (undigits ds)))"

definition scan_pid :: "string \<Rightarrow> string \<Rightarrow> int option" where
  "scan_pid ph name =
     (let p = worker_file ph
      in if take (length p) name = p then scan_int (drop (length p) name) else None)"

text \<open>
  \<open>nparallel\<close>, which sleeps between counting and removing its file: other workers run then, so it is two steps. \<open>alive\<close>
  says which processes a signal can be sent to.
\<close>

definition nparallel_enter :: "(int \<Rightarrow> bool) \<Rightarrow> nat \<Rightarrow> string \<Rightarrow> string list \<Rightarrow> int \<times> string list" where
  "nparallel_enter alive pid ph names =
     (let myfilename = worker_file ph @ Itoa (int pid);
          names = WriteFile myfilename names;
          ret = foldl (\<lambda>ret name. case scan_pid ph name of
                   None \<Rightarrow> ret
                 | Some xpid \<Rightarrow> if alive xpid then ret + 1 else ret) 0 names
      in (ret, names))"

definition nparallel_leave :: "nat \<Rightarrow> string \<Rightarrow> string list \<Rightarrow> string list go" where
  "nparallel_leave pid ph names =
     (let myfilename = worker_file ph @ Itoa (int pid)
      in if myfilename \<in> set names then Ret (filter (\<lambda>f. f \<noteq> myfilename) names) else Panic)"

text \<open>
  \<open>Map\<close> of \<open>mtiming.go\<close> and \<open>Reduce\<close> of \<open>rtiming.go\<close>. \<open>ts\<close> is the formatted time; \<open>between\<close> is what others do to the
  directory during the sleep.
\<close>

definition nparallel ::
  "(int \<Rightarrow> bool) \<Rightarrow> (string list \<Rightarrow> string list) \<Rightarrow> nat \<Rightarrow> string \<Rightarrow> string list \<Rightarrow> (int \<times> string list) go" where
  "nparallel alive between pid ph names =
     (case nparallel_enter alive pid ph names of (ret, names) \<Rightarrow>
        go_bind (nparallel_leave pid ph (between names)) (\<lambda>names. Ret (ret, names)))"

definition mtiming_Map ::
  "(int \<Rightarrow> bool) \<Rightarrow> (string list \<Rightarrow> string list) \<Rightarrow> nat \<Rightarrow> string \<Rightarrow> string \<Rightarrow> string \<Rightarrow> string list \<Rightarrow> (KeyValue list \<times> string list) go" where
  "mtiming_Map alive between pid ts filename contents names =
     go_bind (nparallel alive between pid ''map'' names) (\<lambda>(n, names).
       Ret ([\<lparr>Key = ''times-'' @ Itoa (int pid), Value = ts\<rparr>, \<lparr>Key = ''parallel-'' @ Itoa (int pid), Value = Itoa n\<rparr>], names))"

definition rtiming_Reduce ::
  "(int \<Rightarrow> bool) \<Rightarrow> (string list \<Rightarrow> string list) \<Rightarrow> nat \<Rightarrow> string \<Rightarrow> string list \<Rightarrow> string list \<Rightarrow> (string \<times> string list) go" where
  "rtiming_Reduce alive between pid key values names =
     go_bind (nparallel alive between pid ''reduce'' names) (\<lambda>(n, names). Ret (Itoa n, names))"

section \<open>Old files and new ones\<close>

text \<open>
  The clean-up in \<open>mr/coordinator.go\<close> leaves every file of an earlier job where it is; that of
  \<open>main/mrcoordinator.go\<close>, which expands the pattern, removes them all and keeps the inputs.
\<close>

lemma digits_no_char: "c \<in> set (digits n) \<Longrightarrow> c \<noteq> CHR ''*'' \<and> c \<noteq> CHR ''/''"
  using digits_digit [of c n] by auto

lemma job_files_plain:
  "CHR ''*'' \<notin> set (inter_name (int i) (int r))" "CHR ''/'' \<notin> set (inter_name (int i) (int r))"
  "CHR ''*'' \<notin> set (out_name (int r))" "CHR ''/'' \<notin> set (out_name (int r))"
  using digits_no_char by (auto simp: inter_name_def out_name_def)

lemma RemoveAll_pattern:
  assumes "CHR ''*'' \<notin> set x" and "CHR ''*'' \<in> set p"
  shows "RemoveAll p d x = d x"
proof -
  have "take (length p + 1) x \<noteq> p @ ''/''"
  proof
    assume "take (length p + 1) x = p @ ''/''"
    then have "set p \<subseteq> set x" using set_take_subset [of "length p + 1" x] by simp
    with assms show False by blast
  qed
  with assms show ?thesis by (auto simp: RemoveAll_def)
qed

lemma mr_cleanup_keeps:
  "mr_cleanupOldFiles d (inter_name (int i) (int r)) = d (inter_name (int i) (int r))"
  "mr_cleanupOldFiles d (out_name (int r)) = d (out_name (int r))"
  by (simp_all add: mr_cleanupOldFiles_def RemoveAll_pattern job_files_plain)

lemma main_cleanup_plain:
  assumes "take 3 x = ''mr-''" and "CHR ''/'' \<notin> set x"
  shows "main_cleanupOldFiles d x = None"
  using assms by (cases "d x") (auto simp: main_cleanupOldFiles_def Glob_mr_def)

lemma main_cleanup_removes:
  "main_cleanupOldFiles d (inter_name (int i) (int r)) = None" "main_cleanupOldFiles d (out_name (int r)) = None"
  by (simp_all add: main_cleanup_plain mr_names job_files_plain)

lemma below_mr:
  assumes "take 3 p = ''mr-''" and "take (length p + 1) x = p @ ''/''"
  shows "take 3 x = ''mr-''"
proof -
  have "3 \<le> length p" using arg_cong [OF assms(1), of length] by (simp split: if_splits)
  then have "take 3 x = take 3 (take (length p + 1) x)" by (simp add: min_def)
  also have "\<dots> = ''mr-''" unfolding assms(2) using assms(1) \<open>3 \<le> length p\<close> by simp
  finally show ?thesis .
qed

lemma main_cleanup_keeps:
  assumes "take 3 x \<noteq> ''mr-''" shows "main_cleanupOldFiles d x = d x"
proof -
  have "\<not> (x = f \<or> take (length f + 1) x = f @ ''/'')" if "f \<in> Glob_mr d" for f
    using that assms below_mr [of f x] by (auto simp: Glob_mr_def)
  then show ?thesis by (auto simp: main_cleanupOldFiles_def)
qed

text \<open>So a coordinator that its main program starts finds the inputs, and nothing of an earlier job.\<close>

lemma mrcoordinator_fresh:
  assumes "mrcoordinator args d = Ret (c, d')"
  shows "c = MakeCoordinator (tl args) 10 \<and> d' (inter_name (int i) (int r)) = None \<and> d' (out_name (int r)) = None \<and>
    (take 3 x \<noteq> ''mr-'' \<longrightarrow> d' x = d x)"
proof -
  have d': "d' = mr_cleanupOldFiles (main_cleanupOldFiles d)" "c = MakeCoordinator (drop 1 args) 10"
    using assms by (auto simp: mrcoordinator_def Let_def split: if_splits)
  have "RemoveAll p e x = e x" if "take 3 p = ''mr-''" "take 3 x \<noteq> ''mr-''" for p e
    using that below_mr [of p x] by (auto simp: RemoveAll_def)
  then have "take 3 x \<noteq> ''mr-'' \<longrightarrow> d' x = d x" by (simp add: d' mr_cleanupOldFiles_def main_cleanup_keeps)
  then show ?thesis by (simp add: d' mr_cleanup_keeps main_cleanup_removes drop_Suc)
qed

text \<open>The polling loop ends with the first poll at which the job is done.\<close>

lemma wait_done_returns:
  assumes "\<forall>c\<in>set cs. Done c = Ret False" and "Done c = Ret True"
  shows "wait_done (cs @ c # rest) = Ret (Some (Suc (length cs)))"
  using assms by (induction cs) simp_all

text \<open>A worker returns only when it is told that the job is done.\<close>

lemma Worker_loop_done:
  assumes "Worker_loop A rs d sent = Ret (d', sent', True)"
  shows "\<exists>r \<in> set rs. \<exists>a. r = Some a \<and> TaskType a = ''done''"
  using assms
proof (induction rs arbitrary: d sent)
  case (Cons r rs)
  then obtain d1 rep goes_on where it:
    "Worker_iter (app_enc A) (app_dec A) (app_sort A) (app_Map A) (app_Reduce A) r d = Ret (d1, rep, goes_on)"
    by (auto simp: go_simps)
  show ?case
  proof (cases goes_on)
    case True
    with Cons it show ?thesis by (auto simp: Let_def)
  next
    case False
    with it show ?thesis by (auto simp: Worker_iter_def go_simps split: option.splits if_splits)
  qed
qed simp

section \<open>Counting through files\<close>

text \<open>The number in the name of a worker's file is read back.\<close>

lemma takeWhile_digits: "takeWhile is_digit (digits n) = digits n"
  using digits_digit by (auto simp: takeWhile_eq_all_conv is_digit_def)

lemma digits_not_Nil [simp]: "digits n \<noteq> []"
  by (subst digits.simps) simp

lemma scan_int_digits: "scan_int (digits n) = Some (int n)"
proof -
  have "of_char (hd (digits n)) \<in> {48..<58 :: nat}" by (intro digits_digit [of _ n]) simp
  then have "hd (digits n) \<noteq> CHR ''-''" "hd (digits n) \<noteq> CHR ''+''" by auto
  then show ?thesis by (simp add: scan_int_def takeWhile_digits undigits_digits Let_def)
qed

lemma scan_pid_file: "scan_pid ph (worker_file ph @ digits n) = Some (int n)"
  by (simp add: scan_pid_def scan_int_digits Let_def)

lemma foldl_count: "foldl (\<lambda>k x. if P x then k + 1 else k) (n :: int) xs = n + int (length (filter P xs))"
  by (induction xs arbitrary: n) simp_all

text \<open>
  When the files of a phase in the directory are those of the processes \<open>P\<close>, a worker that enters counts the
  processes of \<open>P\<close> and itself that are alive; the files are then those of \<open>P\<close> and itself, and leaving takes its own away.
\<close>

definition files_of :: "string \<Rightarrow> string list \<Rightarrow> nat set \<Rightarrow> bool" where
  "files_of ph names P \<longleftrightarrow> distinct names \<and> {x \<in> set names. scan_pid ph x \<noteq> None} = (\<lambda>p. worker_file ph @ digits p) ` P"

lemma files_of_enter:
  assumes "files_of ph names P" and "nparallel_enter alive pid ph names = (n, names')"
  shows "files_of ph names' (insert pid P)" and "n = int (card {p \<in> insert pid P. alive (int p)})"
proof -
  let ?f = "\<lambda>p. worker_file ph @ digits p"
  have names': "names' = WriteFile (?f pid) names" using assms(2) by (simp add: nparallel_enter_def Let_def)
  show ok: "files_of ph names' (insert pid P)"
    using assms(1) scan_pid_file [of ph pid] by (auto simp: names' files_of_def WriteFile_def)
  let ?P = "\<lambda>x. case scan_pid ph x of None \<Rightarrow> False | Some i \<Rightarrow> alive i"
  have "n = foldl (\<lambda>k x. if ?P x then k + 1 else k) 0 names'"
    using assms(2) by (auto simp: nparallel_enter_def Let_def names' intro!: foldl_cong split: option.split)
  then have n: "n = int (card {x \<in> set names'. ?P x})"
    using ok by (simp add: foldl_count files_of_def distinct_card [symmetric])
  have "{x \<in> set names'. ?P x} = {x \<in> {x \<in> set names'. scan_pid ph x \<noteq> None}. ?P x}" by (auto split: option.splits)
  also have "\<dots> = ?f ` {p \<in> insert pid P. alive (int p)}" using ok by (auto simp: files_of_def scan_pid_file)
  also have "card \<dots> = card {p \<in> insert pid P. alive (int p)}" by (rule card_image) (simp add: inj_on_def)
  finally show "n = int (card {p \<in> insert pid P. alive (int p)})" using n by simp
qed

lemma files_of_leave:
  assumes "files_of ph names P" and "pid \<in> P"
  shows "\<exists>names'. nparallel_leave pid ph names = Ret names' \<and> files_of ph names' (P - {pid})"
proof -
  let ?f = "\<lambda>p. worker_file ph @ digits p"
  have "?f pid \<in> set names" using assms by (auto simp: files_of_def)
  moreover have "{x \<in> set (filter (\<lambda>x. x \<noteq> ?f pid) names). scan_pid ph x \<noteq> None} = {x \<in> set names. scan_pid ph x \<noteq> None} - {?f pid}" by auto
  then have "files_of ph (filter (\<lambda>x. x \<noteq> ?f pid) names) (P - {pid})"
    using assms by (auto simp: files_of_def)
  ultimately show ?thesis by (simp add: nparallel_leave_def Let_def)
qed

text \<open>
  \<open>jobcount\<close>: every call of \<open>Map\<close>, in whatever process, leaves a file of its own, so \<open>Reduce\<close> reports the number of calls.
  \<open>jobs\<close> lists the processes in the order in which they call \<open>Map\<close>; every process has its own counter.
\<close>

fun run_jobs :: "nat list \<Rightarrow> (nat \<Rightarrow> nat) \<times> string list \<Rightarrow> (nat \<Rightarrow> nat) \<times> string list" where
  "run_jobs [] st = st"
| "run_jobs (me # jobs) (cnt, names) =
     (case jobcount_Map me [] [] (cnt me, names) of (kva, k, names) \<Rightarrow> run_jobs jobs (cnt(me := k), names))"

definition job_file :: "string \<Rightarrow> bool" where
  "job_file name \<longleftrightarrow> take 18 name = ''mr-worker-jobcount''"

lemma job_name_file: "job_file (job_name me k)"
  by (simp add: job_file_def job_name_def)

lemma job_name_inj: "job_name me k = job_name me' k' \<longleftrightarrow> me = me' \<and> k = k'"
  using inter_name_inj [of me k me' k'] by (simp add: job_name_def inter_name_def)

lemma run_jobs_files:
  assumes "{x \<in> set names. job_file x} = {job_name me k | me k. k < cnt me}" and "run_jobs jobs (cnt, names) = (cnt', names')"
  shows "length (filter job_file names') = length (filter job_file names) + length jobs"
  using assms
proof (induction jobs arbitrary: cnt names)
  case (Cons me jobs)
  have new: "job_name me (cnt me) \<notin> set names"
  proof
    assume "job_name me (cnt me) \<in> set names"
    then have "job_name me (cnt me) \<in> {job_name me k | me k. k < cnt me}" using Cons.prems(1) job_name_file by blast
    then show False by (auto simp: job_name_inj)
  qed
  let ?names = "names @ [job_name me (cnt me)]" and ?cnt = "cnt(me := cnt me + 1)"
  have "{x \<in> set ?names. job_file x} = insert (job_name me (cnt me)) {x \<in> set names. job_file x}" using job_name_file by auto
  also have "\<dots> = {job_name me k | me k. k < ?cnt me}"
    unfolding Cons.prems(1) by (auto simp: less_Suc_eq split: if_splits)
  finally have files: "{x \<in> set ?names. job_file x} = {job_name me k | me k. k < ?cnt me}" .
  have "run_jobs jobs (?cnt, ?names) = (cnt', names')"
    using Cons.prems(2) new by (simp add: jobcount_Map_def WriteFile_def)
  from Cons.IH [OF files this] have "length (filter job_file names') = length (filter job_file ?names) + length jobs" .
  then show ?case by (simp add: job_name_file)
qed simp

lemma jobcount_counts:
  assumes "\<forall>x \<in> set names. \<not> job_file x" and "run_jobs jobs (\<lambda>me. 0, names) = (cnt, names')"
  shows "jobcount_Reduce key values names' = Itoa (int (length jobs))"
proof -
  have "{x \<in> set names. job_file x} = {job_name me k | me k. k < (\<lambda>me. 0) me}" using assms(1) by auto
  from run_jobs_files [OF this assms(2)] have "length (filter job_file names') = length jobs" using assms(1) by simp
  then show ?thesis unfolding jobcount_Reduce_def job_file_def [symmetric] by (simp add: foldl_count)
qed

end
