(* ===== verification/RaftCluster.thy ===== *)
theory RaftCluster
  imports Raft "HOL-Library.Multiset"
begin

text \<open>
  The peers of \<open>Raft\<close> together: the tickers, the goroutines of elections and heartbeats with their
  pending RPCs, and a network that delays, reorders and loses requests and replies. The main result
  is election safety, that a term has at most one leader in the whole execution, for executions
  without restarts; \<open>persist\<close> saves nothing, and with restarts the same property is shown to fail.
\<close>

section \<open>The cluster\<close>

text \<open>
  \<open>clock\<close> is the \<open>lastElectionTime\<close> of each ticker and \<open>votes\<close> the \<open>votesReceived\<close> of the election that a
  candidate started in a term. A pending call is an entry of one of the multisets: a request on its
  way from a peer to a peer, or a reply on its way back. \<open>labrpc\<close> delivers a request at most once and
  a reply at most once, so delivering or losing a message removes it.
\<close>

record 'c cluster =
  nodes :: "int \<Rightarrow> 'c Raft"
  clock :: "int \<Rightarrow> int"
  votes :: "int \<times> int \<Rightarrow> int"
  rv_req :: "(int \<times> int \<times> RequestVoteArgs) multiset"
  rv_rep :: "(int \<times> int \<times> RequestVoteArgs \<times> RequestVoteReply) multiset"
  ae_req :: "(int \<times> int \<times> 'c AppendEntriesArgs) multiset"
  ae_rep :: "(int \<times> int \<times> AppendEntriesReply) multiset"

definition init_cluster :: "int \<Rightarrow> string list \<Rightarrow> 'c cluster" where
  "init_cluster now ends =
     \<lparr>nodes = (\<lambda>i. Make now ends i MakePersister), clock = (\<lambda>i. now), votes = (\<lambda>e. 0),
      rv_req = {#}, rv_rep = {#}, ae_req = {#}, ae_rep = {#}\<rparr>"

text \<open>
  The steps. \<open>Election\<close> and \<open>Heartbeats\<close> are the two critical sections of a ticker iteration, for
  clock readings \<open>now\<close>, \<open>now'\<close> and a random number \<open>r\<close>; the others name the message they consume.
\<close>

datatype 'c action =
    Election int int int nat
  | Heartbeats int int
  | DeliverVote int int RequestVoteArgs
  | LoseVote int int RequestVoteArgs
  | ReplyVote int int RequestVoteArgs RequestVoteReply
  | LoseReplyVote int int RequestVoteArgs RequestVoteReply
  | DeliverAppend int int int "'c AppendEntriesArgs"
  | LoseAppend int int "'c AppendEntriesArgs"
  | ReplyAppend int int AppendEntriesReply
  | LoseReplyAppend int int AppendEntriesReply
  | ClientStart int "'c option"
  | ClientSnapshot int int "8 word list"
  | ClientKill int

abbreviation set_node :: "int \<Rightarrow> 'c Raft \<Rightarrow> 'c cluster \<Rightarrow> 'c cluster" where
  "set_node i rf s \<equiv> s\<lparr>nodes := (nodes s)(i := rf)\<rparr>"

definition Election_act :: "int \<Rightarrow> int \<Rightarrow> int \<Rightarrow> nat \<Rightarrow> 'c cluster \<Rightarrow> 'c cluster" where
  "Election_act i now now' r s =
     (case ticker_election now now' r (clock s i) (nodes s i) of
        (rf, t, None) \<Rightarrow> (set_node i rf s)\<lparr>clock := (clock s)(i := t)\<rparr>
      | (rf, t, Some a) \<Rightarrow>
          (set_node i rf s)\<lparr>clock := (clock s)(i := t), votes := (votes s)((i, fst a) := 1),
            rv_req := rv_req s + mset (map (\<lambda>(j, args). (i, j, args)) (requestVotes a rf))\<rparr>)"

definition Heartbeats_act :: "int \<Rightarrow> int \<Rightarrow> 'c cluster \<Rightarrow> 'c cluster" where
  "Heartbeats_act i now s =
     (case ticker_heartbeats now (clock s i) (nodes s i) of
        (calls, t) \<Rightarrow> s\<lparr>clock := (clock s)(i := t),
          ae_req := ae_req s + mset (map (\<lambda>(j, args). (i, j, args)) calls)\<rparr>)"

fun act :: "'c action \<Rightarrow> 'c cluster \<Rightarrow> 'c cluster option" where
  "act (Election i now now' r) s =
     (if 0 \<le> i \<and> i < int (length (peers (nodes s i))) \<and> \<not> killed (nodes s i)
      then Some (Election_act i now now' r s) else None)"
| "act (Heartbeats i now) s =
     (if 0 \<le> i \<and> i < int (length (peers (nodes s i))) \<and> \<not> killed (nodes s i)
      then Some (Heartbeats_act i now s) else None)"
| "act (DeliverVote c v args) s =
     (if (c, v, args) \<in># rv_req s
      then (case RequestVote args (nodes s v) of (rf, reply) \<Rightarrow>
        Some ((set_node v rf s)\<lparr>rv_req := rv_req s - {#(c, v, args)#},
          rv_rep := add_mset (c, v, args, reply) (rv_rep s)\<rparr>)) else None)"
| "act (LoseVote c v args) s =
     (if (c, v, args) \<in># rv_req s then Some (s\<lparr>rv_req := rv_req s - {#(c, v, args)#}\<rparr>) else None)"
| "act (ReplyVote c v args reply) s =
     (if (c, v, args, reply) \<in># rv_rep s
      then (case requestVotes_reply args reply (nodes s c) (votes s (c, rv_Term args)) of (rf, k) \<Rightarrow>
        Some ((set_node c rf s)\<lparr>votes := (votes s)((c, rv_Term args) := k),
          rv_rep := rv_rep s - {#(c, v, args, reply)#}\<rparr>)) else None)"
| "act (LoseReplyVote c v args reply) s =
     (if (c, v, args, reply) \<in># rv_rep s
      then Some (s\<lparr>rv_rep := rv_rep s - {#(c, v, args, reply)#}\<rparr>) else None)"
| "act (DeliverAppend l v now args) s =
     (if (l, v, args) \<in># ae_req s
      then (case AppendEntries now args (nodes s v) of (rf, reply) \<Rightarrow>
        Some ((set_node v rf s)\<lparr>ae_req := ae_req s - {#(l, v, args)#},
          ae_rep := add_mset (l, v, reply) (ae_rep s)\<rparr>)) else None)"
| "act (LoseAppend l v args) s =
     (if (l, v, args) \<in># ae_req s then Some (s\<lparr>ae_req := ae_req s - {#(l, v, args)#}\<rparr>) else None)"
| "act (ReplyAppend l v reply) s =
     (if (l, v, reply) \<in># ae_rep s
      then Some ((set_node l (heartbeat_reply reply (nodes s l)) s)\<lparr>ae_rep := ae_rep s - {#(l, v, reply)#}\<rparr>)
      else None)"
| "act (LoseReplyAppend l v reply) s =
     (if (l, v, reply) \<in># ae_rep s then Some (s\<lparr>ae_rep := ae_rep s - {#(l, v, reply)#}\<rparr>) else None)"
| "act (ClientStart i command) s = Some (set_node i (fst (Start command (nodes s i))) s)"
| "act (ClientSnapshot i index bytes) s = Some (set_node i (Snapshot index bytes (nodes s i)) s)"
| "act (ClientKill i) s = Some (set_node i (Kill (nodes s i)) s)"

fun acts :: "'c action list \<Rightarrow> 'c cluster \<Rightarrow> 'c cluster option" where
  "acts [] s = Some s"
| "acts (a # as) s = (case act a s of None \<Rightarrow> None | Some s' \<Rightarrow> acts as s')"

inductive cluster_steps :: "'c cluster \<Rightarrow> 'c cluster \<Rightarrow> bool" where
  none: "cluster_steps s s"
| more: "cluster_steps s s' \<Longrightarrow> act a s' = Some s'' \<Longrightarrow> cluster_steps s s''"

text \<open>A crash and restart: the tester makes a new peer on a copy of the old one's persister.\<close>

definition restart :: "int \<Rightarrow> int \<Rightarrow> 'c cluster \<Rightarrow> 'c cluster" where
  "restart i now s =
     (set_node i (Make now (peers (nodes s i)) i (Persister_Copy (persister (nodes s i)))) s)
       \<lparr>clock := (clock s)(i := now)\<rparr>"

lemma acts_steps_from: "cluster_steps s0 s \<Longrightarrow> acts as s = Some s' \<Longrightarrow> cluster_steps s0 s'"
  by (induction as arbitrary: s) (auto split: option.splits intro: cluster_steps.more)

lemmas acts_steps = acts_steps_from [OF cluster_steps.none]

lemma cluster_steps_trans: "cluster_steps s' s'' \<Longrightarrow> cluster_steps s s' \<Longrightarrow> cluster_steps s s''"
  by (induction rule: cluster_steps.induct) (auto intro: cluster_steps.more)

section \<open>Votes and their history\<close>

text \<open>
  The invariant speaks of a history \<open>h\<close>: \<open>h v T\<close> is the candidate that peer \<open>v\<close> voted for in term \<open>T\<close>.
  A peer holds the current entry in \<open>votedFor\<close>.
\<close>

type_synonym history = "int \<Rightarrow> int \<Rightarrow> int option"

definition node_ok :: "string list \<Rightarrow> history \<Rightarrow> int \<Rightarrow> 'c Raft \<Rightarrow> bool" where
  "node_ok ends h i rf \<longleftrightarrow> me rf = i \<and> peers rf = ends \<and>
     (\<forall>T > currentTerm rf. h i T = None) \<and>
     h i (currentTerm rf) = (if votedFor rf = -1 then None else Some (votedFor rf)) \<and>
     (state rf \<noteq> Follower \<longrightarrow> votedFor rf = i \<and> 0 \<le> i)"

definition extends :: "int \<Rightarrow> history \<Rightarrow> history \<Rightarrow> bool" where
  "extends i h h' \<longleftrightarrow> (\<forall>v. v \<noteq> i \<longrightarrow> h' v = h v) \<and> (\<forall>T c. h i T = Some c \<longrightarrow> h' i T = Some c)"

lemma extends_refl [simp]: "extends i h h"
  by (simp add: extends_def)

lemma extends_mono: "extends i h h' \<Longrightarrow> h v T = Some c \<Longrightarrow> h' v T = Some c"
  by (cases "v = i") (auto simp: extends_def)

text \<open>A step of a peer that neither starts an election nor wins one.\<close>

definition quiet :: "'c Raft \<Rightarrow> 'c Raft \<Rightarrow> bool" where
  "quiet rf rf' \<longleftrightarrow> me rf' = me rf \<and> peers rf' = peers rf \<and> currentTerm rf \<le> currentTerm rf' \<and>
     (state rf' \<noteq> Follower \<longrightarrow> state rf' = state rf \<and> currentTerm rf' = currentTerm rf)"

lemma quiet_refl [simp]: "quiet rf rf"
  by (simp add: quiet_def)

lemma step_down_ok:
  "node_ok ends h i rf \<Longrightarrow> currentTerm rf < T \<Longrightarrow> node_ok ends h i (step_down T rf) \<and> quiet rf (step_down T rf)"
  by (simp add: node_ok_def quiet_def step_down_def)

lemma same_core_ok:
  assumes "node_ok ends h i rf" and "quiet rf q" and "node_ok ends h i q"
    and "me rf' = me q" and "peers rf' = peers q" and "currentTerm rf' = currentTerm q"
    and "votedFor rf' = votedFor q" and "state rf' = state q"
  shows "node_ok ends h i rf' \<and> quiet rf rf'"
  using assms by (simp add: node_ok_def quiet_def)

lemma AppendEntries_ok:
  assumes "node_ok ends h i rf" and "AppendEntries now args rf = (rf', reply)"
  shows "node_ok ends h i rf' \<and> quiet rf rf'"
proof -
  let ?q = "if currentTerm rf < ae_Term args then step_down (ae_Term args) rf else rf"
  have "node_ok ends h i ?q" "quiet rf ?q"
    using step_down_ok [OF assms(1)] assms(1) by auto
  moreover have "me rf' = me ?q" "peers rf' = peers ?q" "currentTerm rf' = currentTerm ?q"
    "votedFor rf' = votedFor ?q" "state rf' = state ?q"
    using assms(2) by (auto simp: AppendEntries_def Let_def split: if_splits)
  ultimately show ?thesis using same_core_ok [OF assms(1)] by blast
qed

lemma heartbeat_reply_ok:
  "node_ok ends h i rf \<Longrightarrow> node_ok ends h i (heartbeat_reply reply rf) \<and> quiet rf (heartbeat_reply reply rf)"
  using step_down_ok [of ends h i rf "aer_Term reply"] by (auto simp: heartbeat_reply_def persist_def)

lemma client_ok:
  assumes "node_ok ends h i rf"
  shows "node_ok ends h i (fst (Start command rf)) \<and> quiet rf (fst (Start command rf))"
    and "node_ok ends h i (Snapshot index bytes rf) \<and> quiet rf (Snapshot index bytes rf)"
    and "node_ok ends h i (Kill rf) \<and> quiet rf (Kill rf)"
  using assms by (auto simp: node_ok_def quiet_def raft_defs)

lemma RequestVote_ok:
  assumes "node_ok ends h v rf" and "RequestVote args rf = (rf', reply)" and "rv_CandidateId args \<noteq> -1"
  shows "\<exists>h'. extends v h h' \<and> node_ok ends h' v rf' \<and> quiet rf rf' \<and>
    (rvr_VoteGranted reply \<longrightarrow> h' v (rv_Term args) = Some (rv_CandidateId args))"
proof (cases "rvr_VoteGranted reply")
  case True
  let ?h = "h(v := (h v)(rv_Term args \<mapsto> rv_CandidateId args))"
  have "extends v h ?h" "node_ok ends ?h v rf'"
    using assms True
    by (auto simp: RequestVote_def node_ok_def extends_def step_down_def Let_def split: if_splits)
  moreover have "quiet rf rf'"
    using assms(2) by (auto simp: RequestVote_def quiet_def step_down_def Let_def split: if_splits)
  ultimately show ?thesis by (intro exI [of _ ?h]) simp
next
  case False
  then have "rf' = rf \<or> currentTerm rf < rv_Term args \<and> rf' = step_down (rv_Term args) rf"
    using assms(2) by (auto simp: RequestVote_def Let_def split: if_splits)
  then show ?thesis
    using False assms(1) step_down_ok [OF assms(1)] by (intro exI [of _ h]) auto
qed

section \<open>The invariant of elections\<close>

text \<open>
  \<open>calls\<close> are the pending vote calls, as candidate, voter and term; \<open>C c T\<close> is the set of voters whose
  replies the election of \<open>c\<close> in term \<open>T\<close> has counted. A call is pending once at most, and a counted
  voter has no pending call, so no vote is counted twice.
\<close>

definition calls :: "'c cluster \<Rightarrow> (int \<times> int \<times> int) multiset" where
  "calls s = image_mset (\<lambda>(c, v, a). (c, v, rv_Term a)) (rv_req s) +
     image_mset (\<lambda>(c, v, a, r). (c, v, rv_Term a)) (rv_rep s)"

definition peer_ids :: "string list \<Rightarrow> int set" where
  "peer_ids ends = {0..<int (length ends)}"

definition call_ok :: "string list \<Rightarrow> 'c cluster \<Rightarrow> int \<Rightarrow> int \<Rightarrow> RequestVoteArgs \<Rightarrow> bool" where
  "call_ok ends s c v a \<longleftrightarrow> rv_CandidateId a = c \<and> c \<in> peer_ids ends \<and> v \<in> peer_ids ends \<and> v \<noteq> c \<and>
     rv_Term a \<le> currentTerm (nodes s c)"

definition supporters :: "string list \<Rightarrow> history \<Rightarrow> int \<Rightarrow> int \<Rightarrow> int set" where
  "supporters ends h c T = {v \<in> peer_ids ends. h v T = Some c}"

definition elected :: "string list \<Rightarrow> history \<Rightarrow> int \<Rightarrow> int \<Rightarrow> bool" where
  "elected ends h c T \<longleftrightarrow> length ends div 2 < card (supporters ends h c T)"

definition messages_ok :: "string list \<Rightarrow> history \<Rightarrow> 'c cluster \<Rightarrow> bool" where
  "messages_ok ends h s \<longleftrightarrow> (\<forall>c v a. (c, v, a) \<in># rv_req s \<longrightarrow> call_ok ends s c v a) \<and>
     (\<forall>c v a r. (c, v, a, r) \<in># rv_rep s \<longrightarrow>
        call_ok ends s c v a \<and> (rvr_VoteGranted r \<longrightarrow> h v (rv_Term a) = Some c)) \<and>
     (\<forall>k. count (calls s) k \<le> 1)"

definition counted_ok :: "string list \<Rightarrow> history \<Rightarrow> (int \<Rightarrow> int \<Rightarrow> int set) \<Rightarrow> 'c cluster \<Rightarrow> bool" where
  "counted_ok ends h C s \<longleftrightarrow> (\<forall>c T v. v \<in> C c T \<longrightarrow>
     v \<in> supporters ends h c T \<and> v \<noteq> c \<and> (c, v, T) \<notin># calls s)"

definition standing_ok :: "string list \<Rightarrow> history \<Rightarrow> (int \<Rightarrow> int \<Rightarrow> int set) \<Rightarrow> (int \<times> int \<Rightarrow> int) \<Rightarrow> int \<Rightarrow> 'c Raft \<Rightarrow> bool" where
  "standing_ok ends h C vs i rf \<longleftrightarrow>
     (state rf = Candidate \<longrightarrow> vs (i, currentTerm rf) = 1 + int (card (C i (currentTerm rf)))) \<and>
     (state rf = Leader \<longrightarrow> elected ends h i (currentTerm rf)) \<and>
     (state rf \<noteq> Follower \<longrightarrow> i \<in> peer_ids ends)"

definition election_inv :: "string list \<Rightarrow> history \<Rightarrow> (int \<Rightarrow> int \<Rightarrow> int set) \<Rightarrow> 'c cluster \<Rightarrow> bool" where
  "election_inv ends h C s \<longleftrightarrow> (\<forall>i. node_ok ends h i (nodes s i)) \<and>
     (\<forall>i. standing_ok ends h C (votes s) i (nodes s i)) \<and> messages_ok ends h s \<and> counted_ok ends h C s"

lemma election_invD:
  assumes "election_inv ends h C s"
  shows "node_ok ends h i (nodes s i)" "standing_ok ends h C (votes s) i (nodes s i)"
    "messages_ok ends h s" "counted_ok ends h C s"
  using assms by (auto simp: election_inv_def)

lemma finite_supporters [simp]: "finite (supporters ends h c T)"
  unfolding supporters_def peer_ids_def by (rule finite_subset [OF _ finite_atLeastLessThan_int]) auto

lemma supporters_mono: "extends i h h' \<Longrightarrow> supporters ends h c T \<subseteq> supporters ends h' c T"
  by (auto simp: supporters_def intro: extends_mono)

lemma elected_mono:
  "extends i h h' \<Longrightarrow> elected ends h c T \<Longrightarrow> elected ends h' c T"
  using card_mono [OF finite_supporters supporters_mono, of i h h' ends c T] by (simp add: elected_def)

lemma node_ok_other: "extends i h h' \<Longrightarrow> j \<noteq> i \<Longrightarrow> node_ok ends h j rf \<Longrightarrow> node_ok ends h' j rf"
  by (simp add: node_ok_def extends_def)

lemma standing_ok_mono:
  "extends i h h' \<Longrightarrow> standing_ok ends h C vs j rf \<Longrightarrow> standing_ok ends h' C vs j rf"
  by (auto simp: standing_ok_def intro: elected_mono)

lemma standing_ok_quiet:
  "quiet rf rf' \<Longrightarrow> standing_ok ends h C vs i rf \<Longrightarrow> standing_ok ends h C vs i rf'"
  by (auto simp: standing_ok_def quiet_def)

lemma counted_ok_mono:
  assumes "counted_ok ends h C s" and "extends i h h'" and "calls s' \<subseteq># calls s"
  shows "counted_ok ends h' C s'"
  using assms(1) supporters_mono [OF assms(2)] mset_subset_eqD [OF assms(3)]
  unfolding counted_ok_def by blast

lemma distinct_count_le: "distinct xs \<Longrightarrow> count (mset xs) k \<le> 1"
  by (simp add: distinct_count_atmost_1)

lemma calls_once: "messages_ok ends h s \<Longrightarrow> count (calls s) k \<le> 1"
  unfolding messages_ok_def by blast

lemma calls_once_mono: "calls s' \<subseteq># calls s \<Longrightarrow> count (calls s) k \<le> 1 \<Longrightarrow> count (calls s') k \<le> 1"
  using mset_subset_eq_count [of "calls s'" "calls s" k] by simp

text \<open>Every step that leaves one peer quiet and adds no call keeps the invariant.\<close>

lemma quiet_step:
  assumes "election_inv ends h C s" and "extends i h h'" and "node_ok ends h' i rf'"
    and "quiet (nodes s i) rf'" and "nodes s' = (nodes s)(i := rf')" and "votes s' = votes s"
    and "calls s' \<subseteq># calls s"
    and "\<And>c v a. (c, v, a) \<in># rv_req s' \<Longrightarrow> (c, v, a) \<in># rv_req s"
    and "\<And>c v a r. (c, v, a, r) \<in># rv_rep s' \<Longrightarrow> (c, v, a, r) \<in># rv_rep s \<or>
      (c, v, a) \<in># rv_req s \<and> (rvr_VoteGranted r \<longrightarrow> h' v (rv_Term a) = Some c)"
  shows "election_inv ends h' C s'"
proof -
  note inv = election_invD [OF assms(1)]
  have call: "call_ok ends s c v a \<Longrightarrow> call_ok ends s' c v a" for c v a
    using assms(4,5) by (auto simp: call_ok_def quiet_def)
  have "node_ok ends h' j (nodes s' j)" for j
    using node_ok_other [OF assms(2) _ inv(1)] assms(3,5) by (cases "j = i") auto
  moreover have "standing_ok ends h' C (votes s') j (nodes s' j)" for j
    using standing_ok_mono [OF assms(2) inv(2) [of j]] standing_ok_quiet [OF assms(4)] assms(5,6)
    by (cases "j = i") auto
  moreover have "messages_ok ends h' s'"
    unfolding messages_ok_def
  proof (intro conjI allI impI)
    fix c v a assume "(c, v, a) \<in># rv_req s'"
    with assms(8) inv(3) show "call_ok ends s' c v a"
      by (intro call) (auto simp: messages_ok_def)
  next
    fix c v a r assume "(c, v, a, r) \<in># rv_rep s'"
    note r = assms(9) [OF this] and inv(3) [unfolded messages_ok_def]
    then show "call_ok ends s' c v a" by (intro call) auto
    show "h' v (rv_Term a) = Some c" if "rvr_VoteGranted r"
      using r inv(3) that extends_mono [OF assms(2)] by (auto simp: messages_ok_def)
  next
    fix k
    have "count (calls s) k \<le> 1" by (rule calls_once [OF inv(3)])
    then show "count (calls s') k \<le> 1" by (rule calls_once_mono [OF assms(7)])
  qed
  moreover have "counted_ok ends h' C s'"
    by (rule counted_ok_mono [OF inv(4) assms(2,7)])
  ultimately show ?thesis by (simp add: election_inv_def)
qed

lemma calls_deliver:
  assumes "(c, v, a) \<in># rv_req s" and "rv_req s' = rv_req s - {#(c, v, a)#}"
    and "rv_rep s' = add_mset (c, v, a, r) (rv_rep s)"
  shows "calls s' = calls s"
  using multi_member_split [OF assms(1)] assms(2,3) by (auto simp: calls_def)

lemma calls_less:
  assumes "rv_req s' \<subseteq># rv_req s" and "rv_rep s' \<subseteq># rv_rep s"
  shows "calls s' \<subseteq># calls s"
  unfolding calls_def using assms by (intro subset_mset.add_mono image_mset_subseteq_mono)

lemma calls_answered:
  assumes "(c, v, a, r) \<in># rv_rep s" and "rv_req s' = rv_req s" and "rv_rep s' = rv_rep s - {#(c, v, a, r)#}"
  shows "calls s = add_mset (c, v, rv_Term a) (calls s')"
  using multi_member_split [OF assms(1)] assms(2,3) by (auto simp: calls_def)

lemma quiet_step_less:
  assumes "election_inv ends h C s" and "node_ok ends h i rf' \<and> quiet (nodes s i) rf'"
    and "nodes s' = (nodes s)(i := rf')" and "votes s' = votes s"
    and "rv_req s' \<subseteq># rv_req s" and "rv_rep s' \<subseteq># rv_rep s"
  shows "election_inv ends h C s'"
proof (rule quiet_step [OF assms(1) extends_refl])
  show "node_ok ends h i rf'" "quiet (nodes s i) rf'" using assms(2) by auto
  show "calls s' \<subseteq># calls s" by (rule calls_less [OF assms(5,6)])
  show "(c, v, a) \<in># rv_req s" if "(c, v, a) \<in># rv_req s'" for c v a
    using that by (rule mset_subset_eqD [OF assms(5)])
  show "(c, v, a, r) \<in># rv_rep s \<or> (c, v, a) \<in># rv_req s \<and> (rvr_VoteGranted r \<longrightarrow> h v (rv_Term a) = Some c)"
    if "(c, v, a, r) \<in># rv_rep s'" for c v a r
    using mset_subset_eqD [OF assms(6) that] by blast
qed (rule assms)+

section \<open>Elections and their replies\<close>

lemma node_ok_elect:
  assumes "node_ok ends h i rf" and "0 \<le> i"
    and "rf' = rf\<lparr>state := Candidate, currentTerm := currentTerm rf + 1, votedFor := me rf\<rparr>"
  shows "node_ok ends (h(i := (h i)(currentTerm rf + 1 \<mapsto> i))) i rf'"
    "extends i h (h(i := (h i)(currentTerm rf + 1 \<mapsto> i)))"
  using assms by (auto simp: node_ok_def extends_def)

lemma other_peers_set:
  "node_ok ends h i rf \<Longrightarrow> set (other_peers rf) = peer_ids ends - {i}"
  by (auto simp: node_ok_def other_peers_def peer_ids_def image_iff nat_less_iff
      intro!: bexI [where x = "nat x" for x])

lemma other_peers_distinct: "distinct (other_peers rf)"
  by (simp add: other_peers_def distinct_map)

lemma Election_fires:
  assumes "state (nodes s i) \<noteq> Leader" and "electionTimeout r \<le> now - clock s i"
    and "me (nodes s i) = i"
    and "rf' = (nodes s i)\<lparr>state := Candidate, currentTerm := currentTerm (nodes s i) + 1, votedFor := i\<rparr>"
    and "s' = Election_act i now now' r s"
  shows "\<exists>a. rv_Term a = currentTerm rf' \<and> rv_CandidateId a = i \<and> nodes s' = (nodes s)(i := rf') \<and>
    votes s' = (votes s)((i, currentTerm rf') := 1) \<and>
    rv_req s' = rv_req s + mset (map (\<lambda>j. (i, j, a)) (other_peers rf')) \<and> rv_rep s' = rv_rep s"
proof -
  obtain li lt where ll: "lastLog rf' = (li, lt)" by force
  show ?thesis
    using assms ll
    by (intro exI [of _ "\<lparr>rv_Term = currentTerm rf', rv_CandidateId = i, rv_LastLogIndex = li, rv_LastLogTerm = lt\<rparr>"])
      (auto simp: Election_act_def ticker_election_def Let_def persist_def requestVotes_def
        multiset.map_comp o_def)
qed

lemma calls_fresh:
  assumes "messages_ok ends h s" and "(i, v, T) \<in># calls s"
  shows "T \<le> currentTerm (nodes s i)"
  using assms by (force simp: calls_def messages_ok_def call_ok_def)

lemma Election_messages:
  assumes "messages_ok ends h s" and "extends i h h'" and "node_ok ends h' i rf'" and "i \<in> peer_ids ends"
    and "rv_Term a = currentTerm rf'" and "rv_CandidateId a = i"
    and "currentTerm rf' = currentTerm (nodes s i) + 1" and "nodes s' = (nodes s)(i := rf')"
    and "rv_req s' = rv_req s + mset (map (\<lambda>j. (i, j, a)) (other_peers rf'))" and "rv_rep s' = rv_rep s"
  shows "messages_ok ends h' s'"
    and "calls s' = calls s + mset (map (\<lambda>j. (i, j, currentTerm rf')) (other_peers rf'))"
proof -
  let ?new = "map (\<lambda>j. (i, j, currentTerm rf')) (other_peers rf')"
  show c: "calls s' = calls s + mset ?new"
    using assms(5,9,10) by (simp add: calls_def multiset.map_comp o_def)
  have call: "call_ok ends s c v b \<Longrightarrow> call_ok ends s' c v b" for c v b
    using assms(7,8) by (auto simp: call_ok_def)
  have "call_ok ends s' i j a" if "j \<in> set (other_peers rf')" for j
    using that assms(4-6,8) other_peers_set [OF assms(3)] by (auto simp: call_ok_def)
  then have "call_ok ends s' c v b" if "(c, v, b) \<in># rv_req s'" for c v b
    using that assms(1,9) call by (auto simp: messages_ok_def)
  moreover have "call_ok ends s' c v b \<and> (rvr_VoteGranted r \<longrightarrow> h' v (rv_Term b) = Some c)"
    if "(c, v, b, r) \<in># rv_rep s'" for c v b r
    using that assms(1,10) call extends_mono [OF assms(2)] by (auto simp: messages_ok_def)
  moreover have "count (calls s') k \<le> 1" for k
  proof (cases "k \<in> set ?new")
    case True
    then have "count (calls s) k = 0"
      using calls_fresh [OF assms(1)] assms(7) by (fastforce simp: count_eq_zero_iff)
    have "distinct ?new"
      using other_peers_distinct [of rf'] by (simp add: distinct_map inj_on_def)
    then have "count (mset ?new) k \<le> 1"
      by (rule distinct_count_le)
    with \<open>count (calls s) k = 0\<close> show ?thesis using c by (simp del: mset_map)
  next
    case False
    then have "count (mset ?new) k = 0" by (simp only: count_mset_0_iff not_False_eq_True)
    moreover have "count (calls s) k \<le> 1" using assms(1) unfolding messages_ok_def by blast
    ultimately show ?thesis unfolding c count_union by linarith
  qed
  ultimately show "messages_ok ends h' s'" unfolding messages_ok_def by blast
qed

lemma Election_inv:
  assumes "election_inv ends h C s" and "i \<in> peer_ids ends"
  shows "\<exists>h' C'. extends i h h' \<and> election_inv ends h' C' (Election_act i now now' r s)"
proof (cases "state (nodes s i) \<noteq> Leader \<and> electionTimeout r \<le> now - clock s i")
  case False
  then have "election_inv ends h C (Election_act i now now' r s)"
    using election_invD(1) [OF assms(1), of i]
    by (intro quiet_step_less [OF assms(1), of i "nodes s i"])
      (auto simp: Election_act_def ticker_election_def)
  then show ?thesis by (intro exI [of _ h] exI [of _ C]) simp
next
  case True
  define T where "T = currentTerm (nodes s i) + 1"
  let ?h = "h(i := (h i)(T \<mapsto> i))" and ?C = "C(i := (C i)(T := {}))" and ?s = "Election_act i now now' r s"
  note inv = election_invD [OF assms(1)]
  have me: "me (nodes s i) = i" using inv(1) [of i] by (simp add: node_ok_def)
  define rf' where "rf' = (nodes s i)\<lparr>state := Candidate, currentTerm := T, votedFor := i\<rparr>"
  have ok: "node_ok ends ?h i rf'" "extends i h ?h"
    using node_ok_elect [OF inv(1), of i rf'] assms(2) me by (simp_all add: rf'_def T_def peer_ids_def)
  have T: "currentTerm rf' = T" by (simp add: rf'_def)
  from Election_fires [of s i r now rf' ?s] True me obtain a where
    a: "rv_Term a = currentTerm rf'" "rv_CandidateId a = i"
    and s: "nodes ?s = (nodes s)(i := rf')" "votes ?s = (votes s)((i, T) := 1)"
    "rv_req ?s = rv_req s + mset (map (\<lambda>j. (i, j, a)) (other_peers rf'))" "rv_rep ?s = rv_rep s"
    by (auto simp: rf'_def T_def)
  note m = Election_messages [OF inv(3) ok(2,1) assms(2) a _ s(1,3,4), unfolded T, OF T_def]
  have "node_ok ends ?h j (nodes ?s j)" for j
    using node_ok_other [OF ok(2) _ inv(1)] ok(1) s(1) by (cases "j = i") auto
  moreover have "standing_ok ends ?h ?C (votes ?s) j (nodes ?s j)" for j
    using standing_ok_mono [OF ok(2) inv(2) [of j]] s(1,2) assms(2) T
    by (cases "j = i") (auto simp: standing_ok_def rf'_def)
  moreover have "counted_ok ends ?h ?C ?s"
    using inv(4) supporters_mono [OF ok(2)] m(2) unfolding counted_ok_def
    by (auto split: if_splits) blast+
  ultimately show ?thesis
    using ok(2) m(1) by (auto simp: election_inv_def)
qed

lemma counted_vote:
  assumes "election_inv ends h C s" and "(c, v, a, r) \<in># rv_rep s" and "rvr_VoteGranted r"
    and "rv_req s' = rv_req s" and "rv_rep s' = rv_rep s - {#(c, v, a, r)#}"
    and "T = rv_Term a" and "C' = C(c := (C c)(T := insert v (C c T)))"
  shows "counted_ok ends h C' s'" "card (C' c T) = card (C c T) + 1" "C' c T \<subseteq> supporters ends h c T - {c}"
proof -
  note inv = election_invD [OF assms(1)]
  have call: "call_ok ends s c v a" "h v T = Some c" and once: "count (calls s) k \<le> 1" for k
    using inv(3) assms(2,3,6) unfolding messages_ok_def by blast+
  have split: "calls s = add_mset (c, v, T) (calls s')"
    using calls_answered [OF assms(2,4,5)] assms(6) by simp
  then have gone: "(c, v, T) \<notin># calls s'"
    using once [of "(c, v, T)"] by (simp add: not_in_iff)
  have "v \<notin> C c T"
    using inv(4) split unfolding counted_ok_def by fastforce
  moreover have sub: "C c T \<subseteq> supporters ends h c T - {c}"
    using inv(4) unfolding counted_ok_def by blast
  then have "finite (C c T)" by (rule finite_subset) simp
  ultimately show "card (C' c T) = card (C c T) + 1" using assms(7) by simp
  show sub': "C' c T \<subseteq> supporters ends h c T - {c}"
    using sub call assms(7) by (auto simp: supporters_def call_ok_def)
  show "counted_ok ends h C' s'"
    unfolding counted_ok_def
  proof (intro allI impI)
    fix d U w assume w: "w \<in> C' d U"
    show "w \<in> supporters ends h d U \<and> w \<noteq> d \<and> (d, w, U) \<notin># calls s'"
    proof (cases "d = c \<and> U = T \<and> w = v")
      case True
      then show ?thesis using sub' w gone by blast
    next
      case False
      then have "w \<in> C d U" using w assms(7) by (auto split: if_splits)
      then have "w \<in> supporters ends h d U \<and> w \<noteq> d \<and> (d, w, U) \<notin># calls s"
        using inv(4) unfolding counted_ok_def by blast
      then show ?thesis unfolding split by simp
    qed
  qed
qed

text \<open>A candidate that counts a majority of votes is elected by its supporters.\<close>

lemma majority_elects:
  assumes "c \<in> supporters ends h c T" and "V \<subseteq> supporters ends h c T - {c}"
    and "int (length ends) div 2 < 1 + int (card V)"
  shows "elected ends h c T"
proof -
  have "card (insert c V) \<le> card (supporters ends h c T)"
    using assms(1,2) by (intro card_mono) auto
  moreover have "card (insert c V) = 1 + card V"
    using assms(2) finite_subset [OF assms(2)] by (subst card_insert_disjoint) auto
  ultimately show ?thesis using assms(3) by (simp add: elected_def)
qed

text \<open>Taking a message away, without a change of terms, keeps the messages in order.\<close>

lemma messages_ok_less:
  assumes "messages_ok ends h s" and "\<And>i. currentTerm (nodes s' i) = currentTerm (nodes s i)"
    and "rv_req s' \<subseteq># rv_req s" and "rv_rep s' \<subseteq># rv_rep s"
  shows "messages_ok ends h s'"
proof -
  have "call_ok ends s d w b \<Longrightarrow> call_ok ends s' d w b" for d w b
    using assms(2) by (auto simp: call_ok_def)
  moreover have "count (calls s') q \<le> 1" for q
    using calls_once [OF assms(1)] assms(3,4) by (intro calls_once_mono [OF calls_less, of s' s]) auto
  ultimately show ?thesis
    using assms(1) mset_subset_eqD [OF assms(3)] mset_subset_eqD [OF assms(4)] unfolding messages_ok_def by metis
qed

lemma ReplyVote_granted_inv:
  assumes inv: "election_inv ends h C s" and rep: "(c, v, a, r) \<in># rv_rep s"
    and cand: "state (nodes s c) = Candidate" "currentTerm (nodes s c) = rv_Term a"
      "\<not> rvr_Term r > currentTerm (nodes s c)" "rvr_VoteGranted r"
    and act: "act (ReplyVote c v a r) s = Some s'"
  shows "\<exists>C'. election_inv ends h C' s'"
proof -
  define T where "T = rv_Term a"
  let ?rf = "nodes s c" and ?k = "votes s (c, T) + 1" and ?C = "C(c := (C c)(T := insert v (C c T)))"
  define rf' where "rf' = (if ?k > int (length (peers ?rf)) div 2 then become_leader ?rf else ?rf)"
  note I = election_invD [OF inv]
  have s': "s' = (set_node c rf' s)\<lparr>votes := (votes s)((c, T) := ?k), rv_rep := rv_rep s - {#(c, v, a, r)#}\<rparr>"
    using act rep cand by (auto simp: requestVotes_reply_def rf'_def T_def Let_def split: if_splits)
  then have msgs: "rv_req s' = rv_req s" "rv_rep s' = rv_rep s - {#(c, v, a, r)#}" by simp_all
  note cv = counted_vote [OF inv rep cand(4) msgs T_def refl]
  have same: "currentTerm rf' = T" "me rf' = me ?rf" "peers rf' = peers ?rf" "votedFor rf' = votedFor ?rf"
    using cand(2) by (simp_all add: rf'_def T_def)
  have ok: "node_ok ends h c rf'"
    using I(1) [of c] cand same by (auto simp: node_ok_def T_def rf'_def)
  have self: "c \<in> supporters ends h c T"
    using I(1) [of c] I(2) [of c] cand by (auto simp: node_ok_def standing_ok_def supporters_def T_def)
  have k: "?k = 1 + int (card (?C c T))"
    using I(2) [of c] cand cv(2) by (simp add: standing_ok_def T_def)
  have lead: "elected ends h c T" if "state rf' = Leader"
    using that cand(1) I(1) [of c] k cv(3)
    by (intro majority_elects [OF self, of "?C c T"]) (auto simp: rf'_def node_ok_def split: if_splits)
  have "standing_ok ends h ?C (votes s') j (nodes s' j)" for j
  proof (cases "j = c")
    case True
    then show ?thesis
      using lead k same(1) self by (simp add: standing_ok_def s' supporters_def)
  next
    case False
    then show ?thesis using I(2) [of j] by (simp add: standing_ok_def s')
  qed
  moreover have "node_ok ends h j (nodes s' j)" for j
    using ok I(1) [of j] by (simp add: s')
  moreover have "messages_ok ends h s'"
    using same(1) cand(2) by (intro messages_ok_less [OF I(3)]) (auto simp: s' T_def)
  ultimately have "election_inv ends h ?C s'"
    using cv(1) by (simp add: election_inv_def)
  then show ?thesis by blast
qed

lemma ReplyVote_inv:
  assumes "election_inv ends h C s" and "act (ReplyVote c v a r) s = Some s'"
  shows "\<exists>C'. election_inv ends h C' s'"
proof (cases "state (nodes s c) = Candidate \<and> currentTerm (nodes s c) = rv_Term a \<and>
    \<not> rvr_Term r > currentTerm (nodes s c) \<and> rvr_VoteGranted r")
  case True
  with assms ReplyVote_granted_inv [OF assms(1), of c v a r s'] show ?thesis
    by (auto split: if_splits)
next
  case False
  let ?rf = "fst (requestVotes_reply a r (nodes s c) (votes s (c, rv_Term a)))"
  have r: "requestVotes_reply a r (nodes s c) (votes s (c, rv_Term a)) = (?rf, votes s (c, rv_Term a))"
    "?rf = nodes s c \<or> currentTerm (nodes s c) < rvr_Term r \<and> ?rf = step_down (rvr_Term r) (nodes s c)"
    using False by (auto simp: requestVotes_reply_def persist_def)
  have "election_inv ends h C s'"
  proof (rule quiet_step_less [OF assms(1), where i = c and rf' = ?rf])
    show "node_ok ends h c ?rf \<and> quiet (nodes s c) ?rf"
      using r(2) step_down_ok [OF election_invD(1) [OF assms(1)], of c "rvr_Term r"]
        election_invD(1) [OF assms(1), of c] by auto
  qed (use assms(2) r(1) in \<open>auto split: if_splits prod.splits\<close>)
  then show ?thesis by blast
qed

section \<open>All steps\<close>

definition later :: "history \<Rightarrow> history \<Rightarrow> bool" where
  "later h h' \<longleftrightarrow> (\<forall>v T c. h v T = Some c \<longrightarrow> h' v T = Some c)"

lemma extends_later: "extends i h h' \<Longrightarrow> later h h'"
  using extends_mono unfolding later_def by blast

lemma later_refl [simp]: "later h h"
  by (simp add: later_def)

lemma DeliverVote_inv:
  assumes "election_inv ends h C s" and "act (DeliverVote c v a) s = Some s'"
  shows "\<exists>h'. later h h' \<and> election_inv ends h' C s'"
proof -
  note I = election_invD [OF assms(1)]
  have req: "(c, v, a) \<in># rv_req s" using assms(2) by (auto split: if_splits)
  then have call: "call_ok ends s c v a" using I(3) unfolding messages_ok_def by blast
  obtain rf' r where rv: "RequestVote a (nodes s v) = (rf', r)" by force
  have "rv_CandidateId a \<noteq> -1" using call by (auto simp: call_ok_def peer_ids_def)
  from RequestVote_ok [OF I(1) rv this] obtain h' where
    h': "extends v h h'" "node_ok ends h' v rf'" "quiet (nodes s v) rf'"
      "rvr_VoteGranted r \<longrightarrow> h' v (rv_Term a) = Some (rv_CandidateId a)" by blast
  have s': "s' = (set_node v rf' s)\<lparr>rv_req := rv_req s - {#(c, v, a)#}, rv_rep := add_mset (c, v, a, r) (rv_rep s)\<rparr>"
    using assms(2) req rv by simp
  have "election_inv ends h' C s'"
  proof (rule quiet_step [OF assms(1) h'(1-3)])
    show "calls s' \<subseteq># calls s"
      using calls_deliver [OF req, of s' r] by (simp add: s')
  qed (use s' req h'(4) call in \<open>auto simp: call_ok_def dest: in_diffD\<close>)
  then show ?thesis using extends_later [OF h'(1)] by blast
qed

lemma act_inv:
  assumes inv: "election_inv ends h C s" and act: "act a s = Some s'"
  shows "\<exists>h' C'. later h h' \<and> election_inv ends h' C' s'"
proof -
  note ok = election_invD(1) [OF inv]
  have quiet: "\<exists>h' C'. later h h' \<and> election_inv ends h' C' s'"
    if "node_ok ends h i rf' \<and> quiet (nodes s i) rf'" "nodes s' = (nodes s)(i := rf')" "votes s' = votes s"
      "rv_req s' \<subseteq># rv_req s" "rv_rep s' \<subseteq># rv_rep s" for i rf'
    using quiet_step_less [OF inv that] later_refl by blast
  have idle: "node_ok ends h 0 (nodes s 0) \<and> quiet (nodes s 0) (nodes s 0)"
    using ok by simp
  show ?thesis
  proof (cases a)
    case (Election i now now' r)
    with act ok [of i] have "i \<in> peer_ids ends" "s' = Election_act i now now' r s"
      by (auto simp: node_ok_def peer_ids_def split: if_splits)
    with Election_inv [OF inv] show ?thesis using extends_later by blast
  next
    case (DeliverVote c v args)
    with DeliverVote_inv [OF inv] act show ?thesis by blast
  next
    case (ReplyVote c v args reply)
    with ReplyVote_inv [OF inv] act later_refl show ?thesis by blast
  next
    case (DeliverAppend l v now args)
    obtain rf' r where ae: "AppendEntries now args (nodes s v) = (rf', r)" by force
    from act DeliverAppend ae AppendEntries_ok [OF ok ae] show ?thesis
      by (intro quiet [of v rf']) (auto split: if_splits)
  next
    case (ReplyAppend l v reply)
    with act heartbeat_reply_ok [OF ok, of l reply] show ?thesis
      by (intro quiet [of l "heartbeat_reply reply (nodes s l)"]) (auto split: if_splits)
  next
    case (ClientStart i command)
    with act client_ok(1) [OF ok] show ?thesis by (intro quiet) auto
  next
    case (ClientSnapshot i index bytes)
    with act client_ok(2) [OF ok] show ?thesis by (intro quiet) auto
  next
    case (ClientKill i)
    with act client_ok(3) [OF ok] show ?thesis by (intro quiet) auto
  qed ((rule quiet [OF idle]; use act in \<open>auto simp: Heartbeats_act_def split: if_splits prod.splits\<close>)+)
qed

lemma steps_inv:
  "cluster_steps s s' \<Longrightarrow> election_inv ends h C s \<Longrightarrow> \<exists>h' C'. later h h' \<and> election_inv ends h' C' s'"
proof (induction rule: cluster_steps.induct)
  case (more s s' a s'')
  then obtain h' C' where "later h h'" "election_inv ends h' C' s'" by blast
  moreover from act_inv [OF this(2) more.hyps(2)] obtain h'' C'' where
    "later h' h''" "election_inv ends h'' C'' s''" by blast
  ultimately show ?case unfolding later_def by blast
qed (use later_refl in blast)

lemma init_inv: "election_inv ends (\<lambda>v T. None) (\<lambda>c T. {}) (init_cluster now ends)"
  by (simp add: election_inv_def init_cluster_def node_ok_def standing_ok_def messages_ok_def
      counted_ok_def calls_def Make_def readPersist_def)

lemma elected_later:
  assumes "later h h'" and "elected ends h c T"
  shows "elected ends h' c T"
proof -
  have "supporters ends h c T \<subseteq> supporters ends h' c T"
    using assms(1) by (auto simp: supporters_def later_def)
  then show ?thesis
    using assms(2) card_mono [OF finite_supporters, of "supporters ends h c T" ends h' c T] by (simp add: elected_def)
qed

lemma elected_unique:
  assumes "elected ends h c T" and "elected ends h d T"
  shows "c = d"
proof -
  have nat: "nat ` supporters ends h x T \<subseteq> {..<length ends}"
    "card (nat ` supporters ends h x T) = card (supporters ends h x T)" for x
    by (auto simp: supporters_def peer_ids_def inj_on_def intro!: card_image)
  from majorities_meet [OF nat(1) [of c] nat(1) [of d]] assms
  obtain v w where "v \<in> supporters ends h c T" "w \<in> supporters ends h d T" "nat v = nat w"
    by (force simp: nat(2) elected_def)
  then show ?thesis by (auto simp: supporters_def peer_ids_def eq_nat_nat_iff)
qed

section \<open>Logs and commits\<close>

text \<open>Heartbeats carry no entries, so a log only grows at its own peer, by \<open>Start\<close>.\<close>

definition log_ok :: "'c Raft \<Rightarrow> bool" where
  "log_ok rf \<longleftrightarrow> log_shape (logs rf) \<and> logs rf \<noteq> [] \<and> commitIndex rf = 0 \<and> lastApplied rf = 0"

definition bare :: "'c AppendEntriesArgs \<Rightarrow> bool" where
  "bare args \<longleftrightarrow> ae_PrevLogIndex args = 0 \<and> ae_Entries args = [] \<and> ae_LeaderCommit args = 0"

definition log_inv :: "'c cluster \<Rightarrow> bool" where
  "log_inv s \<longleftrightarrow> (\<forall>i. log_ok (nodes s i)) \<and> (\<forall>l v args. (l, v, args) \<in># ae_req s \<longrightarrow> bare args)"

lemma same_log_ok:
  "log_ok rf \<Longrightarrow> logs rf' = logs rf \<Longrightarrow> commitIndex rf' = commitIndex rf \<Longrightarrow>
   lastApplied rf' = lastApplied rf \<Longrightarrow> log_ok rf'"
  by (simp add: log_ok_def)

lemma handlers_log_ok:
  assumes "log_ok rf"
  shows "log_ok (fst (RequestVote a rf))" "log_ok (fst (ticker_election now now' r t rf))"
    "log_ok (fst (requestVotes_reply a reply rf k))" "log_ok (heartbeat_reply reply' rf)"
    "log_ok (Snapshot index bytes rf)" "log_ok (Kill rf)"
  by (auto intro!: same_log_ok [OF assms] simp: raft_defs split: prod.splits)

lemma AppendEntries_log_ok:
  "log_ok rf \<Longrightarrow> bare args \<Longrightarrow> log_ok (fst (AppendEntries now args rf))"
  by (auto simp: AppendEntries_def log_ok_def bare_def step_down_def Let_def)

lemma Start_log_ok: "log_ok rf \<Longrightarrow> log_ok (fst (Start command rf))"
  using log_shape_next(2) [of "logs rf"] by (auto simp: Start_def log_ok_def persist_def Let_def)

lemma log_inv_put:
  assumes "log_inv s" and "nodes s' = (nodes s)(i := rf)" and "log_ok rf" and "set_mset (ae_req s') \<subseteq> set_mset (ae_req s)"
  shows "log_inv s'"
  using assms by (auto simp: log_inv_def)

lemma client_log_inv:
  assumes "log_inv s" and "act a s = Some s'"
    and "\<exists>i command index bytes. a \<in> {ClientStart i command, ClientSnapshot i index bytes, ClientKill i}"
  shows "log_inv s'"
proof -
  have ok: "log_ok (nodes s i)" for i using assms(1) by (simp add: log_inv_def)
  obtain i rf where "nodes s' = (nodes s)(i := rf)" "log_ok rf" "set_mset (ae_req s') \<subseteq> set_mset (ae_req s)"
    using assms(2,3) Start_log_ok [OF ok] handlers_log_ok(5,6) [OF ok] by (auto split: prod.splits)
  then show ?thesis by (rule log_inv_put [OF assms(1)])
qed

lemma append_log_inv:
  assumes "log_inv s" and "act (DeliverAppend l v now args) s = Some s'"
  shows "log_inv s'"
proof -
  have "log_ok (nodes s v)" "bare args" using assms by (auto simp: log_inv_def split: if_splits)
  then show ?thesis
    using assms(2) AppendEntries_log_ok [of "nodes s v" args now]
    by (intro log_inv_put [OF assms(1), of s' v "fst (AppendEntries now args (nodes s v))"])
      (auto split: if_splits prod.splits dest: in_diffD)
qed

lemma log_inv_step:
  assumes "log_inv s" and "act a s = Some s'"
  shows "log_inv s'"
proof -
  have ok: "log_ok (nodes s i)" for i using assms(1) by (simp add: log_inv_def)
  note put = log_inv_put [OF assms(1), of s']
  show ?thesis
  proof (cases a)
    case (Election i now now' r)
    then show ?thesis
      using assms(2) handlers_log_ok(2) [OF ok, of now now' r "clock s i" i]
      by (intro put [of i "fst (ticker_election now now' r (clock s i) (nodes s i))"])
        (auto simp: Election_act_def split: if_splits prod.splits option.splits)
  next
    case (Heartbeats i now)
    then show ?thesis
      using assms ok [of i]
      by (auto simp: log_inv_def Heartbeats_act_def ticker_heartbeats_def Let_def bare_def log_ok_def split: if_splits)
  next
    case (DeliverVote c v args)
    then show ?thesis
      using assms(2) handlers_log_ok(1) [OF ok, of args v]
      by (intro put [of v "fst (RequestVote args (nodes s v))"]) (auto split: if_splits prod.splits)
  next
    case (ReplyVote c v args reply)
    then show ?thesis
      using assms(2) handlers_log_ok(3) [OF ok, of args reply c "votes s (c, rv_Term args)"]
      by (intro put [of c "fst (requestVotes_reply args reply (nodes s c) (votes s (c, rv_Term args)))"])
        (auto split: if_splits prod.splits)
  next
    case (ReplyAppend l v reply)
    then show ?thesis
      using assms(2) handlers_log_ok(4) [OF ok, of reply l]
      by (intro put [of l "heartbeat_reply reply (nodes s l)"]) (auto split: if_splits)
  next
    case (DeliverAppend l v now args)
    with assms show ?thesis using append_log_inv by blast
  next
    case (LoseAppend l v args)
    with assms show ?thesis by (auto simp: log_inv_def split: if_splits dest!: in_diffD)
  qed (use assms client_log_inv [OF assms] in \<open>auto simp: log_inv_def split: if_splits\<close>)
qed

lemma init_log_inv: "log_inv (init_cluster now ends)"
  by (simp add: log_inv_def init_cluster_def log_ok_def Make_def readPersist_def log_shape_def gm_wf_def)

lemma steps_log_inv: "cluster_steps s s' \<Longrightarrow> log_inv s \<Longrightarrow> log_inv s'"
  by (induction rule: cluster_steps.induct) (auto intro: log_inv_step)

section \<open>A cluster of one\<close>

definition alone_inv :: "string \<Rightarrow> 'c cluster \<Rightarrow> bool" where
  "alone_inv e s \<longleftrightarrow> rv_req s = {#} \<and> rv_rep s = {#} \<and>
     (\<forall>i. me (nodes s i) = i \<and> peers (nodes s i) = [e] \<and> state (nodes s i) \<noteq> Leader)"

lemma alone_step: "alone_inv e s \<Longrightarrow> act a s = Some s' \<Longrightarrow> alone_inv e s'"
proof (cases a)
  case (Election i now now' r)
  assume "alone_inv e s" and "act a s = Some s'"
  moreover have "i = 0" using calculation Election by (auto simp: alone_inv_def split: if_splits)
  ultimately show ?thesis
    using Election
    by (auto simp: other_peers_def alone_inv_def Election_act_def ticker_election_def requestVotes_def persist_def Let_def
        split: if_splits prod.splits)
qed (auto simp: alone_inv_def Heartbeats_act_def raft_defs split: if_splits prod.splits)

lemma alone_init: "alone_inv e (init_cluster now [e])"
  by (simp add: alone_inv_def init_cluster_def Make_def readPersist_def)

lemma alone_steps: "cluster_steps s s' \<Longrightarrow> alone_inv e s \<Longrightarrow> alone_inv e s'"
  by (induction rule: cluster_steps.induct) (auto intro: alone_step)

lemma one_leader_per_term:
  assumes "cluster_steps (init_cluster now ends) s" and "cluster_steps s s'"
    and "state (nodes s i) = Leader" and "state (nodes s' j) = Leader"
    and "currentTerm (nodes s i) = currentTerm (nodes s' j)"
  shows "i = j"
proof -
  from steps_inv [OF assms(1) init_inv] obtain h C where inv: "election_inv ends h C s" by blast
  from steps_inv [OF assms(2) inv] obtain h' C' where l: "later h h'" "election_inv ends h' C' s'" by blast
  have "elected ends h i (currentTerm (nodes s i))"
    using election_invD(2) [OF inv, of i] assms(3) by (simp add: standing_ok_def)
  moreover have "elected ends h' j (currentTerm (nodes s i))"
    using election_invD(2) [OF l(2), of j] assms(4,5) by (simp add: standing_ok_def)
  ultimately show ?thesis
    using elected_unique elected_later [OF l(1)] by blast
qed

lemma act_term_mono: "act a s = Some s' \<Longrightarrow> currentTerm (nodes s i) \<le> currentTerm (nodes s' i)"
  by (cases a) (auto simp: Election_act_def Heartbeats_act_def raft_defs Let_def split: if_splits prod.splits option.splits)

lemma steps_term_mono: "cluster_steps s s' \<Longrightarrow> currentTerm (nodes s i) \<le> currentTerm (nodes s' i)"
  by (induction rule: cluster_steps.induct) (auto dest: act_term_mono intro: order_trans)

section \<open>Properties\<close>

text \<open>
  C1: election safety. In every execution without restarts, whatever is delayed, reordered or lost,
  at most one peer is ever leader in a term: if a peer is leader in some state of the execution and
  a peer is leader in the same term in the same or a later state, they are the same peer.
\<close>

theorem election_safety:
  assumes "cluster_steps (init_cluster now ends) s" and "cluster_steps s s'"
    and "state (nodes s i) = Leader" and "state (nodes s' j) = Leader"
    and "currentTerm (nodes s i) = currentTerm (nodes s' j)"
  shows "i = j"
  using assms by (rule one_leader_per_term)

text \<open>An execution of three peers in which peer 0 asks peer 1 and is elected in term 1.\<close>

definition vote_args :: "int \<Rightarrow> RequestVoteArgs" where
  "vote_args c = \<lparr>rv_Term = 1, rv_CandidateId = c, rv_LastLogIndex = 1, rv_LastLogTerm = 0\<rparr>"

definition vote_granted :: RequestVoteReply where
  "vote_granted = \<lparr>rvr_Term = 1, rvr_VoteGranted = True\<rparr>"

definition elect_acts :: "int \<Rightarrow> nat action list" where
  "elect_acts c = [Election c 1000000000 1000000000 0, DeliverVote c 1 (vote_args c),
     ReplyVote c 1 (vote_args c) vote_granted]"

lemmas trace_defs = init_cluster_def Election_act_def ticker_election_def
  electionTimeout_def millisecond_def Make_def readPersist_def killed_def lastLog_def persist_def
  requestVotes_def other_peers_def vote_args_def vote_granted_def RequestVote_def step_down_def
  isLogUpToDate_def requestVotes_reply_def restart_def Persister_Copy_def Let_def upt_rec

lemma elect_acts_leader:
  "\<exists>s. acts (elect_acts 0) (init_cluster 0 [''a'', ''b'', ''c'']) = Some s \<and>
     state (nodes s 0) = Leader \<and> currentTerm (nodes s 0) = 1"
  by (simp add: elect_acts_def trace_defs)

theorem election_safety_witness:
  "\<exists>s :: nat cluster. cluster_steps (init_cluster 0 [''a'', ''b'', ''c'']) s \<and>
     state (nodes s 0) = Leader \<and> currentTerm (nodes s 0) = 1 \<and>
     (\<forall>s' j. cluster_steps s s' \<and> state (nodes s' j) = Leader \<and> currentTerm (nodes s' j) = 1 \<longrightarrow> 0 = j)"
proof -
  obtain s :: "nat cluster" where s: "cluster_steps (init_cluster 0 [''a'', ''b'', ''c'']) s"
    "state (nodes s 0) = Leader" "currentTerm (nodes s 0) = 1"
    using elect_acts_leader acts_steps by blast
  then show ?thesis
    using election_safety [OF s(1) _ s(2)] by (intro exI [of _ s]) auto
qed

text \<open>
  C2: \<open>persist\<close> being empty, restarts break election safety. There is an execution of three peers in
  which peer 0 is elected in term 1 by the vote of peer 1, peer 1 crashes and restarts from its
  persister, and then votes again in term 1, for peer 2: peers 0 and 2 are both leaders in term 1.
\<close>

theorem restart_breaks_election_safety:
  "\<exists>(s :: nat cluster) s'. cluster_steps (init_cluster 0 [''a'', ''b'', ''c'']) s \<and>
     state (nodes s 0) = Leader \<and> currentTerm (nodes s 0) = 1 \<and>
     cluster_steps (restart 1 1000000000 s) s' \<and>
     state (nodes s' 0) = Leader \<and> currentTerm (nodes s' 0) = 1 \<and>
     state (nodes s' 2) = Leader \<and> currentTerm (nodes s' 2) = 1"
proof -
  have "\<exists>s s'. acts (elect_acts 0) (init_cluster 0 [''a'', ''b'', ''c'']) = Some s \<and>
     state (nodes s 0) = Leader \<and> currentTerm (nodes s 0) = 1 \<and>
     acts (elect_acts 2) (restart 1 1000000000 s) = Some s' \<and>
     state (nodes s' 0) = Leader \<and> currentTerm (nodes s' 0) = 1 \<and>
     state (nodes s' 2) = Leader \<and> currentTerm (nodes s' 2) = 1"
    by (simp add: elect_acts_def trace_defs)
  then show ?thesis using acts_steps by blast
qed

text \<open>
  C5: logs and commits. In every reachable state every peer's log has distinct indexes, the sentinel
  0 and entries exactly at 2 up to the number of entries, so that \<open>len(logs)\<close>, the index that
  elections advertise, is the index of the last entry; and no peer has committed or applied
  anything: leaders send heartbeats only, and no entry is ever replicated.
\<close>

theorem logs_and_commits:
  assumes "cluster_steps (init_cluster now ends) s"
  shows "distinct (map fst (logs (nodes s i))) \<and>
    fst ` set (logs (nodes s i)) = insert 0 {2..int (length (logs (nodes s i)))} \<and>
    fst (lastLog (nodes s i)) = int (length (logs (nodes s i))) \<and>
    commitIndex (nodes s i) = 0 \<and> lastApplied (nodes s i) = 0"
  using steps_log_inv [OF assms init_log_inv]
  by (auto simp: log_inv_def log_ok_def log_shape_def gm_wf_def lastLog_def Let_def)

theorem logs_and_commits_witness:
  "\<exists>s :: nat cluster. cluster_steps (init_cluster 0 [''a'', ''b'', ''c'']) s \<and>
     state (nodes s 0) = Leader \<and> commitIndex (nodes s 0) = 0"
proof -
  obtain s :: "nat cluster" where s: "cluster_steps (init_cluster 0 [''a'', ''b'', ''c'']) s"
    "state (nodes s 0) = Leader"
    using elect_acts_leader acts_steps by blast
  with logs_and_commits [OF s(1), of 0] show ?thesis by blast
qed

text \<open>
  A cluster of one peer never has a leader. The majority test is made only when a reply
  arrives, and a single peer sends no request: its own vote, which is a majority, is never looked
  at, and every election it starts stays open.
\<close>

lemma single_peer_never_leader:
  assumes "cluster_steps (init_cluster now [e]) s"
  shows "state (nodes s i) \<noteq> Leader"
  using alone_steps [OF assms alone_init] by (simp add: alone_inv_def)

end
