(* ===== verification/RaftTest.thy ===== *)
theory RaftTest
  imports Raft
begin

text \<open>
  The checkers that the Raft tests run (\<open>raft1/server.go\<close> and \<open>raft1/test.go\<close>): a test server reads what
  its Raft peer applies, compares it with what every other server has seen at that index, makes and
  ingests snapshots; the test asks the peers for leaders and terms. A command is an \<open>any\<close>, \<open>None\<close> being
  nil. An error text is a value with the numbers it prints. The gob codec of a snapshot is an argument.
  \<open>log.Fatalf\<close> and \<open>Fatalf\<close> of the test are \<open>Fatal\<close>.
\<close>

section \<open>State\<close>

type_synonym 'c any = "'c option"

record 'c ApplyMsg =
  CommandValid :: bool
  Command :: "'c any"
  CommandIndex :: int
  SnapshotValid :: bool
  msg_Snapshot :: "8 word list option"
  SnapshotTerm :: int
  SnapshotIndex :: int

datatype err_msg = NoError | CommitMismatch int int int | OutOfOrder int int | UnexpectedIndex int int int
  | SnapshotMismatch int

record 'c rfsrv =
  rs_me :: int
  rs_applyErr :: err_msg
  rs_lastApplied :: int
  rs_persister :: "Persister option"
  rs_raft :: "'c Raft option"
  rs_logs :: "(int, 'c any) gomap"

record 'c raft_test =
  rt_srvs :: "'c rfsrv option list"
  rt_maxIndex :: int
  rt_snapshot :: bool
  rt_finished :: bool

definition SnapShotInterval :: int where
  "SnapShotInterval = 10"

section \<open>Test servers\<close>

fun logs_of :: "int \<Rightarrow> 'c any list \<Rightarrow> (int, 'c any) gomap \<Rightarrow> (int, 'c any) gomap" where
  "logs_of j [] m = m"
| "logs_of j (v # vs) m = logs_of (j + 1) vs (AList.update j v m)"

definition ingestSnap ::
  "(8 word list \<Rightarrow> (int \<times> 'c any list) option) \<Rightarrow> 8 word list option \<Rightarrow> int \<Rightarrow> 'c rfsrv \<Rightarrow> (err_msg \<times> 'c rfsrv) go" where
  "ingestSnap dec sn index rs =
     (case sn of
        None \<Rightarrow> Fatal
      | Some bytes \<Rightarrow>
          (case dec bytes of
             None \<Rightarrow> Fatal
           | Some (lastIncludedIndex, xlog) \<Rightarrow>
               if index \<noteq> -1 \<and> index \<noteq> lastIncludedIndex then Ret (SnapshotMismatch (rs_me rs), rs)
               else Ret (NoError, rs\<lparr>rs_logs := logs_of 0 xlog [], rs_lastApplied := lastIncludedIndex\<rparr>)))"

definition newRfsrv ::
  "bool \<Rightarrow> (8 word list \<Rightarrow> (int \<times> 'c any list) option) \<Rightarrow> int \<Rightarrow> int \<Rightarrow> string list \<Rightarrow> Persister \<Rightarrow> bool \<Rightarrow> 'c rfsrv go" where
  "newRfsrv useRaftStateMachine dec now srv ends ps snap =
     (let s = \<lparr>rs_me = srv, rs_applyErr = NoError, rs_lastApplied = 0, rs_persister = Some ps,
               rs_raft = None, rs_logs = []\<rparr>;
          s = (if \<not> useRaftStateMachine then s\<lparr>rs_raft := Some (Make now ends srv ps)\<rparr> else s)
      in if snap
         then let sn = ReadSnapshot ps
              in if length sn > 0
                 then go_bind (ingestSnap dec (Some sn) (-1) s) (\<lambda>(err, s). if err \<noteq> NoError then Fatal else Ret s)
                 else Ret s
         else Ret s)"

definition rfsrv_Kill :: "'c rfsrv \<Rightarrow> 'c rfsrv" where
  "rfsrv_Kill rs =
     (let rs = rs\<lparr>rs_raft := None\<rparr>
      in case rs_persister rs of
           Some ps \<Rightarrow> rs\<lparr>rs_persister := Some (Save (ReadRaftState ps) (ReadSnapshot ps) ps)\<rparr>
         | None \<Rightarrow> rs)"

definition rfsrv_GetState :: "'c rfsrv \<Rightarrow> (int \<times> bool) go" where
  "rfsrv_GetState rs = (case rs_raft rs of Some rf \<Rightarrow> Ret (GetState rf) | None \<Rightarrow> Panic)"

definition Logs :: "int \<Rightarrow> 'c rfsrv \<Rightarrow> 'c any option" where
  "Logs i rs = map_of (rs_logs rs) i"

section \<open>Comparing what was applied\<close>

text \<open>The loop of \<open>checkLogs\<close> over all servers; the last mismatch found is the one reported.\<close>

fun check_all :: "int \<Rightarrow> 'c ApplyMsg \<Rightarrow> int \<Rightarrow> 'c rfsrv option list \<Rightarrow> err_msg \<Rightarrow> err_msg go" where
  "check_all i m j [] err = Ret err"
| "check_all i m j (s # ss) err =
     (case s of
        None \<Rightarrow> Panic
      | Some rs \<Rightarrow>
          check_all i m (j + 1) ss
            (case Logs (CommandIndex m) rs of
               Some old \<Rightarrow> if old \<noteq> Command m then CommitMismatch (CommandIndex m) i j else err
             | None \<Rightarrow> err))"

definition checkLogs :: "int \<Rightarrow> 'c ApplyMsg \<Rightarrow> 'c raft_test \<Rightarrow> (err_msg \<times> bool \<times> 'c raft_test) go" where
  "checkLogs i m ts =
     go_bind (idx (rt_srvs ts) i) (\<lambda>mine.
       go_bind (check_all i m 0 (rt_srvs ts) NoError) (\<lambda>err.
         case mine of
           None \<Rightarrow> Panic
         | Some mine \<Rightarrow>
             let prevok = (map_of (rs_logs mine) (CommandIndex m - 1) \<noteq> None);
                 mine = mine\<lparr>rs_logs := AList.update (CommandIndex m) (Command m) (rs_logs mine)\<rparr>;
                 ts = ts\<lparr>rt_srvs := (rt_srvs ts)[nat i := Some mine]\<rparr>;
                 ts = (if CommandIndex m > rt_maxIndex ts then ts\<lparr>rt_maxIndex := CommandIndex m\<rparr> else ts)
             in Ret (err, prevok, ts)))"

definition applier_msg :: "int \<Rightarrow> 'c ApplyMsg \<Rightarrow> 'c raft_test \<Rightarrow> 'c raft_test go" where
  "applier_msg i m ts =
     (if CommandValid m = False then Ret ts
      else go_bind (checkLogs i m ts) (\<lambda>(err, prevok, ts).
        let err = (if CommandIndex m > 1 \<and> prevok = False then OutOfOrder i (CommandIndex m) else err)
        in if err \<noteq> NoError then Fatal else Ret ts))"

fun applier :: "int \<Rightarrow> 'c ApplyMsg list \<Rightarrow> 'c raft_test \<Rightarrow> 'c raft_test go" where
  "applier i [] ts = Ret ts"
| "applier i (m # ms) ts = go_bind (applier_msg i m ts) (applier i ms)"

definition xlog_of :: "int \<Rightarrow> (int, 'c any) gomap \<Rightarrow> 'c any list" where
  "xlog_of index m = map (\<lambda>j. case map_of m (int j) of Some v \<Rightarrow> v | None \<Rightarrow> None) [0..<nat (index + 1)]"

text \<open>
  One message of \<open>applierSnap\<close>: the reader \<open>rs\<close> is the current server \<open>i\<close> of the test. The snapshot is
  handed to Raft before a failed check ends the process.
\<close>

definition applierSnap_msg ::
  "(int \<Rightarrow> 'c any list \<Rightarrow> 8 word list) \<Rightarrow> (8 word list \<Rightarrow> (int \<times> 'c any list) option) \<Rightarrow> int \<Rightarrow> 'c ApplyMsg \<Rightarrow>
   'c raft_test \<Rightarrow> 'c raft_test go" where
  "applierSnap_msg enc dec i m ts =
     go_bind (idx (rt_srvs ts) i) (\<lambda>s.
       case s of
         None \<Rightarrow> Panic
       | Some rs \<Rightarrow>
           if SnapshotValid m
           then go_bind (ingestSnap dec (msg_Snapshot m) (SnapshotIndex m) rs) (\<lambda>(err, rs).
                  if err \<noteq> NoError then Fatal else Ret (ts\<lparr>rt_srvs := (rt_srvs ts)[nat i := Some rs]\<rparr>))
           else if CommandValid m
           then go_bind
                 (if CommandIndex m \<noteq> rs_lastApplied rs + 1
                  then Ret (UnexpectedIndex i (rs_lastApplied rs + 1) (CommandIndex m), ts)
                  else go_bind (checkLogs i m ts) (\<lambda>(err, prevok, ts).
                    Ret (if CommandIndex m > 1 \<and> prevok = False then OutOfOrder i (CommandIndex m) else err, ts)))
                 (\<lambda>(err, ts).
                    case rt_srvs ts ! nat i of
                      None \<Rightarrow> Panic
                    | Some rs \<Rightarrow>
                        let rs = rs\<lparr>rs_lastApplied := CommandIndex m\<rparr>
                        in go_bind
                             (if (CommandIndex m + 1) mod SnapShotInterval = 0
                              then (case rs_raft rs of
                                      None \<Rightarrow> Panic
                                    | Some rf \<Rightarrow> Ret (rs\<lparr>rs_raft := Some (Snapshot (CommandIndex m)
                                        (enc (CommandIndex m) (xlog_of (CommandIndex m) (rs_logs rs))) rf)\<rparr>))
                              else Ret rs)
                             (\<lambda>rs. if err \<noteq> NoError then Fatal
                                   else Ret (ts\<lparr>rt_srvs := (rt_srvs ts)[nat i := Some rs]\<rparr>)))
           else Ret ts)"

fun applierSnap_loop ::
  "(int \<Rightarrow> 'c any list \<Rightarrow> 8 word list) \<Rightarrow> (8 word list \<Rightarrow> (int \<times> 'c any list) option) \<Rightarrow> int \<Rightarrow> 'c ApplyMsg list \<Rightarrow>
   'c raft_test \<Rightarrow> 'c raft_test go" where
  "applierSnap_loop enc dec i [] ts = Ret ts"
| "applierSnap_loop enc dec i (m # ms) ts = go_bind (applierSnap_msg enc dec i m ts) (applierSnap_loop enc dec i ms)"

definition applierSnap ::
  "(int \<Rightarrow> 'c any list \<Rightarrow> 8 word list) \<Rightarrow> (8 word list \<Rightarrow> (int \<times> 'c any list) option) \<Rightarrow> int \<Rightarrow> 'c ApplyMsg list \<Rightarrow>
   'c raft_test \<Rightarrow> 'c raft_test go" where
  "applierSnap enc dec i ms ts =
     go_bind (idx (rt_srvs ts) i) (\<lambda>s.
       case s of
         None \<Rightarrow> Panic
       | Some rs \<Rightarrow> if rs_raft rs = None then Ret ts else applierSnap_loop enc dec i ms ts)"

section \<open>The test\<close>

definition makeTest :: "nat \<Rightarrow> bool \<Rightarrow> 'c raft_test" where
  "makeTest n snap = \<lparr>rt_srvs = replicate n None, rt_maxIndex = 0, rt_snapshot = snap, rt_finished = False\<rparr>"

definition mksrv ::
  "bool \<Rightarrow> (8 word list \<Rightarrow> (int \<times> 'c any list) option) \<Rightarrow> int \<Rightarrow> string list \<Rightarrow> int \<Rightarrow> Persister \<Rightarrow> 'c raft_test \<Rightarrow> 'c raft_test go" where
  "mksrv useRaftStateMachine dec now ends srv ps ts =
     go_bind (newRfsrv useRaftStateMachine dec now srv ends ps (rt_snapshot ts)) (\<lambda>s.
       go_bind (set_idx (rt_srvs ts) srv (Some s)) (\<lambda>ss. Ret (ts\<lparr>rt_srvs := ss\<rparr>)))"

definition rt_cleanup :: "'c raft_test \<Rightarrow> 'c raft_test" where
  "rt_cleanup ts = ts\<lparr>rt_finished := True\<rparr>"

definition checkFinished :: "'c raft_test \<Rightarrow> bool" where
  "checkFinished ts = rt_finished ts"

text \<open>
  The checks that ask every connected server for its state get the answers in the order of the
  servers: \<open>None\<close> for a server that is not connected, else its term and whether it is leader.
\<close>

type_synonym observation = "(int \<times> bool) option list"

fun collect_leaders :: "int \<Rightarrow> observation \<Rightarrow> (int, int list) gomap \<Rightarrow> (int, int list) gomap" where
  "collect_leaders i [] leaders = leaders"
| "collect_leaders i (ob # obs) leaders =
     collect_leaders (i + 1) obs
       (case ob of
          Some (term, True) \<Rightarrow> AList.update term ((case map_of leaders term of Some is \<Rightarrow> is | None \<Rightarrow> []) @ [i]) leaders
        | _ \<Rightarrow> leaders)"

fun last_term :: "int \<Rightarrow> (int \<times> int list) list \<Rightarrow> int go" where
  "last_term t [] = Ret t"
| "last_term t ((term, is) # ls) =
     (if length is > 1 then Fatal else last_term (if term > t then term else t) ls)"

text \<open>One round: \<open>Ret None\<close> when nobody is leader and the check sleeps and tries again.\<close>

definition checkOneLeader_round :: "observation \<Rightarrow> int option go" where
  "checkOneLeader_round obs =
     (let leaders = collect_leaders 0 obs []
      in go_bind (last_term (-1) leaders) (\<lambda>lastTermWithLeader.
           if length leaders \<noteq> 0
           then (case map_of leaders lastTermWithLeader of
                   Some (i # is) \<Rightarrow> Ret (Some i)
                 | _ \<Rightarrow> Panic)
           else Ret None))"

fun checkOneLeader_loop :: "observation list \<Rightarrow> int go" where
  "checkOneLeader_loop [] = Fatal"
| "checkOneLeader_loop (obs # rest) =
     go_bind (checkOneLeader_round obs) (\<lambda>r. case r of Some i \<Rightarrow> Ret i | None \<Rightarrow> checkOneLeader_loop rest)"

definition checkOneLeader :: "(nat \<Rightarrow> observation) \<Rightarrow> int go" where
  "checkOneLeader rounds = checkOneLeader_loop (map rounds [0..<10])"

fun checkTerms_loop :: "int \<Rightarrow> observation \<Rightarrow> int go" where
  "checkTerms_loop term [] = Ret term"
| "checkTerms_loop term (ob # obs) =
     (case ob of
        Some (xterm, _) \<Rightarrow>
          if term = -1 then checkTerms_loop xterm obs
          else if term \<noteq> xterm then Fatal else checkTerms_loop term obs
      | None \<Rightarrow> checkTerms_loop term obs)"

definition checkTerms :: "observation \<Rightarrow> int go" where
  "checkTerms obs = checkTerms_loop (-1) obs"

definition checkNoLeader :: "observation \<Rightarrow> unit go" where
  "checkNoLeader obs = (if \<exists>ob \<in> set obs. (case ob of Some (_, is_leader) \<Rightarrow> is_leader | None \<Rightarrow> False) then Fatal else Ret ())"

fun nCommitted_loop :: "int \<Rightarrow> 'c rfsrv option list \<Rightarrow> int \<Rightarrow> 'c any \<Rightarrow> (int \<times> 'c any) go" where
  "nCommitted_loop index [] count cmd = Ret (count, cmd)"
| "nCommitted_loop index (s # ss) count cmd =
     (case s of
        None \<Rightarrow> Panic
      | Some rs \<Rightarrow>
          if rs_applyErr rs \<noteq> NoError then Fatal
          else (case Logs index rs of
                  Some cmd1 \<Rightarrow>
                    if count > 0 \<and> cmd \<noteq> cmd1 then Fatal else nCommitted_loop index ss (count + 1) cmd1
                | None \<Rightarrow> nCommitted_loop index ss count cmd))"

definition nCommitted :: "int \<Rightarrow> 'c raft_test \<Rightarrow> (int \<times> 'c any) go" where
  "nCommitted index ts = nCommitted_loop index (rt_srvs ts) 0 None"

definition checkNoAgreement :: "int \<Rightarrow> 'c raft_test \<Rightarrow> unit go" where
  "checkNoAgreement index ts = go_bind (nCommitted index ts) (\<lambda>(n, cmd). if n > 0 then Fatal else Ret ())"

section \<open>What the appliers accept\<close>

text \<open>
  A run of a test without snapshots: servers are started and restarted (each incarnation with an empty
  copy of the log), and the appliers read messages, in any order across servers. A run that is not
  stopped by \<open>Fatal\<close> is one that the test accepts so far. \<open>useRaftStateMachine\<close> is false, as no file of the repository
  sets it.
\<close>

datatype 'c rt_event = Applied int "'c ApplyMsg" | Restarted int int "string list" Persister

fun rt_event_step :: "'c rt_event \<Rightarrow> 'c raft_test \<Rightarrow> 'c raft_test go" where
  "rt_event_step (Applied i m) ts = applier_msg i m ts"
| "rt_event_step (Restarted i now ends ps) ts = mksrv False (\<lambda>b. None) now ends i ps ts"

fun rt_run :: "'c rt_event list \<Rightarrow> 'c raft_test \<Rightarrow> 'c raft_test go" where
  "rt_run [] ts = Ret ts"
| "rt_run (e # es) ts = go_bind (rt_event_step e ts) (rt_run es)"

definition matches :: "int \<Rightarrow> 'c any \<Rightarrow> 'c rfsrv option \<Rightarrow> bool" where
  "matches k v s \<longleftrightarrow> (case s of None \<Rightarrow> False | Some rs \<Rightarrow> Logs k rs = None \<or> Logs k rs = Some v)"

lemma check_all_ok:
  "check_all i m j ss err = Ret NoError \<longleftrightarrow> err = NoError \<and> (\<forall>s\<in>set ss. matches (CommandIndex m) (Command m) s)"
  by (induction i m j ss err rule: check_all.induct) (auto simp: matches_def split: option.splits)

definition note_applied :: "int \<Rightarrow> 'c any \<Rightarrow> 'c rfsrv \<Rightarrow> 'c rfsrv" where
  "note_applied k v rs = rs\<lparr>rs_logs := AList.update k v (rs_logs rs)\<rparr>"

lemma applier_msg_ok:
  assumes "CommandValid m"
  shows "applier_msg i m ts = Ret ts' \<longleftrightarrow>
    (\<exists>rs. 0 \<le> i \<and> i < int (length (rt_srvs ts)) \<and> rt_srvs ts ! nat i = Some rs \<and>
       (\<forall>s\<in>set (rt_srvs ts). matches (CommandIndex m) (Command m) s) \<and>
       (CommandIndex m > 1 \<longrightarrow> Logs (CommandIndex m - 1) rs \<noteq> None) \<and>
       ts' = ts\<lparr>rt_srvs := (rt_srvs ts)[nat i := Some (note_applied (CommandIndex m) (Command m) rs)],
               rt_maxIndex := max (rt_maxIndex ts) (CommandIndex m)\<rparr>)"
proof (cases "0 \<le> i \<and> i < int (length (rt_srvs ts))")
  case True
  show ?thesis
  proof (cases "rt_srvs ts ! nat i")
    case None
    have "None \<in> set (rt_srvs ts)" using True None nth_mem [of "nat i" "rt_srvs ts"] by auto
    then show ?thesis
      using None assms True by (auto simp: applier_msg_def checkLogs_def idx_def go_simps matches_def Let_def split: go.splits)
  next
    case (Some rs)
    have "applier_msg i m ts = Ret ts' \<longleftrightarrow> check_all i m 0 (rt_srvs ts) NoError = Ret NoError \<and>
        (CommandIndex m > 1 \<longrightarrow> Logs (CommandIndex m - 1) rs \<noteq> None) \<and>
        ts' = ts\<lparr>rt_srvs := (rt_srvs ts)[nat i := Some (note_applied (CommandIndex m) (Command m) rs)],
               rt_maxIndex := max (rt_maxIndex ts) (CommandIndex m)\<rparr>"
      using Some assms True
      by (auto simp: applier_msg_def checkLogs_def idx_def go_simps note_applied_def Logs_def Let_def max_def)
    then show ?thesis using Some True by (simp add: check_all_ok)
  qed
qed (use assms in \<open>auto simp: applier_msg_def checkLogs_def idx_def\<close>)

definition logs_agree :: "'c raft_test \<Rightarrow> bool" where
  "logs_agree ts \<longleftrightarrow> (\<forall>a b k v w. Some a \<in> set (rt_srvs ts) \<and> Some b \<in> set (rt_srvs ts) \<and>
     Logs k a = Some v \<and> Logs k b = Some w \<longrightarrow> v = w)"

definition gap_free :: "'c raft_test \<Rightarrow> bool" where
  "gap_free ts \<longleftrightarrow> (\<forall>a k. Some a \<in> set (rt_srvs ts) \<and> k > 1 \<and> Logs k a \<noteq> None \<longrightarrow> Logs (k - 1) a \<noteq> None)"

lemma Logs_note [simp]: "Logs k (note_applied k' v rs) = (if k = k' then Some v else Logs k rs)"
  by (simp add: Logs_def note_applied_def update_conv')

lemma in_set_update: "x \<in> set (xs[n := y]) \<Longrightarrow> x = y \<or> x \<in> set xs"
  using set_update_subset_insert [of xs n y] by auto

lemma applier_msg_inv:
  assumes "applier_msg i m ts = Ret ts'" and "logs_agree ts \<and> gap_free ts"
  shows "logs_agree ts' \<and> gap_free ts'"
proof (cases "CommandValid m")
  case True
  from iffD1 [OF applier_msg_ok [OF True] assms(1)] obtain rs where rs: "0 \<le> i" "i < int (length (rt_srvs ts))"
    "rt_srvs ts ! nat i = Some rs" "\<forall>s\<in>set (rt_srvs ts). matches (CommandIndex m) (Command m) s"
    "CommandIndex m > 1 \<longrightarrow> Logs (CommandIndex m - 1) rs \<noteq> None"
    and ts': "rt_srvs ts' = (rt_srvs ts)[nat i := Some (note_applied (CommandIndex m) (Command m) rs)]"
    by auto
  have mem: "Some rs \<in> set (rt_srvs ts)" using rs(1-3) nth_mem [of "nat i" "rt_srvs ts"] by auto
  have new: "a = note_applied (CommandIndex m) (Command m) rs \<or> Some a \<in> set (rt_srvs ts)" if "Some a \<in> set (rt_srvs ts')" for a
    using that in_set_update unfolding ts' by fastforce
  have m: "Logs (CommandIndex m) a = Some v \<Longrightarrow> v = Command m" if "Some a \<in> set (rt_srvs ts)" for a v
    using rs(4) that by (auto simp: matches_def)
  have "logs_agree ts'"
    unfolding logs_agree_def
  proof (intro allI impI, elim conjE)
    fix a b k v w
    assume *: "Some a \<in> set (rt_srvs ts')" "Some b \<in> set (rt_srvs ts')" "Logs k a = Some v" "Logs k b = Some w"
    show "v = w"
    proof (cases "k = CommandIndex m")
      case True
      with * new m show ?thesis by (metis Logs_note option.inject)
    next
      case False
      have "\<exists>a'. Some a' \<in> set (rt_srvs ts) \<and> Logs k a' = Logs k a" if "Some a \<in> set (rt_srvs ts')" for a
        using new [OF that] False mem by (metis Logs_note)
      with * assms(2) show ?thesis unfolding logs_agree_def by metis
    qed
  qed
  moreover have "gap_free ts'"
    unfolding gap_free_def
  proof (intro allI impI, elim conjE)
    fix a k
    assume *: "Some a \<in> set (rt_srvs ts')" "1 < k" "Logs k a \<noteq> None"
    with new [OF *(1)] mem assms(2) rs(5) show "Logs (k - 1) a \<noteq> None"
      unfolding gap_free_def by (auto split: if_splits)
  qed
  ultimately show ?thesis ..
qed (use assms in \<open>simp add: applier_msg_def\<close>)

lemma mksrv_eq:
  assumes "\<not> rt_snapshot ts"
  shows "mksrv usm dec now ends i ps ts = Ret ts' \<longleftrightarrow> 0 \<le> i \<and> i < int (length (rt_srvs ts)) \<and>
    ts' = ts\<lparr>rt_srvs := (rt_srvs ts)[nat i := Some \<lparr>rs_me = i, rs_applyErr = NoError, rs_lastApplied = 0,
      rs_persister = Some ps, rs_raft = (if usm then None else Some (Make now ends i ps)), rs_logs = []\<rparr>]\<rparr>"
  using assms by (auto simp: mksrv_def newRfsrv_def set_idx_def)

lemma mksrv_inv:
  assumes "mksrv usm dec now ends i ps ts = Ret ts'" and "\<not> rt_snapshot ts" and "logs_agree ts \<and> gap_free ts"
  shows "logs_agree ts' \<and> gap_free ts'"
proof -
  have "Some a \<in> set (rt_srvs ts) \<or> (\<forall>k. Logs k a = None)" if "Some a \<in> set (rt_srvs ts')" for a
    using that iffD1 [OF mksrv_eq [OF assms(2)] assms(1)] by (auto dest!: in_set_update simp: Logs_def)
  with assms(3) show ?thesis
    unfolding logs_agree_def gap_free_def by (metis option.distinct(1))
qed

lemma rt_step_snapshot: "rt_event_step e ts = Ret ts' \<Longrightarrow> rt_snapshot ts' = rt_snapshot ts"
  by (cases e)
    (auto simp: applier_msg_def checkLogs_def mksrv_def go_simps Let_def split: if_splits option.splits)

lemma rt_run_inv:
  "rt_run es ts = Ret ts' \<Longrightarrow> \<not> rt_snapshot ts \<Longrightarrow> logs_agree ts \<and> gap_free ts \<Longrightarrow> logs_agree ts' \<and> gap_free ts'"
proof (induction es arbitrary: ts)
  case (Cons e es)
  from Cons.prems(1) obtain ts1 where s: "rt_event_step e ts = Ret ts1" and r: "rt_run es ts1 = Ret ts'"
    by (auto simp: go_simps)
  have "logs_agree ts1 \<and> gap_free ts1"
  proof (cases e)
    case (Applied i m)
    with s have "applier_msg i m ts = Ret ts1" by simp
    then show ?thesis by (rule applier_msg_inv) (rule Cons.prems(3))
  next
    case (Restarted i now ends ps)
    with s have "mksrv False (\<lambda>b. None) now ends i ps ts = Ret ts1" by simp
    then show ?thesis by (rule mksrv_inv) (rule Cons.prems(2,3))+
  qed
  with Cons.IH [OF r] rt_step_snapshot [OF s] Cons.prems(2) show ?case by simp
qed simp

lemma gap_free_down:
  assumes "gap_free ts" and "Some a \<in> set (rt_srvs ts)" and "Logs k a \<noteq> None" and "1 \<le> j" and "j \<le> k"
  shows "Logs j a \<noteq> None"
proof -
  have "Logs (k - int n) a \<noteq> None" if "1 \<le> k - int n" for n
    using that
  proof (induction n)
    case (Suc n)
    then have "Logs (k - int n - 1) a \<noteq> None"
      using assms(1,2) unfolding gap_free_def by auto
    then show ?case by (simp add: diff_diff_eq add.commute)
  qed (simp add: assms(3))
  from this [of "nat (k - j)"] assms(4,5) show ?thesis by simp
qed

lemma nCommitted_loop_ok:
  assumes "\<forall>s\<in>set ss. \<exists>rs. s = Some rs \<and> rs_applyErr rs = NoError \<and> (\<forall>w. Logs k rs = Some w \<longrightarrow> w = v)"
  shows "count \<ge> 0 \<Longrightarrow> (count > 0 \<longrightarrow> cmd = v) \<Longrightarrow>
    nCommitted_loop k ss count cmd =
      Ret (count + int (length (filter (\<lambda>s. \<exists>rs. s = Some rs \<and> Logs k rs \<noteq> None) ss)),
           if \<exists>s\<in>set ss. \<exists>rs. s = Some rs \<and> Logs k rs \<noteq> None then v else cmd)"
  using assms
proof (induction ss arbitrary: count cmd)
  case (Cons s ss)
  then obtain rs where rs: "s = Some rs" "rs_applyErr rs = NoError" "\<forall>w. Logs k rs = Some w \<longrightarrow> w = v" by auto
  show ?case
  proof (cases "Logs k rs")
    case None
    with Cons rs show ?thesis by auto
  next
    case (Some w)
    with rs(3) have "w = v" by simp
    with Some rs Cons.prems Cons.IH [of "count + 1" v] show ?thesis by auto
  qed
qed simp

section \<open>No false alarms\<close>

text \<open>
  What a correct Raft sends: every incarnation of a server applies the entries of one common log \<open>L\<close>
  from index 1 on, each once. \<open>nx i\<close> is the next index of server \<open>i\<close>.
\<close>

fun in_order :: "(int \<Rightarrow> 'c any) \<Rightarrow> nat \<Rightarrow> (int \<Rightarrow> int) \<Rightarrow> 'c rt_event list \<Rightarrow> bool" where
  "in_order L n nx [] = True"
| "in_order L n nx (Applied i m # es) =
     (0 \<le> i \<and> i < int n \<and> CommandValid m \<and> CommandIndex m = nx i \<and> Command m = L (nx i) \<and>
      in_order L n (nx(i := nx i + 1)) es)"
| "in_order L n nx (Restarted i now ends ps # es) = (0 \<le> i \<and> i < int n \<and> in_order L n (nx(i := 1)) es)"

text \<open>How many entries the current incarnation of server \<open>i\<close> has applied at the end of a run, when it had \<open>k\<close> at its start.\<close>

fun applied_entries :: "int \<Rightarrow> int \<Rightarrow> 'c rt_event list \<Rightarrow> int" where
  "applied_entries i k [] = k"
| "applied_entries i k (Applied j m # es) = applied_entries i (if j = i then k + 1 else k) es"
| "applied_entries i k (Restarted j now ends ps # es) = applied_entries i (if j = i then 0 else k) es"

definition tracks :: "(int \<Rightarrow> 'c any) \<Rightarrow> (int \<Rightarrow> int) \<Rightarrow> 'c raft_test \<Rightarrow> bool" where
  "tracks L nx ts \<longleftrightarrow> (\<forall>i < length (rt_srvs ts). nx (int i) \<ge> 1 \<and> (\<exists>rs. rt_srvs ts ! i = Some rs \<and>
     rs_applyErr rs = NoError \<and> (\<forall>k. Logs k rs = (if 1 \<le> k \<and> k < nx (int i) then Some (L k) else None))))"

lemma tracks_applied:
  assumes "tracks L nx ts" and "0 \<le> i" and "i < int (length (rt_srvs ts))" and "CommandValid m"
    and "CommandIndex m = nx i" and "Command m = L (nx i)"
  shows "\<exists>ts'. applier_msg i m ts = Ret ts' \<and> tracks L (nx(i := nx i + 1)) ts' \<and>
    length (rt_srvs ts') = length (rt_srvs ts) \<and> rt_snapshot ts' = rt_snapshot ts"
proof -
  obtain rs where rs: "rt_srvs ts ! nat i = Some rs" "nx i \<ge> 1" "rs_applyErr (note_applied (CommandIndex m) (Command m) rs) = NoError"
    "\<And>k. Logs k rs = (if 1 \<le> k \<and> k < nx i then Some (L k) else None)"
    using assms(1-3) unfolding tracks_def note_applied_def by (auto dest!: spec [of _ "nat i"])
  have "matches (CommandIndex m) (Command m) s" if "s \<in> set (rt_srvs ts)" for s
    using that assms(1,5,6) by (auto simp: tracks_def matches_def in_set_conv_nth)
  with rs assms(2,3,5) have run: "applier_msg i m ts = Ret (ts\<lparr>rt_srvs := (rt_srvs ts)[nat i := Some (note_applied (CommandIndex m) (Command m) rs)],
      rt_maxIndex := max (rt_maxIndex ts) (CommandIndex m)\<rparr>)"
    unfolding applier_msg_ok [OF assms(4)] by auto
  moreover have "tracks L (nx(i := nx i + 1)) (ts\<lparr>rt_srvs := (rt_srvs ts)[nat i := Some (note_applied (CommandIndex m) (Command m) rs)],
      rt_maxIndex := max (rt_maxIndex ts) (CommandIndex m)\<rparr>)"
    using assms(1-3,5,6) rs by (auto simp: tracks_def nth_list_update)
  ultimately show ?thesis by auto
qed

lemma tracks_restarted:
  assumes "tracks L nx ts" and "0 \<le> i" and "i < int (length (rt_srvs ts))" and "\<not> rt_snapshot ts"
  shows "\<exists>ts'. mksrv usm dec now ends i ps ts = Ret ts' \<and> tracks L (nx(i := 1)) ts' \<and>
    length (rt_srvs ts') = length (rt_srvs ts) \<and> rt_snapshot ts' = rt_snapshot ts"
  unfolding mksrv_eq [OF assms(4)] using assms(1-3) by (auto simp: tracks_def nth_list_update Logs_def)

lemma in_order_runs:
  "in_order L (length (rt_srvs ts)) nx es \<Longrightarrow> tracks L nx ts \<Longrightarrow> \<not> rt_snapshot ts \<Longrightarrow>
   \<exists>ts'. rt_run es ts = Ret ts' \<and> tracks L (\<lambda>i. applied_entries i (nx i - 1) es + 1) ts' \<and> length (rt_srvs ts') = length (rt_srvs ts)"
proof (induction es arbitrary: nx ts)
  case (Cons e es)
  have "\<exists>ts1 nx1. rt_event_step e ts = Ret ts1 \<and> tracks L nx1 ts1 \<and> in_order L (length (rt_srvs ts1)) nx1 es \<and> \<not> rt_snapshot ts1 \<and>
    length (rt_srvs ts1) = length (rt_srvs ts) \<and> (\<forall>i. applied_entries i (nx i - 1) (e # es) = applied_entries i (nx1 i - 1) es)"
  proof (cases e)
    case (Applied i m)
    with Cons.prems(1) have "0 \<le> i" "i < int (length (rt_srvs ts))" "CommandValid m" "CommandIndex m = nx i" "Command m = L (nx i)"
      and rest: "in_order L (length (rt_srvs ts)) (nx(i := nx i + 1)) es" by auto
    from tracks_applied [OF Cons.prems(2) this(1-5)] obtain ts1 where "applier_msg i m ts = Ret ts1"
      "tracks L (nx(i := nx i + 1)) ts1" "length (rt_srvs ts1) = length (rt_srvs ts)" "rt_snapshot ts1 = rt_snapshot ts" by blast
    with rest Applied Cons.prems(3) show ?thesis by (intro exI [of _ ts1] exI [of _ "nx(i := nx i + 1)"]) simp
  next
    case (Restarted i now ends ps)
    with Cons.prems(1) have "0 \<le> i" "i < int (length (rt_srvs ts))"
      and rest: "in_order L (length (rt_srvs ts)) (nx(i := 1)) es" by auto
    from tracks_restarted [OF Cons.prems(2) this(1,2) Cons.prems(3), of False "\<lambda>b. None" now ends ps] obtain ts1 where
      "mksrv False (\<lambda>b. None) now ends i ps ts = Ret ts1" "tracks L (nx(i := 1)) ts1"
      "length (rt_srvs ts1) = length (rt_srvs ts)" "rt_snapshot ts1 = rt_snapshot ts" by blast
    with rest Restarted Cons.prems(3) show ?thesis by (intro exI [of _ ts1] exI [of _ "nx(i := 1)"]) simp
  qed
  then obtain ts1 nx1 where "rt_event_step e ts = Ret ts1" "tracks L nx1 ts1"
    "in_order L (length (rt_srvs ts1)) nx1 es" "\<not> rt_snapshot ts1" "length (rt_srvs ts1) = length (rt_srvs ts)"
    "\<forall>i. applied_entries i (nx i - 1) (e # es) = applied_entries i (nx1 i - 1) es" by blast
  with Cons.IH [of ts1 nx1] show ?case by simp
qed auto

definition fresh_rfsrv :: "int \<Rightarrow> string list \<Rightarrow> Persister \<Rightarrow> int \<Rightarrow> 'c rfsrv" where
  "fresh_rfsrv now ends ps i = \<lparr>rs_me = i, rs_applyErr = NoError, rs_lastApplied = 0, rs_persister = Some ps,
     rs_raft = Some (Make now ends i ps), rs_logs = []\<rparr>"

lemma start_prefix:
  "rt_run (map (\<lambda>i. Restarted (int i) now ends ps) [j..<j + k])
     (makeTest n False\<lparr>rt_srvs := map (\<lambda>i. Some (fresh_rfsrv now ends ps (int i) :: 'c rfsrv)) [0..<j] @ replicate k None\<rparr>) =
   Ret (makeTest n False\<lparr>rt_srvs := map (\<lambda>i. Some (fresh_rfsrv now ends ps (int i) :: 'c rfsrv)) [0..<j + k]\<rparr>)"
proof (induction k arbitrary: j)
  case (Suc k)
  let ?f = "\<lambda>i. Some (fresh_rfsrv now ends ps (int i) :: 'c rfsrv)"
  let ?ts = "\<lambda>xs. makeTest n False\<lparr>rt_srvs := xs\<rparr>"
  have step: "mksrv False (\<lambda>b. None) now ends (int j) ps (?ts xs) = Ret (?ts (xs[j := ?f j]))" if "j < length xs" for xs
    using that by (subst mksrv_eq) (auto simp: makeTest_def fresh_rfsrv_def)
  have "(map ?f [0..<j] @ replicate (Suc k) None)[j := ?f j] = map ?f [0..<Suc j] @ replicate k None"
    by (simp add: list_update_append)
  then have "mksrv False (\<lambda>b. None) now ends (int j) ps (?ts (map ?f [0..<j] @ replicate (Suc k) None)) =
      Ret (?ts (map ?f [0..<Suc j] @ replicate k None))"
    by (subst step) simp_all
  moreover have "[j..<j + Suc k] = j # [Suc j..<Suc j + k]" by (simp add: upt_conv_Cons del: upt_Suc)
  ultimately show ?case using Suc [of "Suc j"] by (simp del: replicate_Suc upt_Suc)
qed (simp add: makeTest_def)

lemma start_all:
  "rt_run (map (\<lambda>i. Restarted (int i) now ends ps) [0..<n]) (makeTest n False) =
   Ret (makeTest n False\<lparr>rt_srvs := map (\<lambda>i. Some (fresh_rfsrv now ends ps (int i))) [0..<n]\<rparr>)"
  using start_prefix [of now ends ps 0 n n] by (simp add: makeTest_def)

lemma rt_run_append: "rt_run (es @ es') ts = go_bind (rt_run es ts) (rt_run es')"
proof (induction es arbitrary: ts)
  case (Cons e es)
  then have "rt_run (es @ es') = (\<lambda>ts. go_bind (rt_run es ts) (rt_run es'))" by (rule ext)
  then show ?case by (simp add: go_bind_assoc)
qed simp

lemma tracks_nCommitted:
  fixes k :: int
  assumes "tracks L nx ts"
  defines "c \<equiv> int (card {i. i < length (rt_srvs ts) \<and> 1 \<le> k \<and> k < nx (int i)})"
  shows "nCommitted k ts = Ret (c, if c > 0 then L k else None)"
proof -
  let ?has = "\<lambda>s. \<exists>rs. s = Some rs \<and> Logs k rs \<noteq> None"
  have "\<forall>s\<in>set (rt_srvs ts). \<exists>rs. s = Some rs \<and> rs_applyErr rs = NoError \<and> (\<forall>w. Logs k rs = Some w \<longrightarrow> w = L k)"
    using assms(1) by (fastforce simp: tracks_def in_set_conv_nth)
  from nCommitted_loop_ok [OF this, of 0 None]
  have "nCommitted k ts = Ret (int (length (filter ?has (rt_srvs ts))), if \<exists>s\<in>set (rt_srvs ts). ?has s then L k else None)"
    by (simp add: nCommitted_def)
  moreover have "(\<exists>s\<in>set (rt_srvs ts). ?has s) \<longleftrightarrow> length (filter ?has (rt_srvs ts)) > 0"
    by (auto simp: filter_empty_conv)
  moreover have "?has (rt_srvs ts ! i) \<longleftrightarrow> 1 \<le> k \<and> k < nx (int i)" if "i < length (rt_srvs ts)" for i
  proof -
    obtain rs where "rt_srvs ts ! i = Some rs" "Logs k rs = (if 1 \<le> k \<and> k < nx (int i) then Some (L k) else None)"
      using assms(1) \<open>i < length (rt_srvs ts)\<close> unfolding tracks_def by blast
    then show ?thesis by auto
  qed
  then have "int (length (filter ?has (rt_srvs ts))) = c"
    unfolding length_filter_conv_card c_def by (intro arg_cong [where f = "\<lambda>A. int (card A)"]) auto
  ultimately show ?thesis by auto
qed

section \<open>Leaders\<close>

text \<open>The map of leaders: per term the servers that said to be its leader, in order.\<close>

definition leaders_in :: "int \<Rightarrow> observation \<Rightarrow> int \<Rightarrow> int list" where
  "leaders_in i obs t = map fst (filter (\<lambda>(j, ob). ob = Some (t, True)) (zip [i..i + int (length obs) - 1] obs))"

lemma leaders_in_simps [simp]:
  "leaders_in i [] t = []"
  "leaders_in i (ob # obs) t = (if ob = Some (t, True) then i # leaders_in (i + 1) obs t else leaders_in (i + 1) obs t)"
proof -
  have "[i..i + int (length (ob # obs)) - 1] = i # [i + 1..i + 1 + int (length obs) - 1]"
    by (subst upto_rec1) (simp_all add: algebra_simps)
  then show "leaders_in i (ob # obs) t = (if ob = Some (t, True) then i # leaders_in (i + 1) obs t else leaders_in (i + 1) obs t)"
    by (simp add: leaders_in_def)
qed (simp add: leaders_in_def)

lemma collect_leaders_get:
  "map_of (collect_leaders i obs ls) t =
     (case map_of ls t of
        Some is \<Rightarrow> Some (is @ leaders_in i obs t)
      | None \<Rightarrow> (if leaders_in i obs t = [] then None else Some (leaders_in i obs t)))"
proof (induction i obs ls rule: collect_leaders.induct)
  case (2 i ob obs leaders)
  show ?case
  proof (cases "\<exists>a. ob = Some (a, True)")
    case True
    then obtain a where "ob = Some (a, True)" by blast
    with 2 show ?thesis by (cases "t = a") (simp_all add: update_conv' split: option.splits)
  next
    case False
    then have "(case ob of Some (term, True) \<Rightarrow> AList.update term ((case map_of leaders term of Some is \<Rightarrow> is | None \<Rightarrow> []) @ [i]) leaders
        | _ \<Rightarrow> leaders) = leaders"
      by (auto split: option.splits bool.splits)
    with 2 False show ?thesis by (simp split: option.splits)
  qed
qed (simp split: option.splits)

lemma collect_leaders_wf: "gm_wf ls \<Longrightarrow> gm_wf (collect_leaders i obs ls)"
  by (induction i obs ls rule: collect_leaders.induct) (auto simp: gm.wf_put split: option.splits bool.splits)

lemma last_term_eq:
  "last_term t ls = (if \<exists>(a, is)\<in>set ls. length is > 1 then Fatal else Ret (Max (insert t (fst ` set ls))))"
proof (induction t ls rule: last_term.induct)
  case (2 t a "is" ls)
  have "Max (insert t (insert a X)) = Max (insert (if a > t then a else t) X)" if "finite X" for X
    using that by (cases "X = {}") (auto simp: max_def)
  from this [of "fst ` set ls"] 2 show ?case by auto
qed simp

lemma leaders_in_mem:
  "j \<in> set (leaders_in i obs t) \<longleftrightarrow> (\<exists>k < length obs. j = i + int k \<and> obs ! k = Some (t, True))"
proof (induction obs arbitrary: i)
  case (Cons ob obs)
  then show ?case by (auto simp: less_Suc_eq_0_disj)
qed simp

lemma leaders_in_Nil: "leaders_in i obs t = [] \<longleftrightarrow> Some (t, True) \<notin> set obs"
  by (induction obs arbitrary: i) auto

text \<open>When no term has two leaders a round finds the leader of the latest term, if there is a leader at all.\<close>

lemma round_ok:
  assumes one: "\<And>t. length (leaders_in 0 obs t) \<le> 1" and pos: "\<And>t. Some (t, True) \<in> set obs \<Longrightarrow> 0 \<le> t"
  shows "if \<exists>t. Some (t, True) \<in> set obs
    then \<exists>k t. checkOneLeader_round obs = Ret (Some (int k)) \<and> k < length obs \<and> obs ! k = Some (t, True) \<and>
      (\<forall>t'. Some (t', True) \<in> set obs \<longrightarrow> t' \<le> t)
    else checkOneLeader_round obs = Ret None"
proof -
  let ?ls = "collect_leaders 0 obs []"
  have get: "map_of ?ls t = (if leaders_in 0 obs t = [] then None else Some (leaders_in 0 obs t))" for t
    by (simp add: collect_leaders_get)
  have wf: "gm_wf ?ls" by (intro collect_leaders_wf) (simp add: gm_wf_def)
  have keys: "fst ` set ?ls = {t. Some (t, True) \<in> set obs}"
    unfolding dom_map_of_conv_image_fst [symmetric] dom_def get by (simp add: leaders_in_Nil)
  have short: "\<not> length is > 1" if "(a, is) \<in> set ?ls" for a "is"
    using that wf get [of a] one [of a] by (force simp: gm_wf_def split: if_splits dest: map_of_is_SomeI)
  then have lt: "last_term (-1) ?ls = Ret (Max (insert (-1) {t. Some (t, True) \<in> set obs}))"
    unfolding last_term_eq keys by auto
  show ?thesis
  proof (cases "\<exists>t. Some (t, True) \<in> set obs")
    case False
    then have "fst ` set ?ls = {}" unfolding keys by simp
    then show ?thesis using False lt by (simp add: checkOneLeader_round_def Let_def)
  next
    case True
    let ?T = "{t. Some (t, True) \<in> set obs}" and ?m = "Max (insert (-1) {t. Some (t, True) \<in> set obs})"
    have fin: "finite ?T" unfolding keys [symmetric] by simp
    have "Max ?T \<in> ?T" using fin True by (intro Max_in) auto
    then have "Max ?T \<ge> -1" using pos by fastforce
    then have "?m = Max ?T" using fin True by (subst Max_insert) auto
    then have m: "?m \<in> ?T" "\<forall>t \<in> ?T. t \<le> ?m" using \<open>Max ?T \<in> ?T\<close> fin by auto
    obtain j where j: "leaders_in 0 obs ?m = [j]"
      using one [of ?m] m(1) leaders_in_Nil [of 0 obs ?m] by (cases "leaders_in 0 obs ?m") auto
    then have "checkOneLeader_round obs = Ret (Some j)"
      using lt get [of ?m] True keys by (auto simp: checkOneLeader_round_def Let_def)
    moreover obtain k where "j = int k" "k < length obs" "obs ! k = Some (?m, True)"
      using leaders_in_mem [of j 0 obs ?m] j by auto
    ultimately show ?thesis using True m(2) by auto
  qed
qed

section \<open>Snapshots\<close>

lemma logs_of_get:
  "map_of (logs_of j vs m) k = (if j \<le> k \<and> k < j + int (length vs) then Some (vs ! nat (k - j)) else map_of m k)"
proof (induction j vs m rule: logs_of.induct)
  case (2 j v vs m)
  have "nat (k - j) = Suc (nat (k - (j + 1)))" if "j + 1 \<le> k" using that by (simp add: Suc_nat_eq_nat_zadd1)
  with 2 show ?case by (cases "j + 1 \<le> k") (auto simp: update_conv')
qed auto

lemma ingest_snapshot:
  assumes "dec (enc c (xlog_of c (rs_logs rs))) = Some (c, xlog_of c (rs_logs rs))" and "index = -1 \<or> index = c"
    and "\<forall>k. 1 \<le> k \<and> k \<le> c \<longrightarrow> Logs k rs \<noteq> None"
  shows "\<exists>rs'. ingestSnap dec (Some (enc c (xlog_of c (rs_logs rs)))) index fresh = Ret (NoError, rs') \<and>
    rs_lastApplied rs' = c \<and> (\<forall>k. 1 \<le> k \<and> k \<le> c \<longrightarrow> Logs k rs' = Logs k rs)"
proof -
  let ?rs' = "fresh\<lparr>rs_logs := logs_of 0 (xlog_of c (rs_logs rs)) [], rs_lastApplied := c\<rparr>"
  have "Logs k ?rs' = Logs k rs" if "1 \<le> k" "k \<le> c" for k
  proof -
    have "Logs k rs \<noteq> None" using assms(3) that by simp
    with that show ?thesis by (auto simp: Logs_def logs_of_get xlog_of_def)
  qed
  with assms(1,2) show ?thesis by (auto simp: ingestSnap_def)
qed

section \<open>Properties\<close>

text \<open>
  C21: what the appliers of the Raft tests guarantee about a run they accept. If a run of starts,
  restarts and applied messages, over all servers in any order, is not stopped, then any two servers
  that have applied something at an index have applied the same command there, and every server has
  applied all indices from 1 up to its last.
\<close>

theorem accepted_logs_agree:
  assumes "rt_run es (makeTest n False) = Ret ts" and "Some a \<in> set (rt_srvs ts)" and "Some b \<in> set (rt_srvs ts)"
  shows "(\<forall>k v w. Logs k a = Some v \<and> Logs k b = Some w \<longrightarrow> v = w) \<and>
    (\<forall>j k. Logs k a \<noteq> None \<and> 1 \<le> j \<and> j \<le> k \<longrightarrow> Logs j a \<noteq> None)"
proof -
  have "logs_agree (makeTest n False) \<and> gap_free (makeTest n False)"
    by (auto simp: logs_agree_def gap_free_def makeTest_def)
  from rt_run_inv [OF assms(1) _ this] have "logs_agree ts" "gap_free ts" by (auto simp: makeTest_def)
  then show ?thesis
    using assms(2,3) gap_free_down unfolding logs_agree_def by blast
qed

definition applied_msg :: "int \<Rightarrow> 'c \<Rightarrow> 'c ApplyMsg" where
  "applied_msg k v = \<lparr>CommandValid = True, Command = Some v, CommandIndex = k, SnapshotValid = False,
     msg_Snapshot = None, SnapshotTerm = 0, SnapshotIndex = 0\<rparr>"

theorem accepted_logs_agree_witness:
  "\<exists>ts a b. rt_run (map (\<lambda>i. Restarted (int i) 0 [] MakePersister) [0..<2] @
      [Applied 0 (applied_msg 1 (7 :: nat)), Applied 1 (applied_msg 1 7), Applied 0 (applied_msg 2 8)]) (makeTest 2 False) = Ret ts \<and>
    Some a \<in> set (rt_srvs ts) \<and> Some b \<in> set (rt_srvs ts) \<and> Logs 2 a = Some (Some 8) \<and> Logs 1 a = Logs 1 b"
proof -
  let ?es = "[Applied 0 (applied_msg 1 (7 :: nat)), Applied 1 (applied_msg 1 7), Applied 0 (applied_msg 2 8)]"
  let ?f = "\<lambda>i ls. \<lparr>rs_me = i, rs_applyErr = NoError, rs_lastApplied = 0, rs_persister = Some MakePersister,
     rs_raft = Some (Make 0 [] i MakePersister), rs_logs = ls\<rparr> :: nat rfsrv"
  let ?ts = "makeTest 2 False\<lparr>rt_srvs := [Some (?f 0 [(1, Some 7), (2, Some 8)]), Some (?f 1 [(1, Some 7)])], rt_maxIndex := 2\<rparr>"
  have run: "rt_run (map (\<lambda>i. Restarted (int i) 0 [] MakePersister) [0..<2] @ ?es) (makeTest 2 False) = Ret ?ts"
    unfolding rt_run_append start_all
    by (simp add: applier_msg_def checkLogs_def idx_def Logs_def applied_msg_def fresh_rfsrv_def makeTest_def numeral_2_eq_2)
  have in_ts: "Some (?f 0 [(1, Some 7), (2, Some 8)]) \<in> set (rt_srvs ?ts)" "Some (?f 1 [(1, Some 7)]) \<in> set (rt_srvs ?ts)"
    by (simp_all add: makeTest_def)
  have "Logs 1 (?f 0 [(1, Some 7), (2, Some 8)]) = Some (Some 7)" "Logs 1 (?f 1 [(1, Some 7)]) = Some (Some 7)"
    "Logs 2 (?f 0 [(1, Some 7), (2, Some 8)]) = Some (Some 8)"
    by (simp_all add: Logs_def)
  with accepted_logs_agree [OF run in_ts] run in_ts show ?thesis by metis
qed

text \<open>
  C30: no false alarms, and the right count. Once all servers are started, if every incarnation of a server
  applies the entries of one common log in order from index 1, with restarts at any time and any
  interleaving, then no applier stops the test, and afterwards \<open>nCommitted\<close> returns at every index: the number
  of servers whose current incarnation has applied the index (those that have applied at least so many
  entries since their last start), and the command of the common log if there is such a server, else nil.
\<close>

theorem in_order_accepted:
  assumes "in_order L n (\<lambda>i. 1) es"
  defines "having k \<equiv> {i. i < n \<and> 1 \<le> k \<and> k \<le> applied_entries (int i) 0 es}"
  shows "\<exists>ts. rt_run (map (\<lambda>i. Restarted (int i) now ends ps) [0..<n] @ es) (makeTest n False) = Ret ts \<and>
    (\<forall>k. nCommitted k ts = Ret (int (card (having k)), if having k = {} then None else L k))"
proof -
  let ?ts = "makeTest n False\<lparr>rt_srvs := map (\<lambda>i. Some (fresh_rfsrv now ends ps (int i))) [0..<n]\<rparr>"
  have "tracks L (\<lambda>i. 1) ?ts" by (auto simp: tracks_def fresh_rfsrv_def Logs_def)
  moreover have "length (rt_srvs ?ts) = n" "\<not> rt_snapshot ?ts" by (simp_all add: makeTest_def)
  ultimately obtain ts' where ts': "rt_run es ?ts = Ret ts'" "tracks L (\<lambda>i. applied_entries i 0 es + 1) ts'"
    "length (rt_srvs ts') = n"
    using in_order_runs [of L ?ts "\<lambda>i. 1" es] assms(1) by auto
  then have "rt_run (map (\<lambda>i. Restarted (int i) now ends ps) [0..<n] @ es) (makeTest n False) = Ret ts'"
    by (simp add: rt_run_append start_all)
  moreover have "finite (having k)" for k by (simp add: having_def)
  ultimately show ?thesis
    using tracks_nCommitted [OF ts'(2)] ts'(3) by (auto simp: having_def zle_add1_eq_le card_gt_0_iff)
qed

theorem in_order_accepted_witness:
  "\<exists>ts. rt_run (map (\<lambda>i. Restarted (int i) 0 [] MakePersister) [0..<3] @
      [Applied 0 (applied_msg 1 (5 :: nat)), Applied 1 (applied_msg 1 5), Restarted 0 9 [] MakePersister, Applied 2 (applied_msg 1 5)])
      (makeTest 3 False) = Ret ts \<and> nCommitted 1 ts = Ret (2, Some 5) \<and> nCommitted 2 ts = Ret (0, None)"
proof -
  let ?es = "[Applied 0 (applied_msg 1 (5 :: nat)), Applied 1 (applied_msg 1 5), Restarted 0 9 [] MakePersister, Applied 2 (applied_msg 1 5)]"
  have "in_order (\<lambda>k. Some (5 :: nat)) 3 (\<lambda>i. 1) ?es" by (simp add: applied_msg_def)
  from in_order_accepted [OF this, of 0 "[]" MakePersister] obtain ts where
    ts: "rt_run (map (\<lambda>i. Restarted (int i) 0 [] MakePersister) [0..<3] @ ?es) (makeTest 3 False) = Ret ts"
    "\<And>k. nCommitted k ts = Ret (int (card {i. i < 3 \<and> 1 \<le> k \<and> k \<le> applied_entries (int i) 0 ?es}),
       if {i. i < 3 \<and> 1 \<le> k \<and> k \<le> applied_entries (int i) 0 ?es} = {} then None else Some 5)" by blast
  have s: "{i :: nat. i < 3 \<and> 1 \<le> (1 :: int) \<and> 1 \<le> applied_entries (int i) 0 ?es} = {1, 2}"
    "{i :: nat. i < 3 \<and> 1 \<le> (2 :: int) \<and> 2 \<le> applied_entries (int i) 0 ?es} = {}" by auto
  have "nCommitted 1 ts = Ret (2, Some 5)" using ts(2) [of 1] unfolding s by simp
  moreover have "nCommitted 2 ts = Ret (0, None)" using ts(2) [of 2] unfolding s by simp
  ultimately show ?thesis using ts(1) by blast
qed

end
