(* ===== verification/RaftChecked.thy ===== *)
theory RaftChecked
  imports RaftCluster RaftTest
begin

text \<open>
  Raft under its tests: what \<open>checkOneLeader\<close> of \<open>raft1/test.go\<close> sees of a cluster of peers of
  \<open>raft1/raft.go\<close>. The check asks one server after the other, while the cluster goes on working.
\<close>

text \<open>
  Server \<open>k\<close> is asked in state \<open>st k\<close> of the execution, if it is connected; the states follow each other.
\<close>

definition observe :: "nat \<Rightarrow> (nat \<Rightarrow> bool) \<Rightarrow> (nat \<Rightarrow> 'c cluster) \<Rightarrow> observation" where
  "observe n conn st = map (\<lambda>k. if conn k then Some (GetState (nodes (st k) (int k))) else None) [0..<n]"

definition observed_leader :: "nat \<Rightarrow> (nat \<Rightarrow> bool) \<Rightarrow> (nat \<Rightarrow> 'c cluster) \<Rightarrow> nat \<Rightarrow> bool" where
  "observed_leader n conn st k \<longleftrightarrow> k < n \<and> conn k \<and> state (nodes (st k) (int k)) = Leader"

lemma states_in_order:
  assumes "\<forall>k. cluster_steps (st k) (st (Suc k))"
  shows "i \<le> j \<Longrightarrow> cluster_steps (st i) (st j)"
proof (induction j rule: dec_induct)
  case (step j)
  then show ?case using assms cluster_steps_trans by blast
qed (rule cluster_steps.none)

lemma observe_nth:
  "k < n \<Longrightarrow> observe n conn st ! k = Some (t, True) \<longleftrightarrow> observed_leader n conn st k \<and> currentTerm (nodes (st k) (int k)) = t"
  by (auto simp: observe_def observed_leader_def GetState_def)

lemma observe_mem:
  "Some (t, True) \<in> set (observe n conn st) \<longleftrightarrow> (\<exists>k. observed_leader n conn st k \<and> currentTerm (nodes (st k) (int k)) = t)"
proof -
  have "Some (t, True) \<in> set (observe n conn st) \<longleftrightarrow> (\<exists>k < n. observe n conn st ! k = Some (t, True))"
    unfolding in_set_conv_nth by (simp add: observe_def)
  also have "\<dots> \<longleftrightarrow> (\<exists>k. observed_leader n conn st k \<and> currentTerm (nodes (st k) (int k)) = t)"
    using observe_nth observed_leader_def by metis
  finally show ?thesis .
qed

lemma distinct_leaders_in: "distinct (leaders_in i obs t)"
  unfolding leaders_in_def by (intro distinct_map_filter) simp

lemma distinct_short: "distinct xs \<Longrightarrow> (\<And>x y. x \<in> set xs \<Longrightarrow> y \<in> set xs \<Longrightarrow> x = y) \<Longrightarrow> length xs \<le> 1"
  using card_le_Suc0_iff_eq [of "set xs"] distinct_card [of xs] by auto

text \<open>
  C20: the leader check of the tests does not fail on this Raft by finding two leaders, as long as no
  peer is restarted. In every round, whatever happens between the questions to the servers, the check
  returns a connected server that said to be leader, with the highest term among those that did, or
  goes on to the next round when none did; it does not stop with ``multiple leaders'', and does not
  panic.
\<close>

theorem leader_check_passes:
  assumes "cluster_steps (init_cluster now ends) (st 0)" and "\<forall>k. cluster_steps (st k) (st (Suc k))"
  shows "if \<exists>k. observed_leader n conn st k
    then \<exists>k. checkOneLeader_round (observe n conn st) = Ret (Some (int k)) \<and> observed_leader n conn st k \<and>
      (\<forall>j. observed_leader n conn st j \<longrightarrow> currentTerm (nodes (st j) (int j)) \<le> currentTerm (nodes (st k) (int k)))
    else checkOneLeader_round (observe n conn st) = Ret None"
proof -
  let ?obs = "observe n conn st"
  have from_init: "cluster_steps (init_cluster now ends) (st k)" for k
    using assms(1) states_in_order [OF assms(2), of 0 k] cluster_steps_trans by blast
  have same: "i = j" if l: "observed_leader n conn st i" "observed_leader n conn st j"
    "currentTerm (nodes (st i) (int i)) = currentTerm (nodes (st j) (int j))" for i j
  proof (cases "i \<le> j")
    case True
    show ?thesis
      using one_leader_per_term [OF from_init states_in_order [OF assms(2) True], of "int i" "int j"] l
      by (simp add: observed_leader_def)
  next
    case False
    then have "j \<le> i" by simp
    show ?thesis
      using one_leader_per_term [OF from_init states_in_order [OF assms(2) \<open>j \<le> i\<close>], of "int j" "int i"] l
      by (simp add: observed_leader_def)
  qed
  have "length (leaders_in 0 ?obs t) \<le> 1" for t
  proof (rule distinct_short [OF distinct_leaders_in])
    fix x y assume "x \<in> set (leaders_in 0 ?obs t)" "y \<in> set (leaders_in 0 ?obs t)"
    then show "x = y"
      unfolding leaders_in_mem using same observe_nth [of _ n conn st t] by (auto simp: observe_def)
  qed
  moreover have "0 \<le> t" if "Some (t, True) \<in> set ?obs" for t
    using that steps_term_mono [OF from_init] unfolding observe_mem
    by (auto simp: init_cluster_def Make_def readPersist_def)
  ultimately have "if \<exists>t. Some (t, True) \<in> set ?obs
    then \<exists>k t. checkOneLeader_round ?obs = Ret (Some (int k)) \<and> k < length ?obs \<and> ?obs ! k = Some (t, True) \<and>
      (\<forall>t'. Some (t', True) \<in> set ?obs \<longrightarrow> t' \<le> t)
    else checkOneLeader_round ?obs = Ret None"
    by (rule round_ok)
  moreover have "length ?obs = n" by (simp add: observe_def)
  ultimately show ?thesis
    unfolding observe_mem using observe_nth [of _ n conn st] by (auto split: if_splits) blast
qed

theorem leader_check_passes_witness:
  "\<exists>s :: nat cluster. cluster_steps (init_cluster 0 [''a'', ''b'', ''c'']) s \<and>
     checkOneLeader_round (observe 3 (\<lambda>k. True) (\<lambda>k. s)) = Ret (Some 0)"
proof -
  obtain s :: "nat cluster" where s: "cluster_steps (init_cluster 0 [''a'', ''b'', ''c'']) s"
    "state (nodes s 0) = Leader" "currentTerm (nodes s 0) = 1"
    and rest: "state (nodes s 1) \<noteq> Leader" "state (nodes s 2) \<noteq> Leader"
  proof -
    have "\<exists>s. acts (elect_acts 0) (init_cluster 0 [''a'', ''b'', ''c'']) = Some s \<and>
       state (nodes s 0) = Leader \<and> currentTerm (nodes s 0) = 1 \<and> state (nodes s 1) \<noteq> Leader \<and> state (nodes s 2) \<noteq> Leader"
      by (simp add: elect_acts_def trace_defs)
    with that acts_steps show thesis by blast
  qed
  have "observed_leader 3 (\<lambda>k. True) (\<lambda>k. s) k \<longleftrightarrow> k = 0" for k
    using s(2) rest by (auto simp: observed_leader_def numeral_3_eq_3 less_Suc_eq)
  with leader_check_passes [of 0 "[''a'', ''b'', ''c'']" "\<lambda>k. s" 3 "\<lambda>k. True"] s(1) show ?thesis
    by (auto intro: cluster_steps.none)
qed

end
