(* ===== verification/RaftAgree.thy ===== *)
theory RaftAgree
  imports RaftTest
begin

text \<open>
  How the Raft tests submit a command and wait for agreement (\<open>one\<close> and \<open>wait\<close> of \<open>raft1/test.go\<close>). The servers,
  their appliers and the network go on working while the helper runs: \<open>env\<close> is what they do between two of its
  looks at the system, any function of the moment and the state. The ten seconds of \<open>one\<close> are a number of
  rounds, and the two seconds of waiting in a round a number of polls.
\<close>

record 'c agreement =
  ag_test :: "'c raft_test"
  ag_connected :: "bool list"
  ag_moment :: nat

definition env_step :: "(nat \<Rightarrow> 'c agreement \<Rightarrow> 'c agreement) \<Rightarrow> 'c agreement \<Rightarrow> 'c agreement" where
  "env_step env st = (env (ag_moment st) st)\<lparr>ag_moment := Suc (ag_moment st)\<rparr>"

section \<open>Submitting a command\<close>

definition start_at :: "'c any \<Rightarrow> int \<Rightarrow> 'c agreement \<Rightarrow> (int option \<times> 'c agreement) go" where
  "start_at cmd i st =
     go_bind (idx (ag_connected st) i) (\<lambda>c.
       if \<not> c then Ret (None, st)
       else go_bind (idx (rt_srvs (ag_test st)) i) (\<lambda>s. case s of
              None \<Rightarrow> Panic
            | Some rs \<Rightarrow>
                (case rs_raft rs of
                   None \<Rightarrow> Ret (None, st)
                 | Some rf \<Rightarrow>
                     (case Start cmd rf of (rf, index1, term, ok) \<Rightarrow>
                        Ret (if ok then Some index1 else None,
                             st\<lparr>ag_test := (ag_test st)\<lparr>rt_srvs := (rt_srvs (ag_test st))[nat i := Some (rs\<lparr>rs_raft := Some rf\<rparr>)]\<rparr>\<rparr>)))))"

fun try_start ::
  "(nat \<Rightarrow> 'c agreement \<Rightarrow> 'c agreement) \<Rightarrow> 'c any \<Rightarrow> nat \<Rightarrow> int \<Rightarrow> 'c agreement \<Rightarrow> (int \<times> int \<times> 'c agreement) go" where
  "try_start env cmd 0 starts st = Ret (-1, starts, st)"
| "try_start env cmd (Suc k) starts st =
     (let starts = (starts + 1) mod int (length (rt_srvs (ag_test st)))
      in go_bind (start_at cmd starts (env_step env st)) (\<lambda>(r, st).
           case r of Some index1 \<Rightarrow> Ret (index1, starts, st) | None \<Rightarrow> try_start env cmd k starts st))"

fun poll_commit ::
  "(nat \<Rightarrow> 'c agreement \<Rightarrow> 'c agreement) \<Rightarrow> 'c any \<Rightarrow> int \<Rightarrow> int \<Rightarrow> nat \<Rightarrow> 'c agreement \<Rightarrow> (bool \<times> 'c agreement) go" where
  "poll_commit env cmd expectedServers index 0 st = Ret (False, st)"
| "poll_commit env cmd expectedServers index (Suc polls) st =
     (let st = env_step env st
      in go_bind (nCommitted index (ag_test st)) (\<lambda>(nd, cmd1).
           if nd > 0 \<and> nd \<ge> expectedServers \<and> cmd1 = cmd then Ret (True, st)
           else poll_commit env cmd expectedServers index polls st))"

fun one_loop ::
  "(nat \<Rightarrow> 'c agreement \<Rightarrow> 'c agreement) \<Rightarrow> (nat \<Rightarrow> nat) \<Rightarrow> 'c any \<Rightarrow> int \<Rightarrow> bool \<Rightarrow> nat \<Rightarrow> int \<Rightarrow> 'c agreement \<Rightarrow> (int \<times> 'c agreement) go" where
  "one_loop env polls cmd expectedServers retry 0 starts st =
     (if checkFinished (ag_test st) = False then Fatal else Ret (-1, st))"
| "one_loop env polls cmd expectedServers retry (Suc rounds) starts st =
     (if checkFinished (ag_test st) \<noteq> False then Ret (-1, st)
      else go_bind (try_start env cmd (length (rt_srvs (ag_test st))) starts st) (\<lambda>(index, starts, st).
        if index \<noteq> -1 then
          go_bind (poll_commit env cmd expectedServers index (polls rounds) st) (\<lambda>(done, st).
            if done then Ret (index, st)
            else if retry = False then Fatal
            else one_loop env polls cmd expectedServers retry rounds starts (env_step env st))
        else one_loop env polls cmd expectedServers retry rounds starts (env_step env st)))"

definition one ::
  "(nat \<Rightarrow> 'c agreement \<Rightarrow> 'c agreement) \<Rightarrow> (nat \<Rightarrow> nat) \<Rightarrow> nat \<Rightarrow> 'c any \<Rightarrow> int \<Rightarrow> bool \<Rightarrow> 'c agreement \<Rightarrow> (int \<times> 'c agreement) go" where
  "one env polls rounds cmd expectedServers retry st = one_loop env polls cmd expectedServers retry rounds 0 st"

section \<open>Waiting for a commit\<close>

text \<open>Whether some server has moved past a term; a killed server has no peer to ask, and the code panics.\<close>

fun moved_on :: "int \<Rightarrow> 'c rfsrv option list \<Rightarrow> bool go" where
  "moved_on startTerm [] = Ret False"
| "moved_on startTerm (s # ss) =
     (case s of
        None \<Rightarrow> Panic
      | Some rs \<Rightarrow> go_bind (rfsrv_GetState rs) (\<lambda>(t, isLeader).
          if t > startTerm then Ret True else moved_on startTerm ss))"

text \<open>\<open>Inl\<close> is the end of the loop, \<open>Inr\<close> the early return of \<open>-1\<close>.\<close>

fun wait_loop ::
  "(nat \<Rightarrow> 'c agreement \<Rightarrow> 'c agreement) \<Rightarrow> int \<Rightarrow> int \<Rightarrow> int \<Rightarrow> nat \<Rightarrow> 'c agreement \<Rightarrow> ('c agreement + 'c agreement) go" where
  "wait_loop env index n startTerm 0 st = Ret (Inl st)"
| "wait_loop env index n startTerm (Suc iters) st =
     go_bind (nCommitted index (ag_test st)) (\<lambda>(nd, cmd).
       if nd \<ge> n then Ret (Inl st)
       else let st = env_step env st
            in if startTerm > -1
               then go_bind (moved_on startTerm (rt_srvs (ag_test st))) (\<lambda>b.
                      if b then Ret (Inr st) else wait_loop env index n startTerm iters st)
               else wait_loop env index n startTerm iters st)"

text \<open>The result is \<open>None\<close> for the returned \<open>-1\<close>, else the command.\<close>

definition wait ::
  "(nat \<Rightarrow> 'c agreement \<Rightarrow> 'c agreement) \<Rightarrow> int \<Rightarrow> int \<Rightarrow> int \<Rightarrow> 'c agreement \<Rightarrow> ('c any option \<times> 'c agreement) go" where
  "wait env index n startTerm st =
     go_bind (wait_loop env index n startTerm 30 st) (\<lambda>r. case r of
       Inr st \<Rightarrow> Ret (None, st)
     | Inl st \<Rightarrow>
         let st = env_step env st
         in go_bind (nCommitted index (ag_test st)) (\<lambda>(nd, cmd). if nd < n then Fatal else Ret (Some cmd, st)))"

section \<open>What a count of commits says\<close>

text \<open>\<open>committed k v ts n\<close>: exactly \<open>n\<close> servers have applied something at index \<open>k\<close>, and all of them \<open>v\<close>.\<close>

definition committed :: "int \<Rightarrow> 'c any \<Rightarrow> 'c raft_test \<Rightarrow> int \<Rightarrow> bool" where
  "committed k v ts n \<longleftrightarrow> n = int (length (filter (\<lambda>s. \<exists>rs. s = Some rs \<and> Logs k rs \<noteq> None) (rt_srvs ts))) \<and>
     (\<forall>rs w. Some rs \<in> set (rt_srvs ts) \<and> Logs k rs = Some w \<longrightarrow> w = v)"

lemma nCommitted_loop_Ret:
  assumes "nCommitted_loop k ss count cmd = Ret (n, v)" and "0 \<le> count"
  shows "n = count + int (length (filter (\<lambda>s. \<exists>rs. s = Some rs \<and> Logs k rs \<noteq> None) ss)) \<and>
    (\<forall>rs w. Some rs \<in> set ss \<and> Logs k rs = Some w \<longrightarrow> w = v) \<and> (count > 0 \<longrightarrow> cmd = v)"
  using assms
proof (induction ss arbitrary: count cmd)
  case (Cons s ss)
  then obtain rs where rs: "s = Some rs" "rs_applyErr rs = NoError" by (auto split: option.splits if_splits)
  show ?case
  proof (cases "Logs k rs")
    case None
    with Cons rs show ?thesis by auto
  next
    case (Some w)
    with Cons.prems rs have "nCommitted_loop k ss (count + 1) w = Ret (n, v)" "count > 0 \<longrightarrow> cmd = w"
      by (auto split: if_splits)
    with Cons.IH [of "count + 1" w] Cons.prems(2) Some rs show ?thesis by auto
  qed
qed simp

lemma nCommitted_committed: "nCommitted k ts = Ret (n, v) \<Longrightarrow> committed k v ts n"
  using nCommitted_loop_Ret [of k "rt_srvs ts" 0 None n v] by (simp add: nCommitted_def committed_def)

lemma poll_commit_True:
  "poll_commit env cmd e index polls st = Ret (True, st') \<Longrightarrow> \<exists>n. committed index cmd (ag_test st') n \<and> 0 < n \<and> e \<le> n"
  by (induction polls arbitrary: st) (auto simp: Let_def go_simps split: if_splits dest: nCommitted_committed)

lemma one_loop_index:
  assumes "one_loop env polls cmd e retry rounds starts st = Ret (i, st')" and "i \<noteq> -1"
  shows "\<exists>n. committed i cmd (ag_test st') n \<and> 0 < n \<and> e \<le> n"
  using assms
proof (induction rounds arbitrary: starts st)
  case (Suc rounds)
  then obtain index starts' st1 where t: "try_start env cmd (length (rt_srvs (ag_test st))) starts st = Ret (index, starts', st1)"
    by (auto simp: go_simps split: if_splits)
  show ?case
  proof (cases "index = -1")
    case False
    with Suc.prems t obtain d st2 where p: "poll_commit env cmd e index (polls rounds) st1 = Ret (d, st2)"
      by (auto simp: go_simps split: if_splits)
    with False Suc t show ?thesis by (cases d) (auto split: if_splits dest: poll_commit_True)
  qed (use Suc t in \<open>auto split: if_splits\<close>)
qed (simp split: if_splits)

section \<open>Without commits\<close>

text \<open>
  As long as nobody applies anything, \<open>one\<close> cannot succeed. The peers of \<open>raft1/raft.go\<close> never commit
  (\<open>RaftCluster.logs_and_commits\<close>) and nothing in the file sends on the apply channel.
\<close>

definition nobody_applied :: "'c agreement \<Rightarrow> bool" where
  "nobody_applied st \<longleftrightarrow> (\<forall>rs. Some rs \<in> set (rt_srvs (ag_test st)) \<longrightarrow> rs_logs rs = [])"

lemma start_at_nobody:
  assumes "start_at cmd i st = Ret (r, st')" and "nobody_applied st"
  shows "nobody_applied st'"
proof -
  have "st' = st \<or> (\<exists>rs rf. rt_srvs (ag_test st) ! nat i = Some rs \<and> nat i < length (rt_srvs (ag_test st)) \<and>
      rt_srvs (ag_test st') = (rt_srvs (ag_test st))[nat i := Some (rs\<lparr>rs_raft := Some rf\<rparr>)])"
    using assms(1) by (auto simp: start_at_def go_simps idx_def split: if_splits option.splits prod.splits)
  with assms(2) show ?thesis
    unfolding nobody_applied_def by (auto dest!: in_set_update nth_mem)
qed

lemma env_step_nobody:
  assumes "\<And>m st. nobody_applied st \<Longrightarrow> nobody_applied (env m st)" and "nobody_applied st"
  shows "nobody_applied (env_step env st)"
  using assms by (simp add: env_step_def nobody_applied_def)

lemma try_start_nobody:
  assumes env: "\<And>m st. nobody_applied st \<Longrightarrow> nobody_applied (env m st)"
  shows "try_start env cmd k starts st = Ret (index, starts', st') \<Longrightarrow> nobody_applied st \<Longrightarrow> nobody_applied st'"
proof (induction k arbitrary: starts st)
  case (Suc k)
  then show ?case
    by (auto simp: Let_def go_simps split: option.splits
        dest!: start_at_nobody [OF _ env_step_nobody [OF env Suc.prems(2)]])
qed simp

lemma poll_commit_nobody:
  assumes env: "\<And>m st. nobody_applied st \<Longrightarrow> nobody_applied (env m st)"
  shows "poll_commit env cmd e i polls st = Ret (d, st') \<Longrightarrow> nobody_applied st \<Longrightarrow> nobody_applied st'"
  by (induction polls arbitrary: st) (auto simp: Let_def go_simps env_step_nobody [OF env] split: if_splits)

lemma one_loop_nobody:
  assumes env: "\<And>m st. nobody_applied st \<Longrightarrow> nobody_applied (env m st)"
  shows "one_loop env polls cmd e retry rounds starts st = Ret (i, st') \<Longrightarrow> nobody_applied st \<Longrightarrow> nobody_applied st'"
proof (induction rounds arbitrary: starts st)
  case (Suc rounds)
  show ?case
  proof (cases "checkFinished (ag_test st)")
    case False
    with Suc.prems obtain index starts' st1 where
      t: "try_start env cmd (length (rt_srvs (ag_test st))) starts st = Ret (index, starts', st1)"
      by (auto simp: go_simps)
    have st1: "nobody_applied st1" using try_start_nobody [OF env t Suc.prems(2)] .
    show ?thesis
    proof (cases "index = -1")
      case True
      with Suc False t st1 env_step_nobody [OF env] show ?thesis by auto
    next
      case idx: False
      with Suc.prems False t obtain d st2 where p: "poll_commit env cmd e index (polls rounds) st1 = Ret (d, st2)"
        by (auto simp: go_simps)
      have "nobody_applied st2" using poll_commit_nobody [OF env p st1] .
      with Suc False idx t p env_step_nobody [OF env] show ?thesis by (auto split: if_splits)
    qed
  qed (use Suc.prems in simp)
qed (simp split: if_splits)

lemma one_without_commits:
  assumes env: "\<And>m st. nobody_applied st \<Longrightarrow> nobody_applied (env m st)"
    and "one env polls rounds cmd e retry st = Ret (i, st')" and "nobody_applied st"
  shows "i = -1"
proof (rule ccontr)
  assume "i \<noteq> -1"
  with assms(2) obtain n where "committed i cmd (ag_test st') n" "0 < n"
    using one_loop_index by (fastforce simp: one_def)
  moreover have "nobody_applied st'" using assms(2,3) by (auto simp: one_def intro: one_loop_nobody [OF env])
  ultimately show False by (fastforce simp: committed_def nobody_applied_def Logs_def filter_empty_conv)
qed

section \<open>Properties\<close>

text \<open>
  C35: agreement that the tests report is real. Whatever the servers do meanwhile, when \<open>one\<close> returns an
  index, then at that moment at least the expected number of servers, and at least one, have applied the
  command at the index and no server has applied anything else there; when \<open>wait\<close> returns a command, at
  least the asked number of servers have applied it at the index, and no server anything else.
\<close>

theorem agreement_sound:
  "(one env polls rounds cmd e retry st = Ret (i, st') \<and> i \<noteq> -1 \<longrightarrow>
      (\<exists>m. committed i cmd (ag_test st') m \<and> 0 < m \<and> e \<le> m)) \<and>
   (wait env k n startTerm st = Ret (Some v, st') \<longrightarrow> (\<exists>m. committed k v (ag_test st') m \<and> n \<le> m))"
proof -
  have "\<exists>m. committed k v (ag_test st') m \<and> n \<le> m" if w: "wait env k n startTerm st = Ret (Some v, st')"
  proof -
    from w obtain r where r: "wait_loop env k n startTerm 30 st = Ret r" by (auto simp: wait_def go_simps)
    obtain m where "nCommitted k (ag_test st') = Ret (m, v)" "n \<le> m"
      using w r by (cases r) (auto simp: wait_def go_simps Let_def split: if_splits)
    then show ?thesis using nCommitted_committed by blast
  qed
  then show ?thesis using one_loop_index by (auto simp: one_def)
qed

definition lone_leader :: "nat agreement" where
  "lone_leader = \<lparr>ag_test = \<lparr>rt_srvs = [Some \<lparr>rs_me = 0, rs_applyErr = NoError, rs_lastApplied = 0, rs_persister = None,
       rs_raft = Some ((Make 0 [''a''] 0 MakePersister)\<lparr>state := Leader, currentTerm := 1\<rparr>), rs_logs = []\<rparr>],
     rt_maxIndex = 0, rt_snapshot = False, rt_finished = False\<rparr>, ag_connected = [True], ag_moment = 0\<rparr>"

text \<open>An environment in which the server applies the command 7 at index 2 at the second moment.\<close>

definition applies_7 :: "nat \<Rightarrow> nat agreement \<Rightarrow> nat agreement" where
  "applies_7 m st = (if m = 1 then st\<lparr>ag_test := (ag_test st)\<lparr>rt_srvs :=
     map (map_option (\<lambda>rs. rs\<lparr>rs_logs := [(2, Some 7)]\<rparr>)) (rt_srvs (ag_test st))\<rparr>\<rparr> else st)"

theorem agreement_sound_witness:
  "\<exists>st' m. one applies_7 (\<lambda>r. 5) 1 (Some 7) 1 False lone_leader = Ret (2, st') \<and> committed 2 (Some 7) (ag_test st') m \<and> 1 \<le> m"
proof -
  have "\<exists>st'. one applies_7 (\<lambda>r. 5) 1 (Some 7) 1 False lone_leader = Ret (2, st')"
    by (simp add: one_def lone_leader_def checkFinished_def start_at_def env_step_def applies_7_def idx_def Make_def
        MakePersister_def ReadRaftState_def readPersist_def Start_def persist_def nCommitted_def Logs_def eval_nat_numeral)
  then obtain st' where st': "one applies_7 (\<lambda>r. 5) 1 (Some 7) 1 False lone_leader = Ret (2, st')" ..
  then have "\<exists>m. committed 2 (Some 7) (ag_test st') m \<and> 0 < m \<and> 1 \<le> m"
    by (intro agreement_sound [THEN conjunct1, THEN mp]) simp
  with st' show ?thesis by auto
qed

end
