(* ===== verification/LabGob.thy ===== *)
theory LabGob
  imports Prelude
begin

text \<open>
  The checks that \<open>labgob/labgob.go\<close> makes around \<open>encoding/gob\<close>: warnings about types with lower-case fields and
  about decoding into variables that are not empty. The types of a program are a list, in which a type
  refers to others by their position, so that recursive types are cycles; pointers of values go through a
  heap. Whether the first rune of a name is upper case (\<open>unicode.IsUpper\<close>) and the gob codec are arguments.
\<close>

section \<open>Types, values and the state of the package\<close>

datatype Kind = Invalid | Bool | Int | Int8 | Int16 | Int32 | Int64 | Uint | Uint8 | Uint16 | Uint32 | Uint64
  | Uintptr | Float32 | Float64 | Complex64 | Complex128 | Array | Chan | Func | Interface | Map | Ptr | Slice
  | String | Struct | UnsafePointer

record rtype =
  t_Kind :: Kind
  t_Name :: string
  t_Fields :: "(string \<times> nat) list"
  t_Elem :: nat
  t_Key :: nat

definition no_type :: rtype where
  "no_type = \<lparr>t_Kind = Invalid, t_Name = [], t_Fields = [], t_Elem = 0, t_Key = 0\<rparr>"

definition type_at :: "rtype list \<Rightarrow> nat \<Rightarrow> rtype" where
  "type_at U t = (if t < length U then U ! t else no_type)"

datatype message = LowerCase string string | NonDefault string

record labgob =
  checked :: "nat list"
  errorCount :: int
  printed :: "message list"

definition init_labgob :: labgob where
  "init_labgob = \<lparr>checked = [], errorCount = 0, printed = []\<rparr>"

section \<open>Checking types\<close>

definition check_name :: "(string \<Rightarrow> bool) \<Rightarrow> string \<Rightarrow> string \<Rightarrow> labgob \<Rightarrow> labgob" where
  "check_name isUpper tname f s =
     (if isUpper f = False
      then s\<lparr>printed := printed s @ [LowerCase f tname], errorCount := errorCount s + 1\<rparr> else s)"

function checkType :: "(string \<Rightarrow> bool) \<Rightarrow> rtype list \<Rightarrow> nat \<Rightarrow> labgob \<Rightarrow> labgob"
  and check_fields :: "(string \<Rightarrow> bool) \<Rightarrow> rtype list \<Rightarrow> string \<Rightarrow> (string \<times> nat) list \<Rightarrow> labgob \<Rightarrow> labgob" where
  "checkType isUpper U t s =
     (if t \<in> set (checked s) then s
      else let s = s\<lparr>checked := t # checked s\<rparr>; ty = type_at U t
           in case t_Kind ty of
                Struct \<Rightarrow> check_fields isUpper U (t_Name ty) (t_Fields ty) s
              | Slice \<Rightarrow> checkType isUpper U (t_Elem ty) s
              | Array \<Rightarrow> checkType isUpper U (t_Elem ty) s
              | Ptr \<Rightarrow> checkType isUpper U (t_Elem ty) s
              | Map \<Rightarrow> checkType isUpper U (t_Key ty) (checkType isUpper U (t_Elem ty) s)
              | _ \<Rightarrow> s)"
| "check_fields isUpper U tname [] s = s"
| "check_fields isUpper U tname ((f, t) # fs) s =
     check_fields isUpper U tname fs (checkType isUpper U t (check_name isUpper tname f s))"
  by pat_completeness auto

text \<open>What is checked stays checked; with that, every type is entered at most once and the recursion ends.\<close>

lemma check_name_checked [simp]: "checked (check_name isUpper tname f s) = checked s"
  by (simp add: check_name_def)

lemma checked_grows_dom:
  "checkType_check_fields_dom (Inl (isUpper, U, t, s)) \<Longrightarrow> set (checked s) \<subseteq> set (checked (checkType isUpper U t s))"
  "checkType_check_fields_dom (Inr (isUpper, U, tname, fs, s)) \<Longrightarrow>
     set (checked s) \<subseteq> set (checked (check_fields isUpper U tname fs s))"
proof (induction isUpper U t s and isUpper U tname fs s rule: checkType_check_fields.pinduct)
  case (1 isUpper U t s)
  then show ?case
    by (auto simp: checkType.psimps Let_def split: Kind.splits) (metis (no_types, lifting) labgob.select_convs subset_iff)+
next
  case (3 isUpper U tname f t fs s)
  then show ?case by (simp add: check_fields.psimps)
qed (simp add: check_fields.psimps)

definition unseen :: "rtype list \<Rightarrow> labgob \<Rightarrow> nat" where
  "unseen U s = card ({..<length U} - set (checked s))"

lemma unseen_mono: "set (checked s) \<subseteq> set (checked s') \<Longrightarrow> unseen U s' \<le> unseen U s"
  unfolding unseen_def by (rule card_mono) auto

lemma unseen_enter:
  assumes "t \<notin> set (checked s)" and "t_Kind (type_at U t) \<noteq> Invalid"
  shows "unseen U (s\<lparr>checked := t # checked s\<rparr>) < unseen U s"
proof -
  have "t < length U" using assms(2) by (auto simp: type_at_def no_type_def split: if_splits)
  then show ?thesis unfolding unseen_def using assms(1) by (intro psubset_card_mono) auto
qed

lemma unseen_check_name [simp]: "unseen U (check_name isUpper tname f s) = unseen U s"
  by (simp add: unseen_def)

termination checkType
proof (relation "measures [case_sum (\<lambda>(p, U, t, s). unseen U s) (\<lambda>(p, U, n, fs, s). unseen U s),
    case_sum (\<lambda>x. 0) (\<lambda>(p, U, n, fs, s). length fs)]", goal_cases)
  case (4 isUpper U t s s' ty)
  then have "unseen U (checkType isUpper U (t_Elem ty) s') \<le> unseen U s'"
    by (intro unseen_mono checked_grows_dom(1))
  with 4 unseen_enter [of t s U] show ?case by simp
next
  case (9 isUpper U tname f t fs s)
  then have "unseen U (checkType isUpper U t (check_name isUpper tname f s)) \<le> unseen U s"
    using unseen_mono [OF checked_grows_dom(1) [OF 9]] by simp
  then show ?case by (auto simp: le_less)
qed (auto simp: unseen_enter)

definition checkValue :: "(string \<Rightarrow> bool) \<Rightarrow> rtype list \<Rightarrow> nat option \<Rightarrow> labgob \<Rightarrow> labgob go" where
  "checkValue isUpper U typ s = (case typ of None \<Rightarrow> Panic | Some t \<Rightarrow> Ret (checkType isUpper U t s))"

section \<open>Checking that a variable is empty\<close>

text \<open>
  The values that \<open>checkDefault1\<close> looks at: an integer stands for all integer kinds, a float is its bits, and
  \<open>OtherV\<close> is a value of any other kind, which it passes over. A basic value comes with the name of its type.
\<close>

datatype basic = BoolB bool | IntB int | FloatB "64 word" | StringB string

datatype rvalue = StructV "(string \<times> rvalue) list" | PtrV "nat option" | BasicV string basic | OtherV

fun is_zero :: "basic \<Rightarrow> bool" where
  "is_zero (BoolB b) = (b = False)"
| "is_zero (IntB i) = (i = 0)"
| "is_zero (FloatB w) = (take_bit 63 w = 0)"
| "is_zero (StringB s) = (s = [])"

definition warn_default :: "string \<Rightarrow> string \<Rightarrow> labgob \<Rightarrow> labgob" where
  "warn_default name tname s =
     (let s = (if errorCount s < 1
               then s\<lparr>printed := printed s @ [NonDefault (if name = '''' then tname else name)]\<rparr> else s)
      in s\<lparr>errorCount := errorCount s + 1\<rparr>)"

definition field_name :: "string \<Rightarrow> string \<Rightarrow> string" where
  "field_name name f = (if name \<noteq> '''' then name @ ''.'' @ f else f)"

function checkDefault1 :: "(nat \<Rightarrow> rvalue) \<Rightarrow> rvalue \<Rightarrow> nat \<Rightarrow> string \<Rightarrow> labgob \<Rightarrow> labgob"
  and default_fields :: "(nat \<Rightarrow> rvalue) \<Rightarrow> (string \<times> rvalue) list \<Rightarrow> nat \<Rightarrow> string \<Rightarrow> labgob \<Rightarrow> labgob" where
  "checkDefault1 heap v depth name s =
     (if depth > 3 then s
      else case v of
             StructV fs \<Rightarrow> default_fields heap fs depth name s
           | PtrV None \<Rightarrow> s
           | PtrV (Some p) \<Rightarrow> checkDefault1 heap (heap p) (depth + 1) name s
           | BasicV tname b \<Rightarrow> if is_zero b = False then warn_default name tname s else s
           | OtherV \<Rightarrow> s)"
| "default_fields heap [] depth name s = s"
| "default_fields heap ((f, v) # fs) depth name s =
     default_fields heap fs depth name (checkDefault1 heap v (depth + 1) (field_name name f) s)"
  by pat_completeness auto

termination
  by (relation "measures [case_sum (\<lambda>(h, v, d, n, s). 2 * (4 - d)) (\<lambda>(h, fs, d, n, s). max 1 (2 * (4 - d) - 1)),
    case_sum (\<lambda>x. 0) (\<lambda>(h, fs, d, n, s). length fs)]") auto

definition checkDefault :: "(nat \<Rightarrow> rvalue) \<Rightarrow> rvalue option \<Rightarrow> labgob \<Rightarrow> labgob" where
  "checkDefault heap value s = (case value of None \<Rightarrow> s | Some v \<Rightarrow> checkDefault1 heap v 1 '''' s)"

section \<open>Encoding and decoding\<close>

text \<open>An \<open>interface{}\<close> is nil or a type with a value. \<open>gob\<close> is what \<open>encoding/gob\<close> does with it.\<close>

definition Encode ::
  "(string \<Rightarrow> bool) \<Rightarrow> rtype list \<Rightarrow> ((nat \<times> rvalue) option \<Rightarrow> 'e go) \<Rightarrow> (nat \<times> rvalue) option \<Rightarrow> labgob \<Rightarrow> ('e \<times> labgob) go" where
  "Encode isUpper U gob e s =
     go_bind (checkValue isUpper U (map_option fst e) s) (\<lambda>s. go_bind (gob e) (\<lambda>r. Ret (r, s)))"

definition Decode ::
  "(string \<Rightarrow> bool) \<Rightarrow> rtype list \<Rightarrow> (nat \<Rightarrow> rvalue) \<Rightarrow> ((nat \<times> rvalue) option \<Rightarrow> 'e go) \<Rightarrow> (nat \<times> rvalue) option \<Rightarrow> labgob \<Rightarrow>
   ('e \<times> labgob) go" where
  "Decode isUpper U heap gob e s =
     go_bind (checkValue isUpper U (map_option fst e) s) (\<lambda>s.
       let s = checkDefault heap (map_option snd e) s
       in go_bind (gob e) (\<lambda>r. Ret (r, s)))"

definition Register ::
  "(string \<Rightarrow> bool) \<Rightarrow> rtype list \<Rightarrow> ((nat \<times> rvalue) option \<Rightarrow> unit go) \<Rightarrow> (nat \<times> rvalue) option \<Rightarrow> labgob \<Rightarrow> labgob go" where
  "Register isUpper U gob value s =
     go_bind (checkValue isUpper U (map_option fst value) s) (\<lambda>s. go_bind (gob value) (\<lambda>r. Ret s))"

definition EncodeValue ::
  "(string \<Rightarrow> bool) \<Rightarrow> rtype list \<Rightarrow> (nat \<times> rvalue \<Rightarrow> 'e go) \<Rightarrow> nat \<times> rvalue \<Rightarrow> labgob \<Rightarrow> ('e \<times> labgob) go" where
  "EncodeValue isUpper U gob value s =
     go_bind (checkValue isUpper U (Some (fst value)) s) (\<lambda>s. go_bind (gob value) (\<lambda>r. Ret (r, s)))"

definition RegisterName ::
  "(string \<Rightarrow> bool) \<Rightarrow> rtype list \<Rightarrow> (string \<Rightarrow> (nat \<times> rvalue) option \<Rightarrow> unit go) \<Rightarrow> string \<Rightarrow> (nat \<times> rvalue) option \<Rightarrow> labgob \<Rightarrow>
   labgob go" where
  "RegisterName isUpper U gob name value s =
     go_bind (checkValue isUpper U (map_option fst value) s) (\<lambda>s. go_bind (gob name value) (\<lambda>r. Ret s))"

section \<open>What the check of types visits\<close>

definition refs :: "rtype list \<Rightarrow> nat \<Rightarrow> nat set" where
  "refs U t = (let ty = type_at U t in
     case t_Kind ty of Struct \<Rightarrow> snd ` set (t_Fields ty) | Slice \<Rightarrow> {t_Elem ty} | Array \<Rightarrow> {t_Elem ty} | Ptr \<Rightarrow> {t_Elem ty}
     | Map \<Rightarrow> {t_Elem ty, t_Key ty} | _ \<Rightarrow> {})"

definition reach :: "rtype list \<Rightarrow> nat \<Rightarrow> nat set" where
  "reach U t = {(a, b). b \<in> refs U a}\<^sup>* `` {t}"

definition lower_names :: "(string \<Rightarrow> bool) \<Rightarrow> (string \<times> nat) list \<Rightarrow> int" where
  "lower_names isUpper fs = int (length (filter (\<lambda>(f, t). \<not> isUpper f) fs))"

definition lowers :: "(string \<Rightarrow> bool) \<Rightarrow> rtype list \<Rightarrow> nat \<Rightarrow> int" where
  "lowers isUpper U t = (if t_Kind (type_at U t) = Struct then lower_names isUpper (t_Fields (type_at U t)) else 0)"

definition newly :: "labgob \<Rightarrow> labgob \<Rightarrow> nat set" where
  "newly s s' = set (checked s') - set (checked s)"

definition visits :: "(string \<Rightarrow> bool) \<Rightarrow> rtype list \<Rightarrow> nat set \<Rightarrow> int \<Rightarrow> labgob \<Rightarrow> labgob \<Rightarrow> bool" where
  "visits isUpper U R k s s' \<longleftrightarrow> set (checked s) \<union> R \<subseteq> set (checked s') \<and>
     (\<forall>u\<in>newly s s'. refs U u \<subseteq> set (checked s') \<and> (\<exists>r\<in>R. u \<in> reach U r)) \<and>
     errorCount s' = errorCount s + k + (\<Sum>u\<in>newly s s'. lowers isUpper U u)"

declare checkType.simps [simp del] checkDefault1.simps [simp del]

lemma reach_refl [simp]: "t \<in> reach U t"
  by (simp add: reach_def)

lemma reach_step: "u \<in> refs U t \<Longrightarrow> w \<in> reach U u \<Longrightarrow> w \<in> reach U t"
  by (auto simp: reach_def intro: converse_rtrancl_into_rtrancl)

lemma visits_refl [simp]: "R \<subseteq> set (checked s) \<Longrightarrow> visits isUpper U R 0 s s"
  by (simp add: visits_def newly_def)

lemma visits_trans:
  assumes "visits isUpper U R k s s1" and "visits isUpper U R' k' s1 s2"
  shows "visits isUpper U (R \<union> R') (k + k') s s2"
proof -
  have eq: "newly s s2 = newly s s1 \<union> newly s1 s2" and disj: "newly s s1 \<inter> newly s1 s2 = {}"
    using assms by (auto simp: visits_def newly_def)
  have "(\<Sum>u\<in>newly s s2. lowers isUpper U u) =
      (\<Sum>u\<in>newly s s1. lowers isUpper U u) + (\<Sum>u\<in>newly s1 s2. lowers isUpper U u)"
    unfolding eq by (rule sum.union_disjoint) (use disj in \<open>auto simp: newly_def\<close>)
  moreover have "refs U u \<subseteq> set (checked s2) \<and> (\<exists>r\<in>R \<union> R'. u \<in> reach U r)" if "u \<in> newly s s2" for u
    using that assms unfolding eq visits_def by blast
  ultimately show ?thesis using assms unfolding visits_def by auto
qed

lemma visits_enter:
  assumes "t \<notin> set (checked s)" and "visits isUpper U (refs U t) (lowers isUpper U t) (s\<lparr>checked := t # checked s\<rparr>) s'"
  shows "visits isUpper U {t} 0 s s'"
proof -
  let ?s = "s\<lparr>checked := t # checked s\<rparr>"
  have sub: "insert t (set (checked s)) \<union> refs U t \<subseteq> set (checked s')" using assms(2) by (simp add: visits_def)
  then have new: "newly s s' = insert t (newly ?s s')" "t \<notin> newly ?s s'" "finite (newly ?s s')"
    using assms(1) by (auto simp: newly_def)
  then have "(\<Sum>u\<in>newly s s'. lowers isUpper U u) = lowers isUpper U t + (\<Sum>u\<in>newly ?s s'. lowers isUpper U u)"
    by simp
  moreover have "refs U u \<subseteq> set (checked s') \<and> u \<in> reach U t" if "u \<in> newly s s'" for u
    using that assms(2) sub reach_step unfolding new(1) visits_def by (cases "u = t") auto
  ultimately show ?thesis using sub assms(2) by (simp add: visits_def)
qed

lemma visits_name: "visits isUpper U {} (lower_names isUpper [(f, t)]) s (check_name isUpper tname f s)"
  by (auto simp: visits_def newly_def check_name_def lower_names_def)

lemma checkType_visits:
  "visits isUpper U {t} 0 s (checkType isUpper U t s)"
  "visits isUpper U (snd ` set fs) (lower_names isUpper fs) s (check_fields isUpper U tname fs s)"
proof (induction isUpper U t s and isUpper U tname fs s rule: checkType_check_fields.induct)
  case (1 isUpper U t s)
  show ?case
  proof (cases "t \<in> set (checked s)")
    case False
    let ?s = "s\<lparr>checked := t # checked s\<rparr>"
    have "visits isUpper U (refs U t) (lowers isUpper U t) ?s (checkType isUpper U t s)"
    proof (cases "t_Kind (type_at U t)")
      case Map
      then have "visits isUpper U ({t_Elem (type_at U t)} \<union> {t_Key (type_at U t)}) (0 + 0) ?s
          (checkType isUpper U (t_Key (type_at U t)) (checkType isUpper U (t_Elem (type_at U t)) ?s))"
        using 1(2,3) False by (intro visits_trans) auto
      with Map False show ?thesis by (simp add: checkType.simps [of isUpper U t s] refs_def lowers_def Let_def insert_commute)
    qed (use 1 False in \<open>simp_all add: checkType.simps [of isUpper U t s] refs_def lowers_def Let_def\<close>)
    with False show ?thesis by (rule visits_enter)
  qed (simp add: checkType.simps)
next
  case (3 isUpper U tname f t fs s)
  have "lower_names isUpper ((f, t) # fs) = lower_names isUpper [(f, t)] + 0 + lower_names isUpper fs"
    by (simp add: lower_names_def)
  with visits_trans [OF visits_trans [OF visits_name 3(1)] 3(2)] show ?case by simp
qed (simp add: lower_names_def)

section \<open>What the check of defaults sees\<close>

text \<open>The basic values at most \<open>n\<close> steps below a value, and how many of them are not zero.\<close>

fun leaves :: "(nat \<Rightarrow> rvalue) \<Rightarrow> nat \<Rightarrow> rvalue \<Rightarrow> basic list" where
  "leaves heap 0 v = []"
| "leaves heap (Suc n) (StructV fs) = concat (map (\<lambda>(f, v). leaves heap n v) fs)"
| "leaves heap (Suc n) (PtrV None) = []"
| "leaves heap (Suc n) (PtrV (Some p)) = leaves heap n (heap p)"
| "leaves heap (Suc n) (BasicV tname b) = [b]"
| "leaves heap (Suc n) OtherV = []"

definition nonzero :: "basic list \<Rightarrow> int" where
  "nonzero bs = int (length (filter (\<lambda>b. \<not> is_zero b) bs))"

definition warns :: "int \<Rightarrow> labgob \<Rightarrow> labgob \<Rightarrow> bool" where
  "warns k s s' \<longleftrightarrow> 0 \<le> k \<and> errorCount s' = errorCount s + k \<and> checked s' = checked s \<and>
     (0 \<le> errorCount s \<longrightarrow> (\<exists>ms. printed s' = printed s @ ms \<and> length ms = (if errorCount s = 0 \<and> 0 < k then 1 else 0)))"

lemma nonzero_simps [simp]:
  "nonzero [] = 0" "nonzero (b # bs) = (if is_zero b then 0 else 1) + nonzero bs"
  "nonzero (as @ bs) = nonzero as + nonzero bs"
  by (simp_all add: nonzero_def)

lemma warns_refl [simp]: "warns 0 s s"
  by (simp add: warns_def)

lemma warns_trans: "warns k s s1 \<Longrightarrow> warns k' s1 s2 \<Longrightarrow> warns (k + k') s s2"
  by (auto simp: warns_def split: if_splits)

lemma warns_one: "warns 1 s (warn_default name tname s)"
  by (auto simp: warns_def warn_default_def Let_def)

lemma checkDefault1_warns:
  "warns (nonzero (leaves heap (4 - depth) v)) s (checkDefault1 heap v depth name s)"
  "warns (nonzero (concat (map (\<lambda>(f, v). leaves heap (3 - depth) v) fs))) s (default_fields heap fs depth name s)"
proof (induction heap v depth name s and heap fs depth name s rule: checkDefault1_default_fields.induct)
  case (1 heap v depth name s)
  show ?case
  proof (cases "depth > 3")
    case False
    then have "4 - depth = Suc (3 - depth)" "4 - Suc depth = 3 - depth" by simp_all
    with 1 False show ?thesis
      by (auto simp: checkDefault1.simps [of heap v depth name s] warns_one split: rvalue.splits option.splits)
  qed (simp add: checkDefault1.simps)
next
  case (3 heap f v fs depth name s)
  then show ?case using warns_trans [OF 3(1,2)] by simp
qed simp

lemma checkDefault_warns: "warns (nonzero (leaves heap 3 v)) s (checkDefault heap (Some v) s)"
  using checkDefault1_warns(1) [of heap 1 v s] by (simp add: checkDefault_def numeral_3_eq_3)

text \<open>
  \<open>Decode\<close> of nil does not reach the case for nil in \<open>checkDefault\<close>: \<open>checkValue\<close> panics before.
\<close>

lemma Decode_nil: "Decode isUpper U heap gob None s = Panic"
  by (simp add: Decode_def checkValue_def)

section \<open>Properties\<close>

definition closed_types :: "rtype list \<Rightarrow> labgob \<Rightarrow> bool" where
  "closed_types U s \<longleftrightarrow> (\<forall>u\<in>set (checked s). refs U u \<subseteq> set (checked s))"

lemma closed_reach:
  assumes "closed_types U s" and "t \<in> set (checked s)"
  shows "reach U t \<subseteq> set (checked s)"
proof
  fix u assume "u \<in> reach U t"
  then have "(t, u) \<in> {(a, b). b \<in> refs U a}\<^sup>*" by (simp add: reach_def)
  then show "u \<in> set (checked s)" by induction (use assms in \<open>auto simp: closed_types_def\<close>)
qed

lemma checkType_closed:
  assumes "closed_types U s"
  shows "closed_types U (checkType isUpper U t s)"
    and "set (checked (checkType isUpper U t s)) = set (checked s) \<union> reach U t"
proof -
  let ?s = "checkType isUpper U t s"
  have v: "visits isUpper U {t} 0 s ?s" by (rule checkType_visits)
  show cl: "closed_types U ?s"
    unfolding closed_types_def
  proof
    fix u assume "u \<in> set (checked ?s)"
    then show "refs U u \<subseteq> set (checked ?s)"
      using assms v by (cases "u \<in> set (checked s)") (auto simp: visits_def newly_def closed_types_def)
  qed
  show "set (checked ?s) = set (checked s) \<union> reach U t"
    using closed_reach [OF cl, of t] v by (auto simp: visits_def newly_def)
qed

text \<open>
  C39: types are checked once and completely. After checking any list of types, in any order and with
  repetitions, on recursive types too, exactly the types that they refer to, directly or through others,
  are checked, and the error count is the number of lower-case fields of all those types, each counted once.
\<close>

theorem types_checked_once:
  "set (checked (foldl (\<lambda>s t. checkType isUpper U t s) init_labgob ts)) = (\<Union>t\<in>set ts. reach U t) \<and>
   errorCount (foldl (\<lambda>s t. checkType isUpper U t s) init_labgob ts) = (\<Sum>u\<in>(\<Union>t\<in>set ts. reach U t). lowers isUpper U u)"
proof -
  let ?f = "foldl (\<lambda>s t. checkType isUpper U t s) init_labgob"
  have "closed_types U (?f ts) \<and> set (checked (?f ts)) = (\<Union>t\<in>set ts. reach U t) \<and>
     errorCount (?f ts) = (\<Sum>u\<in>set (checked (?f ts)). lowers isUpper U u)"
  proof (induction ts rule: rev_induct)
    case (snoc t ts)
    let ?s = "checkType isUpper U t (?f ts)"
    have "set (checked (?f ts)) \<subseteq> set (checked ?s)"
      using checkType_visits(1) [of isUpper U t "?f ts"] by (simp add: visits_def)
    then have "(\<Sum>u\<in>set (checked ?s). lowers isUpper U u) =
        (\<Sum>u\<in>newly (?f ts) ?s. lowers isUpper U u) + (\<Sum>u\<in>set (checked (?f ts)). lowers isUpper U u)"
      unfolding newly_def by (rule sum.subset_diff) simp
    with snoc checkType_closed [of U "?f ts"] checkType_visits(1) [of isUpper U t "?f ts"] show ?case
      by (auto simp: visits_def)
  qed (simp add: init_labgob_def closed_types_def)
  then show ?thesis by metis
qed

end
