(* ===== verification/Spec2Isabelle.thy ===== *)
theory Spec2Isabelle
  imports LockNet TestRun ShardTest MrMain RaftChecked RaftAgree LabGob
begin

text \<open>
  A verification library for a solution of the 6.5840 (distributed systems) labs: MapReduce, a versioned
  key/value server with its clerk and lock, Raft, shard configurations, and the harness in which the labs
  are tested. Paths are relative to \<open>src/src\<close>. All theories are shallow embeddings: a function, a method or
  a critical section of the source is one definition, named after it.

  \<^bold>\<open>How Go is modelled.\<close> Theory \<open>Prelude\<close> has the outcome type \<open>go\<close>: a piece of code returns (\<open>Ret\<close>), panics
  (\<open>Panic\<close>: an index out of range, a nil pointer, a nil map), stops the process or the test (\<open>Fatal\<close>:
  \<open>log.Fatal\<close>, \<open>ts.Fatalf\<close>), or locks a mutex that it holds itself (\<open>Block\<close>). Structs are records, Go maps are
  association lists without repeated keys (\<open>gomap\<close>, with the interface \<open>go_map\<close>, whose laws are what a
  lookup, an assignment and a deletion promise) where their length or their order matters, and HOL maps
  elsewhere; \<open>Tversion\<close> and the hash are words that wrap around; an \<open>int\<close> of Go is an unbounded integer, as the
  terms, indices and counters involved stay far below $2^{63}$. Code that runs under a mutex is one step;
  goroutines, RPCs in flight and timers are steps of a relation or actions of a system that interleaves
  them freely. The clock, random numbers, the codecs of \<open>labgob\<close> and \<open>encoding/json\<close>, and the programs under
  test are arguments of the definitions that use them.

  \<^bold>\<open>The key/value service.\<close> \<open>KvServer\<close> is \<open>kvsrv1/server.go\<close> with \<open>kvsrv1/rpc/rpc.go\<close>: \<open>Get\<close> and \<open>Put\<close> on every branch, and
  the interface \<open>versioned_store\<close>, in which it is proved once that versions never decrease and that two
  puts at one version are not both accepted. \<open>KvModel\<close> is the linearizability model of \<open>models1/kv.go\<close>, which the
  server refines key by key except for one error code. \<open>KvClerk\<close> is \<open>kvsrv1/client.go\<close>: the retry loops, and
  an asynchronous system in which requests are lost, delayed and reordered; what \<open>OK\<close>, \<open>ErrVersion\<close> and
  \<open>ErrMaybe\<close> of \<open>Clerk.Put\<close> mean is a theorem over all its executions. \<open>KvLock\<close> runs \<open>Acquire\<close> and \<open>Release\<close> of
  \<open>kvsrv1/lock/lock.go\<close> as programs of that system, with mutual exclusion and the effect of a release.

  \<open>KvLin\<close> defines linearizability of a history with respect to the model, and finds an order from the log of the
  server. \<open>KvHistory\<close> has clients that call the clerk and the history of their operations: it is linearizable, \<open>ErrMaybe\<close>
  included. \<open>KvNet\<close> puts the clerk and the server on the network of \<open>LabRpc\<close>, with the server as the service that
  \<open>MakeService\<close> makes of it, and shows by a simulation that every run is one of the asynchronous system; so
  histories over the network are linearizable, and the lock excludes there too (\<open>LockNet\<close>). \<open>KvChecked\<close> is \<open>checkPorcupine\<close> of
  \<open>kvtest1/porcupine.go\<close>, which such histories pass. The times of an operation there are numbers of executed requests, which
  order operations as the clock does; the service is one server that is not started again, so \<open>StartKVServer\<close> with its empty map is
  the initial state only.

  \<^bold>\<open>Raft.\<close> \<open>Persister\<close> is \<open>tester1/persister.go\<close>. \<open>Raft\<close> has the peer of \<open>raft1/raft.go\<close>: both RPC handlers, the client
  interface, and each critical section of the goroutines; exactly what \<open>AppendEntries\<close> and \<open>Start\<close> do to the
  log; and the interface \<open>voter\<close>, from which a peer votes for one candidate in a term. \<open>RaftCluster\<close> puts the
  peers together with pending requests and replies and proves election safety, the shape of all logs, and
  what fails (a killed peer stops at its next critical section, where the source ends the current iteration first): nothing is ever committed, a single peer is never elected, and one restart makes two
  leaders of one term, since \<open>persist\<close> is empty. \<open>RaftTest\<close> has the test servers of \<open>raft1/server.go\<close> and the
  checks of \<open>raft1/test.go\<close>: an accepted run has agreeing logs without gaps, runs that apply one log in order are
  accepted, with the exact count of servers at every index, and a snapshot survives a round trip. \<open>RaftAgree\<close> has \<open>one\<close> and \<open>wait\<close>: the agreement they report is real. \<open>RaftChecked\<close> joins the two: no round of \<open>checkOneLeader\<close> fails
  on what it can observe of an execution of the cluster without restarts.

  \<open>Rsm\<close> is \<open>kvraft1/rsm\<close>, where \<open>Submit\<close> is still the skeleton of the lab: the counter service with its
  snapshots, and the helpers that find a server which accepts a command.

  \<^bold>\<open>MapReduce.\<close> \<open>MrCoordinator\<close> is \<open>mr/coordinator.go\<close>: the scheduling of tasks, reports and phases, with the
  invariant that relates the phase to the reports received, progress, the deadlock of a timed-out
  task, and what a repeated report does. \<open>MrWorker\<close> has \<open>mr/worker.go\<close> and \<open>main/mrsequential.go\<close> over a disk of named files, and the equality of
  distributed and sequential output. \<open>MrSystem\<close> is a whole job: any number of workers that interleave, and crash, also
  in the middle of writing; when the coordinator is done, the output is the sequential one. \<open>MrApps\<close> has the
  applications of \<open>mrapps\<close>, with word count verified, and \<open>MrMain\<close> the main programs, the clean-up of old files, plugins, and
  the applications that count other workers through files.

  \<^bold>\<open>Sharding.\<close> \<open>ShardCfg\<close> is \<open>shardkv1/shardcfg/shardcfg.go\<close>: \<open>Join\<close>, \<open>Leave\<close>, \<open>Rebalance\<close> and the checks. The loop of
  \<open>Rebalance\<close> has no bound in the source and is a \<open>partial_function (option)\<close>; that it returns is part of the
  theorem about it. \<open>ShardTest\<close> is \<open>shardkv1/test.go\<close> with the client, controller and groups of \<open>shardkv1\<close>, which are lab skeletons:
  setting a service up, and groups that join and leave through a controller. The setup is shown for any controller, and that
  the tests panic at their first join or leave with the skeleton of the repository; lemmas say what they would do with a
  controller that stores configurations, as the comments of the skeleton ask. \<open>KvRaft\<close> has the skeletons of \<open>kvraft1\<close> and the
  wiring of the key/value tests.

  \<^bold>\<open>The harness.\<close> \<open>LabRpc\<close> is the simulated network of \<open>labrpc/labrpc.go\<close>: end points, servers, services, the dispatch
  of a method, the fate of a request, and calls that interleave with each other and with the management of
  the network; a call is executed at most once. \<open>Tester\<close> has the clerks (\<open>tester1/clnts.go\<close>), servers (\<open>tester1/srv.go\<close>),
  groups (\<open>tester1/group.go\<close>) and configurations (\<open>tester1/config.go\<close>) on top of it. \<open>Topology\<close> proves that the operations on
  a group refine a relation between servers that can talk, so that \<open>Partition\<close> separates its sides; \<open>Restart\<close>
  that a restarted server reads what was saved before the shutdown and nothing that its old incarnation
  writes later; \<open>GroupOps\<close> that no sequence of operations on a group goes wrong. \<open>KvTest\<close> has the clients and
  checks of \<open>kvtest1\<close>; a clerk is an interface there (\<open>reliable_clerk\<close>), interpreted on the server of \<open>KvServer\<close>.
  \<open>Annotation\<close> is \<open>tester1/annotation.go\<close>: the record of faults and the fault annotation
  are those that the history of operations calls for. \<open>Spawn\<close> has the goroutines
  and channels of \<open>SpawnClientsAndWait\<close>: it returns every client's result, and nothing deadlocks. \<open>TestRun\<close> is the life of a test
  around its body: the time limit, its end, its failure, and the files it leaves.

  \<open>LabGob\<close> is \<open>labgob/labgob.go\<close>: the search through the types of a program, which may be recursive, ends, visits
  what can be reached, and counts every bad field once; the check of variables to decode into.

  \<^bold>\<open>Bounds and fuel.\<close> Loops of the source that the data bounds are structural or come with a measure. The retry
  loops of \<open>KvClerk\<close> run over the list of the results of their calls, and end only if one of them is a reply. The
  loops of \<open>KvTest\<close> take fuel, and \<open>None\<close> is a loop still running; \<open>PutAtLeastOnce\<close> is shown to need
  one more than the number of versions it is behind. \<open>checkOneLeader\<close> makes ten rounds, as in the source.

  \<^bold>\<open>Not modelled.\<close> Sleeping and real time: time limits are numbers of rounds and polls, or compare readings of a clock that
  is an argument. Third-party and generated code is an argument: \<open>porcupine\<close>, \<open>encoding/gob\<close>, \<open>encoding/json\<close>, \<open>net/rpc\<close>, \<open>plugin\<close>,
  and what \<open>reflect\<close> tells about types. Functions that only print (\<open>DPrintf\<close>) or only open a socket (\<open>server\<close> of \<open>mr/coordinator.go\<close>)
  have no state to model. Errors of \<open>Rename\<close> and \<open>Encode\<close> in the worker are left out, and the reports of \<open>MrSystem\<close> are not resent; \<open>raftapi\<close> declares an interface. Of the four goroutines of \<open>concurCtrler\<close> one round of one is modelled. The programs
  \<open>diskvd\<close>, \<open>lockc\<close>, \<open>lockd\<close>, \<open>pbd\<close> and \<open>viewd\<close> of \<open>main\<close> call packages that are not in the repository.
\<close>

end
